(* ===== verification/Go_Prelude.thy ===== *)
theory Go_Prelude
  imports Main "HOL-Library.Word"
begin

text \<open>
  The vocabulary shared by all component theories: the outcome of a Go call, Go's
  64-bit signed integers, byte strings, and the list and arithmetic lemmas the
  component proofs use.

  A Go function may return, return a non-nil \<^verbatim>\<open>error\<close>, or panic (by an explicit
  \<^verbatim>\<open>panic\<close>, by \<^verbatim>\<open>utils.Panic\<close>, or by a runtime check such as an index out of
  range). These are the three constructors of \<open>go\<close>; the string is the constant part
  of the message of the source. A method that mutates its receiver \<^emph>\<open>and\<close> returns an
  error is modelled by a function returning the new receiver together with the
  error, because in Go the mutation stays when the error is returned.
\<close>

unbundle bit_operations_syntax

named_theorems go_simps \<open>unfolding the outcome combinators\<close>

datatype 'a go = Ret 'a | Err string | Panic string

primrec go_bind :: "'a go \<Rightarrow> ('a \<Rightarrow> 'b go) \<Rightarrow> 'b go" where
  "go_bind (Ret x) f = f x"
| "go_bind (Err e) f = Err e"
| "go_bind (Panic m) f = Panic m"

text \<open>\<open>must\<close> is the wrapper the code calls \<^verbatim>\<open>MustX\<close>: an error becomes a panic.\<close>

primrec must :: "'a go \<Rightarrow> 'a go" where
  "must (Ret x) = Ret x"
| "must (Err e) = Panic e"
| "must (Panic m) = Panic m"

lemma go_bind_Ret_iff [go_simps]:
  "go_bind m f = Ret y \<longleftrightarrow> (\<exists>x. m = Ret x \<and> f x = Ret y)"
  by (cases m) auto

lemma go_bind_Panic_iff [go_simps]:
  "go_bind m f = Panic s \<longleftrightarrow> m = Panic s \<or> (\<exists>x. m = Ret x \<and> f x = Panic s)"
  by (cases m) auto

lemma go_bind_Err_iff [go_simps]:
  "go_bind m f = Err s \<longleftrightarrow> m = Err s \<or> (\<exists>x. m = Ret x \<and> f x = Err s)"
  by (cases m) auto

lemma must_Ret_iff [go_simps]: "must m = Ret y \<longleftrightarrow> m = Ret y"
  by (cases m) auto

lemma go_bind_assoc: "go_bind (go_bind m f) g = go_bind m (\<lambda>x. go_bind (f x) g)"
  by (cases m) auto

text \<open>
  \<open>ret_or P S m\<close>: the call returns a value satisfying \<open>P\<close>, or it panics with one of
  the messages in \<open>S\<close>; no other outcome is possible.
\<close>

definition ret_or :: "('a \<Rightarrow> bool) \<Rightarrow> string set \<Rightarrow> 'a go \<Rightarrow> bool" where
  "ret_or P S m = (case m of Ret x \<Rightarrow> P x | Err e \<Rightarrow> False | Panic e \<Rightarrow> e \<in> S)"

lemma ret_or_simps [simp]:
  "ret_or P S (Ret x) = P x"
  "ret_or P S (Err e) = False"
  "ret_or P S (Panic e) = (e \<in> S)"
  by (simp_all add: ret_or_def)

lemma ret_or_mono:
  assumes "ret_or P S m" and "\<And>x. P x \<Longrightarrow> Q x" and "S \<subseteq> T"
  shows "ret_or Q T m"
  using assms by (cases m) auto

lemma ret_or_bind:
  assumes "ret_or P S m" and "\<And>x. P x \<Longrightarrow> ret_or Q S (f x)"
  shows "ret_or Q S (go_bind m f)"
  using assms by (cases m) auto

lemma ret_or_bind2:
  assumes "ret_or P S m" and "\<And>a b. P (a, b) \<Longrightarrow> ret_or Q S (f a b)"
  shows "ret_or Q S (go_bind m (\<lambda>(a, b). f a b))"
  using assms(1) by (rule ret_or_bind) (auto intro: assms(2))

lemma ret_or_must: "ret_or P S m \<Longrightarrow> ret_or P S (must m)"
  by (cases m) auto

lemma ret_or_RetD: "ret_or P S m \<Longrightarrow> m = Ret x \<Longrightarrow> P x"
  by simp

section \<open>Go's \<^verbatim>\<open>int\<close> and \<^verbatim>\<open>int64\<close>\<close>

text \<open>
  Both types have 64 bits on the platforms of the prover. A value is an \<open>int\<close>;
  \<open>i64\<close> writes out the two's complement wrap-around where an operation can leave the
  range. \<open>shl1 n\<close> is the expression \<^verbatim>\<open>1 << n\<close>.
\<close>

definition i64 :: "int \<Rightarrow> int" where
  "i64 x = signed_take_bit 63 x"

definition int64_ok :: "int \<Rightarrow> bool" where
  "int64_ok x \<longleftrightarrow> - (2 ^ 63) \<le> x \<and> x < 2 ^ 63"

definition shl1 :: "nat \<Rightarrow> int" where
  "shl1 n = i64 (2 ^ n)"

lemma i64_id: "int64_ok x \<Longrightarrow> i64 x = x"
  unfolding i64_def int64_ok_def by (rule signed_take_bit_int_eq_self) auto

lemma int64_ok_i64 [simp]: "int64_ok (i64 x)"
  unfolding i64_def int64_ok_def
  using signed_take_bit_int_greater_eq_minus_exp [of 63 x] signed_take_bit_int_less_exp [of 63 x]
  by auto

lemma shl1_small: "n < 63 \<Longrightarrow> shl1 n = 2 ^ n"
proof -
  assume n: "n < 63"
  then have "(2::int) ^ n < 2 ^ 63" by (intro power_strict_increasing) auto
  moreover have "- (2 ^ 63) \<le> (2::int) ^ n"
    by (rule order_trans [of _ 0]) auto
  ultimately show ?thesis
    unfolding shl1_def by (intro i64_id) (simp add: int64_ok_def)
qed

lemma shl1_pos: "n < 63 \<Longrightarrow> 0 < shl1 n"
  by (simp add: shl1_small)

section \<open>Positions in a binary tree\<close>

text \<open>The code walks up a tree with \<^verbatim>\<open>idx ^ 1\<close>, \<^verbatim>\<open>idx & 1\<close> and \<^verbatim>\<open>idx >>= 1\<close>.\<close>

definition sib :: "nat \<Rightarrow> nat" where
  "sib i = (if even i then i + 1 else i - 1)"

lemma xor_1_nat: "int i XOR 1 = int (sib i)"
proof (cases "even i")
  case True
  then obtain k where "i = 2 * k" by (auto elim: evenE)
  then show ?thesis by (simp add: sib_def xor_one_eq)
next
  case False
  then obtain k where "i = 2 * k + 1" by (auto elim: oddE)
  then show ?thesis by (simp add: sib_def xor_one_eq)
qed

lemma and_1_nat: "(int i AND 1 = 1) = odd i"
  by (simp add: and_one_eq) presburger

lemma drop_1_nat: "drop_bit (Suc 0) (int i) = int (i div 2)"
  by (simp add: drop_bit_eq_div zdiv_int)

lemma sib_neq [simp]: "sib i \<noteq> i"
  by (auto simp: sib_def elim: oddE)

lemma sib_div2 [simp]: "sib i div 2 = i div 2"
  by (auto simp: sib_def elim!: oddE evenE)

lemma sib_less: "i < 2 ^ Suc n \<Longrightarrow> sib i < 2 ^ Suc n"
proof -
  assume i: "i < 2 ^ Suc n"
  show "sib i < 2 ^ Suc n"
  proof (cases "even i")
    case True
    then obtain k where k: "i = 2 * k" by (auto elim: evenE)
    with i have "k < 2 ^ n" by simp
    then show ?thesis using k by (simp add: sib_def)
  next
    case False
    then show ?thesis using i by (simp add: sib_def)
  qed
qed

lemma div2_less: "i < 2 ^ Suc n \<Longrightarrow> i div 2 < (2::nat) ^ n"
  by (simp add: less_mult_imp_div_less mult.commute)

lemma div_pow_Suc: "p div 2 ^ L div 2 = p div (2 :: nat) ^ Suc L"
  by (simp only: power_Suc2 div_mult2_eq)

lemma parent_children:
  "odd i \<Longrightarrow> 2 * (i div 2) = sib i \<and> 2 * (i div 2) + 1 = i"
  "even i \<Longrightarrow> 2 * (i div 2) = i \<and> 2 * (i div 2) + 1 = sib i"
  by (auto simp: sib_def elim!: oddE evenE)

section \<open>Byte strings\<close>

type_synonym byte = "8 word"

type_synonym bytes = "byte list"

lemma unat_byte_less: "unat (b :: byte) < 256"
  by (rule unsigned_less [of b, simplified])

text \<open>
  Big-endian integers, as \<^verbatim>\<open>binary.BigEndian\<close> and \<^verbatim>\<open>big.Int.Bytes\<close> lay them out:
  \<open>be_bytes k n\<close> are the \<open>k\<close> low bytes of \<open>n\<close>, most significant first, and \<open>be_nat\<close>
  reads a byte string back.
\<close>

primrec be_bytes :: "nat \<Rightarrow> nat \<Rightarrow> bytes" where
  "be_bytes 0 n = []"
| "be_bytes (Suc k) n = be_bytes k (n div 256) @ [of_nat n]"

definition be_nat :: "bytes \<Rightarrow> nat" where
  "be_nat bs = foldl (\<lambda>a b. a * 256 + unat b) 0 bs"

lemma length_be_bytes [simp]: "length (be_bytes k n) = k"
  by (induction k arbitrary: n) auto

lemma be_nat_Nil [simp]: "be_nat [] = 0"
  by (simp add: be_nat_def)

lemma be_nat_snoc [simp]: "be_nat (bs @ [b]) = be_nat bs * 256 + unat b"
  by (simp add: be_nat_def)

lemma be_nat_be_bytes: "be_nat (be_bytes k n) = n mod 256 ^ k"
proof (induction k arbitrary: n)
  case 0
  then show ?case by simp
next
  case (Suc k)
  have "n mod 256 ^ Suc k = 256 * (n div 256 mod 256 ^ k) + n mod 256"
    by (simp add: mod_mult2_eq)
  with Suc.IH [of "n div 256"] show ?case
    by (simp add: unsigned_of_nat take_bit_eq_mod)
qed

lemma be_nat_be_bytes_id [simp]: "n < 256 ^ k \<Longrightarrow> be_nat (be_bytes k n) = n"
  by (simp add: be_nat_be_bytes)

lemma be_bytes_be_nat: "be_bytes (length bs) (be_nat bs) = bs"
proof (induction bs rule: rev_induct)
  case Nil
  then show ?case by simp
next
  case (snoc b bs)
  have "unat b < 256" by (rule unat_byte_less)
  then have "(be_nat bs * 256 + unat b) div 256 = be_nat bs" by simp
  moreover have "(of_nat (be_nat bs * 256 + unat b) :: byte) = b"
  proof -
    have "unat (of_nat (be_nat bs * 256 + unat b) :: byte) = unat b"
      using \<open>unat b < 256\<close> by (simp only: unsigned_of_nat) (simp add: take_bit_eq_mod)
    then show ?thesis by (simp only: word_unat_eq_iff)
  qed
  ultimately show ?case using snoc.IH by simp
qed

lemma be_nat_less: "be_nat bs < 256 ^ length bs"
proof -
  have "be_nat (be_bytes (length bs) (be_nat bs)) < 256 ^ length bs"
    unfolding be_nat_be_bytes by simp
  then show ?thesis by (simp only: be_bytes_be_nat)
qed

lemma be_nat_append: "be_nat (as @ bs) = be_nat as * 256 ^ length bs + be_nat bs"
  by (induction bs rule: rev_induct)
    (simp_all add: algebra_simps append.assoc [symmetric] del: append_assoc)

lemma be_nat_zeros [simp]: "be_nat (replicate n 0) = 0"
  by (induction n) (simp_all add: be_nat_def)

lemma be_bytes_inj: "be_bytes k m = be_bytes k n \<Longrightarrow> m < 256 ^ k \<Longrightarrow> n < 256 ^ k \<Longrightarrow> m = n"
  by (metis be_nat_be_bytes_id)

text \<open>Splitting a byte string into consecutive chunks of \<open>w\<close> bytes.\<close>

definition segment :: "nat \<Rightarrow> nat \<Rightarrow> 'a list \<Rightarrow> 'a list" where
  "segment w i xs = take w (drop (w * i) xs)"

lemma segment_concat:
  assumes "\<forall>c \<in> set cs. length c = w" and "i < length cs"
  shows "segment w i (concat cs) = cs ! i"
  using assms
proof (induction cs arbitrary: i)
  case Nil
  then show ?case by simp
next
  case (Cons c cs)
  then show ?case by (cases i) (simp_all add: segment_def add.commute)
qed

lemma map_segment_concat:
  assumes "\<forall>c \<in> set cs. length c = w" and "n = length cs"
  shows "map (\<lambda>i. segment w i (concat cs)) [0..<n] = cs"
  using assms by (intro nth_equalityI) (auto simp: segment_concat)

end
