(* ===== verification/Koala.thy ===== *)
theory Koala
  imports Go_Prelude
begin

text \<open>
  KoalaBear field elements and octuplets (\<^verbatim>\<open>prover/utils/types/field_koalaoctuplet.go\<close>).

  The element type \<^verbatim>\<open>field.Element\<close> and the Poseidon2 compression function
  \<^verbatim>\<open>vortex.CompressPoseidon2\<close> come from the third-party package gnark-crypto: the
  element type is a type variable \<open>'e\<close> and the operations the code calls are the
  fields of the record \<open>gnark\<close>, an argument \<open>G\<close> of every definition that uses them.
  What the code relies on is the locale \<open>felt\<close>: \<^verbatim>\<open>Cmp\<close> compares canonical values, so
  it is a total order whose least element is 0 and whose greatest element is \<open>-1\<close>;
  \<^verbatim>\<open>Bytes\<close> is the canonical encoding on four bytes, which \<^verbatim>\<open>SetBytesCanonical\<close>
  reads back; a value below \<open>2 ^ 16\<close> is canonical, and so reads as an element.
\<close>

datatype 'e octuplet = Oct 'e 'e 'e 'e 'e 'e 'e 'e

record 'e gnark =
  felt_zero :: 'e
  felt_neg1 :: 'e
  felt_cmp :: "'e \<Rightarrow> 'e \<Rightarrow> int"
  felt_bytes :: "'e \<Rightarrow> bytes"
  felt_set_canonical :: "bytes \<Rightarrow> 'e option"
  felt_set_bytes :: "bytes \<Rightarrow> 'e"
  compress_p2 :: "'e octuplet \<Rightarrow> 'e octuplet \<Rightarrow> 'e octuplet"

primrec oct_list :: "'e octuplet \<Rightarrow> 'e list" where
  "oct_list (Oct a b c d e f g h) = [a, b, c, d, e, f, g, h]"

text \<open>\<open>copy(buf[:], xs)\<close> into a zeroed array of eight elements.\<close>

definition oct_of_list :: "'e \<Rightarrow> 'e list \<Rightarrow> 'e octuplet" where
  "oct_of_list z xs =
     (let at = (\<lambda>i. if i < length xs then xs ! i else z)
      in Oct (at 0) (at 1) (at 2) (at 3) (at 4) (at 5) (at 6) (at 7))"

lemma length_oct_list [simp]: "length (oct_list x) = 8"
  by (cases x) simp

lemma oct_of_list_inverse [simp]: "oct_of_list z (oct_list x) = x"
  by (cases x) (simp add: oct_of_list_def)

lemma oct_list_inverse: "length xs = 8 \<Longrightarrow> oct_list (oct_of_list z xs) = xs"
  by (intro nth_equalityI) (auto simp: oct_of_list_def less_Suc_eq numeral_eq_Suc)

lemma oct_list_inject [simp]: "oct_list x = oct_list y \<longleftrightarrow> x = y"
  by (metis oct_of_list_inverse)

text \<open>The zero value \<^verbatim>\<open>KoalaOctuplet{}\<close>.\<close>

definition oct_zero :: "'e gnark \<Rightarrow> 'e octuplet" where
  "oct_zero G = (let z = felt_zero G in Oct z z z z z z z z)"

lemma oct_list_zero: "oct_list (oct_zero G) = replicate 8 (felt_zero G)"
  by (simp add: oct_zero_def Let_def numeral_eq_Suc)

section \<open>Bytes\<close>

definition ToBytes :: "'e gnark \<Rightarrow> 'e octuplet \<Rightarrow> bytes" where
  "ToBytes G e = concat (map (felt_bytes G) (oct_list e))"

definition SetBytes :: "'e gnark \<Rightarrow> bytes \<Rightarrow> 'e octuplet go" where
  "SetBytes G b =
     (if length b \<noteq> 32 then Err ''could not unmarshal koalabear octuplet : should have 32 bytes''
      else case those (map (\<lambda>i. felt_set_canonical G (segment 4 i b)) [0..<8]) of
             None \<Rightarrow> Err ''could not unmarshal koalabear octuplet''
           | Some xs \<Rightarrow> Ret (oct_of_list (felt_zero G) xs))"

definition BytesToKoalaOctuplet :: "'e gnark \<Rightarrow> bytes \<Rightarrow> 'e octuplet go" where
  "BytesToKoalaOctuplet G b = SetBytes G b"

definition MustBytesToKoalaOctuplet :: "'e gnark \<Rightarrow> bytes \<Rightarrow> 'e octuplet go" where
  "MustBytesToKoalaOctuplet G b = must (BytesToKoalaOctuplet G b)"

definition BytesToKoalaOctupletLoose :: "'e gnark \<Rightarrow> bytes \<Rightarrow> 'e octuplet" where
  "BytesToKoalaOctupletLoose G b =
     (let b' = take 32 (b @ replicate (32 - length b) 0)
      in oct_of_list (felt_zero G) (map (\<lambda>i. felt_set_bytes G (segment 4 i b')) [0..<8]))"

section \<open>Order\<close>

definition MaxKoalaOctuplet :: "'e gnark \<Rightarrow> 'e octuplet" where
  "MaxKoalaOctuplet G = (let m = felt_neg1 G in Oct m m m m m m m m)"

definition IsMaxOctuplet :: "'e gnark \<Rightarrow> 'e octuplet \<Rightarrow> bool" where
  "IsMaxOctuplet G e = list_all (\<lambda>x. x = felt_neg1 G) (oct_list e)"

fun cmp_loop :: "'e gnark \<Rightarrow> 'e list \<Rightarrow> 'e list \<Rightarrow> int" where
  "cmp_loop G (x # xs) (y # ys) =
     (let r = felt_cmp G x y in if r \<noteq> 0 then r else cmp_loop G xs ys)"
| "cmp_loop G _ _ = 0"

definition Cmp :: "'e gnark \<Rightarrow> 'e octuplet \<Rightarrow> 'e octuplet \<Rightarrow> int" where
  "Cmp G e other = cmp_loop G (oct_list e) (oct_list other)"

definition DummyKoalaOctuplet :: "'e gnark \<Rightarrow> 'e \<Rightarrow> 'e octuplet" where
  "DummyKoalaOctuplet G x = (let z = felt_zero G in Oct x z z z z z z z)"

lemma IsMaxOctuplet_iff: "IsMaxOctuplet G e \<longleftrightarrow> e = MaxKoalaOctuplet G"
  by (cases e) (auto simp: IsMaxOctuplet_def MaxKoalaOctuplet_def Let_def)

section \<open>What the code relies on of gnark-crypto\<close>

locale felt =
  fixes G :: "'e gnark"
  assumes cmp_eq: "felt_cmp G a b = 0 \<longleftrightarrow> a = b"
    and cmp_range: "felt_cmp G a b \<in> {-1, 0, 1}"
    and cmp_swap: "felt_cmp G b a = - felt_cmp G a b"
    and cmp_trans: "felt_cmp G a b = -1 \<Longrightarrow> felt_cmp G b c = -1 \<Longrightarrow> felt_cmp G a c = -1"
    and zero_least: "felt_cmp G (felt_zero G) a \<le> 0"
    and neg1_greatest: "felt_cmp G a (felt_neg1 G) \<le> 0"
    and zero_neg1: "felt_zero G \<noteq> felt_neg1 G"
    and bytes_length: "length (felt_bytes G a) = 4"
    and set_canonical_bytes: "felt_set_canonical G (felt_bytes G a) = Some a"
    and canonical_bytes: "felt_set_canonical G bs = Some a \<Longrightarrow> felt_bytes G a = bs"
    and small_canonical: "\<exists>x. felt_set_canonical G [0, 0, p, q] = Some x"
begin

lemma cmp_refl [simp]: "felt_cmp G a a = 0"
  by (simp add: cmp_eq)

lemma cmp_loop_eq: "length xs = length ys \<Longrightarrow> cmp_loop G xs ys = 0 \<longleftrightarrow> xs = ys"
  by (induction xs ys rule: list_induct2) (auto simp: Let_def cmp_eq)

lemma cmp_loop_range: "cmp_loop G xs ys \<in> {-1, 0, 1}"
  by (induction xs ys rule: list_induct2') (use cmp_range in \<open>auto simp: Let_def\<close>)

lemma cmp_loop_swap: "cmp_loop G ys xs = - cmp_loop G xs ys"
proof (induction xs ys rule: list_induct2')
  case (4 x xs y ys)
  then show ?case using cmp_swap [of x y] by (simp add: Let_def)
qed simp_all

lemma cmp_loop_trans:
  assumes "length xs = length ys" "length ys = length zs"
    and "cmp_loop G xs ys = -1" "cmp_loop G ys zs = -1"
  shows "cmp_loop G xs zs = -1"
  using assms
proof (induction xs ys zs rule: list_induct3)
  case (Cons x xs y ys z zs)
  show ?case
  proof (cases "x = y \<or> y = z")
    case True
    with Cons show ?thesis by (auto simp: Let_def cmp_eq split: if_splits)
  next
    case False
    with Cons.prems have "felt_cmp G x y = -1" "felt_cmp G y z = -1"
      by (simp_all add: Let_def cmp_eq)
    then have "felt_cmp G x z = -1" by (rule cmp_trans)
    then show ?thesis by simp
  qed
qed simp

lemma Cmp_eq [simp]: "Cmp G a b = 0 \<longleftrightarrow> a = b"
  by (simp add: Cmp_def cmp_loop_eq)

lemma Cmp_refl [simp]: "Cmp G a a = 0"
  by simp

lemma Cmp_range: "Cmp G a b \<in> {-1, 0, 1}"
  unfolding Cmp_def by (rule cmp_loop_range)

lemma Cmp_swap: "Cmp G b a = - Cmp G a b"
  unfolding Cmp_def by (rule cmp_loop_swap)

lemma Cmp_trans: "Cmp G a b = -1 \<Longrightarrow> Cmp G b c = -1 \<Longrightarrow> Cmp G a c = -1"
  unfolding Cmp_def by (rule cmp_loop_trans) simp_all

lemma cmp_loop_zeros: "cmp_loop G (replicate (length xs) (felt_zero G)) xs \<le> 0"
  by (induction xs) (use zero_least in \<open>auto simp: Let_def\<close>)

lemma cmp_loop_neg1s: "cmp_loop G xs (replicate (length xs) (felt_neg1 G)) \<le> 0"
  by (induction xs) (use neg1_greatest in \<open>auto simp: Let_def\<close>)

lemma Cmp_zero_least: "Cmp G (oct_zero G) a \<le> 0"
  using cmp_loop_zeros [of "oct_list a"] by (simp add: Cmp_def oct_list_zero)

lemma Cmp_max_greatest: "Cmp G a (MaxKoalaOctuplet G) \<le> 0"
proof -
  have "oct_list (MaxKoalaOctuplet G) = replicate (length (oct_list a)) (felt_neg1 G)"
    by (simp add: MaxKoalaOctuplet_def Let_def numeral_eq_Suc)
  then show ?thesis using cmp_loop_neg1s [of "oct_list a"] by (simp add: Cmp_def)
qed

lemma zero_neq_max [simp]: "oct_zero G \<noteq> MaxKoalaOctuplet G" "MaxKoalaOctuplet G \<noteq> oct_zero G"
  using zero_neg1 by (auto simp: oct_zero_def MaxKoalaOctuplet_def Let_def)

text \<open>The octuplets are linearly ordered by \<^verbatim>\<open>Cmp\<close>.\<close>

sublocale ord: linorder "\<lambda>a b. Cmp G a b \<le> 0" "\<lambda>a b. Cmp G a b = -1"
proof
  fix a b c :: "'e octuplet"
  have r: "Cmp G x y = -1 \<or> Cmp G x y = 0 \<or> Cmp G x y = 1" for x y
    using Cmp_range [of x y] by auto
  show "(Cmp G a b = -1) = (Cmp G a b \<le> 0 \<and> \<not> Cmp G b a \<le> 0)"
    using r [of a b] Cmp_swap [of b a] by auto
  show "Cmp G a a \<le> 0" by simp
  show "Cmp G a c \<le> 0" if "Cmp G a b \<le> 0" "Cmp G b c \<le> 0"
    using that r [of a b] r [of b c] Cmp_trans [of a b c] by (auto simp del: Cmp_eq) (auto simp: Cmp_eq)
  show "a = b" if "Cmp G a b \<le> 0" "Cmp G b a \<le> 0"
    using that Cmp_swap [of b a] Cmp_eq [of a b] by linarith
  show "Cmp G a b \<le> 0 \<or> Cmp G b a \<le> 0"
    using Cmp_swap [of b a] by linarith
qed

lemma Cmp_1_iff: "Cmp G a b = 1 \<longleftrightarrow> Cmp G b a = -1"
  using Cmp_swap [of b a] by auto

lemma Cmp_less_1: "Cmp G a b < 1 \<longleftrightarrow> \<not> Cmp G b a = -1"
  using Cmp_range [of a b] Cmp_swap [of b a] by auto

lemma Cmp_greater_neg1: "Cmp G a b > -1 \<longleftrightarrow> \<not> Cmp G a b = -1"
  using Cmp_range [of a b] by auto

section \<open>Round trips between octuplets and bytes\<close>

lemma ToBytes_length: "length (ToBytes G e) = 32"
  by (cases e) (simp add: ToBytes_def bytes_length)

lemma segments_ToBytes:
  "map (\<lambda>i. segment 4 i (ToBytes G e)) [0..<8] = map (felt_bytes G) (oct_list e)"
  unfolding ToBytes_def by (rule map_segment_concat) (auto simp: bytes_length)

lemma those_map_Some: "(\<And>x. x \<in> set xs \<Longrightarrow> f x = Some (g x)) \<Longrightarrow> those (map f xs) = Some (map g xs)"
  by (induction xs) auto

lemma SetBytes_ToBytes: "SetBytes G (ToBytes G e) = Ret e"
proof -
  have "map (\<lambda>i. felt_set_canonical G (segment 4 i (ToBytes G e))) [0..<8]
      = map (felt_set_canonical G) (map (\<lambda>i. segment 4 i (ToBytes G e)) [0..<8])"
    by simp
  also have "\<dots> = map Some (oct_list e)"
    by (simp only: segments_ToBytes) (simp add: set_canonical_bytes)
  finally show ?thesis
    by (simp add: SetBytes_def ToBytes_length those_map_Some [of _ Some id, simplified] )
qed

lemma those_SomeD: "those xs = Some ys \<Longrightarrow> xs = map Some ys"
  by (induction xs arbitrary: ys) (auto split: option.splits)

lemma concat_segments:
  "length b = 4 * n \<Longrightarrow> concat (map (\<lambda>i. segment 4 i b) [0..<n]) = b"
proof (induction n arbitrary: b)
  case (Suc n)
  have "map (\<lambda>i. segment 4 i b) [0..<Suc n] = take 4 b # map (\<lambda>i. segment 4 i (drop 4 b)) [0..<n]"
    by (simp only: upt_conv_Cons [OF zero_less_Suc] map_Suc_upt [symmetric] list.map map_map)
      (simp add: segment_def comp_def add.commute)
  then show ?case using Suc.IH [of "drop 4 b"] Suc.prems by simp
qed simp

lemma SetBytes_canonical: "SetBytes G b = Ret e \<Longrightarrow> b = ToBytes G e"
proof -
  assume a: "SetBytes G b = Ret e"
  then obtain xs where len: "length b = 32" and xs: "those (map (\<lambda>i. felt_set_canonical G (segment 4 i b)) [0..<8]) = Some xs"
    and e: "e = oct_of_list (felt_zero G) xs"
    by (auto simp: SetBytes_def split: if_splits option.splits)
  have m: "map (\<lambda>i. felt_set_canonical G (segment 4 i b)) [0..<8] = map Some xs" by (rule those_SomeD [OF xs])
  then have l8: "length xs = 8" by (metis length_map length_upt diff_zero)
  have "felt_bytes G (xs ! i) = segment 4 i b" if "i < 8" for i
  proof -
    have "felt_set_canonical G (segment 4 i b) = Some (xs ! i)"
      using arg_cong [OF m, of "\<lambda>l. l ! i"] that l8 by simp
    then show ?thesis by (rule canonical_bytes)
  qed
  then have "map (felt_bytes G) xs = map (\<lambda>i. segment 4 i b) [0..<8]"
    using l8 by (intro nth_equalityI) simp_all
  then show ?thesis using concat_segments [of b 8] len l8 by (simp add: ToBytes_def e oct_list_inverse)
qed

end

section \<open>The KoalaBear field elements\<close>

text \<open>
  The contract is that of the canonical representatives modulo the KoalaBear prime
  \<open>2 ^ 31 - 2 ^ 24 + 1\<close>. This type is used to show that the contract can be met, with any
  compression function \<open>c\<close>; the model itself stays parametric in \<open>G\<close>.
\<close>

typedef koala = "{n :: nat. n < 2130706433}"
  morphisms koala_nat Koala
  by (rule exI [of _ 0]) simp

setup_lifting type_definition_koala

lift_definition koala_of_nat :: "nat \<Rightarrow> koala" is "\<lambda>n. n mod 2130706433"
  by simp

instantiation koala :: "{equal, linorder}"
begin

definition equal_koala :: "koala \<Rightarrow> koala \<Rightarrow> bool" where
  "equal_koala a b \<longleftrightarrow> koala_nat a = koala_nat b"

definition less_eq_koala :: "koala \<Rightarrow> koala \<Rightarrow> bool" where
  "less_eq_koala a b \<longleftrightarrow> koala_nat a \<le> koala_nat b"

definition less_koala :: "koala \<Rightarrow> koala \<Rightarrow> bool" where
  "less_koala a b \<longleftrightarrow> koala_nat a < koala_nat b"

instance
  by standard
    (auto simp: equal_koala_def less_eq_koala_def less_koala_def koala_nat_inject)

end

definition koala_ops :: "(koala octuplet \<Rightarrow> koala octuplet \<Rightarrow> koala octuplet) \<Rightarrow> koala gnark" where
  "koala_ops c =
     \<lparr>felt_zero = koala_of_nat 0,
      felt_neg1 = koala_of_nat 2130706432,
      felt_cmp = (\<lambda>a b. if a < b then -1 else if a = b then 0 else 1),
      felt_bytes = (\<lambda>a. be_bytes 4 (koala_nat a)),
      felt_set_canonical = (\<lambda>bs. if length bs = 4 \<and> be_nat bs < 2130706433
                                  then Some (koala_of_nat (be_nat bs)) else None),
      felt_set_bytes = (\<lambda>bs. koala_of_nat (be_nat bs)),
      compress_p2 = c\<rparr>"

lemma koala_nat_less: "koala_nat a < 2130706433"
  using koala_nat [of a] by simp

lemma koala_nat_of_nat: "koala_nat (koala_of_nat n) = n mod 2130706433"
  by transfer simp

lemma koala_of_nat_nat [simp]: "koala_of_nat (koala_nat a) = a"
  by (simp add: koala_nat_inject [symmetric] koala_nat_of_nat koala_nat_less)

lemma koala_of_nat_0_neq: "koala_of_nat 0 \<noteq> koala_of_nat 2130706432"
  by (simp add: koala_nat_inject [symmetric] koala_nat_of_nat)

interpretation koala: felt "koala_ops c" for c
proof
  show "\<exists>x. felt_set_canonical (koala_ops c) [0, 0, p, q] = Some x" for p q
  proof -
    have "unat p < 256" "unat q < 256" by (rule unat_byte_less)+
    then show ?thesis by (simp add: koala_ops_def be_nat_def)
  qed
  show "felt_bytes (koala_ops c) a = bs" if "felt_set_canonical (koala_ops c) bs = Some a" for bs a
    using that be_bytes_be_nat [of bs] by (auto simp: koala_ops_def koala_nat_of_nat split: if_splits)
  show "felt_set_canonical (koala_ops c) (felt_bytes (koala_ops c) a) = Some a" for a
    using koala_nat_less [of a] by (simp add: koala_ops_def)
  show "felt_cmp (koala_ops c) a (felt_neg1 (koala_ops c)) \<le> 0" for a
    using koala_nat_less [of a]
    by (auto simp: koala_ops_def less_koala_def koala_nat_of_nat koala_nat_inject [symmetric])
qed (auto simp: koala_ops_def koala_of_nat_0_neq less_koala_def koala_nat_of_nat
       koala_nat_inject [symmetric] split: if_splits)

section \<open>Properties\<close>

text \<open>
  C29: \<^verbatim>\<open>Cmp\<close> is a total order on octuplets in the sense of a three-way comparison: it returns -1, 0 or
  1, 0 exactly on equal octuplets, it is antisymmetric and transitive, the zero octuplet is the
  least and \<^verbatim>\<open>MaxKoalaOctuplet\<close> the greatest.
\<close>

theorem octuplet_order:
  assumes "felt G"
  shows "Cmp G a b \<in> {-1, 0, 1} \<and> (Cmp G a b = 0) = (a = b) \<and> Cmp G b a = - Cmp G a b
    \<and> \<not> (Cmp G a b = -1 \<and> Cmp G b c = -1 \<and> Cmp G a c \<noteq> -1)
    \<and> Cmp G (oct_zero G) a \<le> 0 \<and> Cmp G a (MaxKoalaOctuplet G) \<le> 0"
  using felt.Cmp_range [OF assms, of a b] felt.Cmp_eq [OF assms, of a b] felt.Cmp_swap [OF assms, of b a]
    felt.Cmp_trans [OF assms, of a b c] felt.Cmp_zero_least [OF assms, of a] felt.Cmp_max_greatest [OF assms, of a]
  by metis

theorem octuplet_order_witness:
  "Cmp (koala_ops (\<lambda>a b. b)) (oct_zero (koala_ops (\<lambda>a b. b))) (MaxKoalaOctuplet (koala_ops (\<lambda>a b. b))) \<le> 0
    \<and> Cmp (koala_ops (\<lambda>a b. b)) (oct_zero (koala_ops (\<lambda>a b. b))) (MaxKoalaOctuplet (koala_ops (\<lambda>a b. b))) \<noteq> 0"
  using octuplet_order [OF koala.felt_axioms, of "\<lambda>a b. b" "oct_zero (koala_ops (\<lambda>a b. b))" "MaxKoalaOctuplet (koala_ops (\<lambda>a b. b))"]
    koala.zero_neq_max(1) [of "\<lambda>a b. b"] by metis

text \<open>
  Encoding an octuplet gives 32 bytes from which \<^verbatim>\<open>SetBytes\<close> reads the same octuplet back; bytes that
  \<^verbatim>\<open>SetBytes\<close> accepts are the encoding of what it returns, so the encoding is canonical.
\<close>

lemma octuplet_bytes_round_trip:
  assumes "felt G"
  shows "length (ToBytes G e) = 32 \<and> SetBytes G (ToBytes G e) = Ret e \<and> (SetBytes G b = Ret e) = (b = ToBytes G e)"
  using felt.ToBytes_length [OF assms, of e] felt.SetBytes_ToBytes [OF assms, of e] felt.SetBytes_canonical [OF assms, of b e]
  by blast

end
