(* ===== verification/Poseidon_MD.thy ===== *)
theory Poseidon_MD
  imports Koala
begin

text \<open>
  The Merkle-Damgard hasher over the Poseidon2 compression function
  (\<^verbatim>\<open>prover/crypto/poseidon2_koalabear/poseidon2.go\<close>): a buffer of field elements that
  \<^verbatim>\<open>SumElement\<close> absorbs in blocks of eight, left-padding the last block with zeroes.
  The embedded \<^verbatim>\<open>hash.StateStorer\<close> of the struct is never read by these methods and
  has no field here.
\<close>

record 'e MDHasher =
  state :: "'e octuplet"
  buffer :: "'e list"
  bufferPosition :: int

definition NewMDHasher :: "'e gnark \<Rightarrow> 'e MDHasher" where
  "NewMDHasher G = \<lparr>state = oct_zero G, buffer = [], bufferPosition = 0\<rparr>"

definition Compress :: "'e gnark \<Rightarrow> 'e octuplet \<Rightarrow> 'e octuplet \<Rightarrow> 'e octuplet" where
  "Compress G s block = compress_p2 G s block"

definition Reset :: "'e gnark \<Rightarrow> 'e MDHasher \<Rightarrow> 'e MDHasher" where
  "Reset G d = d\<lparr>bufferPosition := 0, state := oct_zero G\<rparr>"

definition SetStateOctuplet :: "'e gnark \<Rightarrow> 'e MDHasher \<Rightarrow> 'e octuplet \<Rightarrow> 'e MDHasher" where
  "SetStateOctuplet G d s = (Reset G d)\<lparr>buffer := [], bufferPosition := 0, state := s\<rparr>"

definition WriteElements :: "'e MDHasher \<Rightarrow> 'e list \<Rightarrow> 'e MDHasher" where
  "WriteElements d elmts = d\<lparr>buffer := buffer d @ elmts\<rparr>"

text \<open>
  The loop of \<^verbatim>\<open>SumElement\<close>; \<open>xs\<close> is \<^verbatim>\<open>d.buffer[pos:]\<close>. A short block is copied at the
  end of a zeroed array.
\<close>

function sum_loop :: "'e gnark \<Rightarrow> 'e octuplet \<Rightarrow> 'e list \<Rightarrow> 'e octuplet" where
  "sum_loop G s xs =
     (if xs = [] then s
      else if length xs < 8
      then compress_p2 G s (oct_of_list (felt_zero G) (replicate (8 - length xs) (felt_zero G) @ xs))
      else sum_loop G (compress_p2 G s (oct_of_list (felt_zero G) (take 8 xs))) (drop 8 xs))"
  by pat_completeness auto
termination
  by (relation "measure (\<lambda>(G, s, xs). length xs)") auto

declare sum_loop.simps [simp del]

definition SumElement :: "'e gnark \<Rightarrow> 'e MDHasher \<Rightarrow> 'e octuplet \<times> 'e MDHasher" where
  "SumElement G d =
     (let s = sum_loop G (state d) (buffer d) in (s, d\<lparr>state := s, buffer := []\<rparr>))"

definition GetStateOctuplet :: "'e gnark \<Rightarrow> 'e MDHasher \<Rightarrow> 'e octuplet \<times> 'e MDHasher" where
  "GetStateOctuplet G d =
     (let (_, d') = SumElement G d
      in (state d', d'\<lparr>state := state d, buffer := buffer d, bufferPosition := bufferPosition d\<rparr>))"

text \<open>\<^verbatim>\<open>Write\<close> returns the new hasher, the number of bytes consumed and the error.\<close>

definition Write :: "'e gnark \<Rightarrow> 'e MDHasher \<Rightarrow> bytes \<Rightarrow> 'e MDHasher \<times> nat \<times> string option" where
  "Write G d p =
     (if length p mod 4 \<noteq> 0 then (d, 0, Some ''input length is not a multiple of 4 byte size'')
      else case those (map (\<lambda>i. felt_set_canonical G (segment 4 i p)) [0..<length p div 4]) of
             None \<Rightarrow> (d, 0, Some ''invalid koalabear.Element encoding'')
           | Some elems \<Rightarrow> (WriteElements d elems, length p, None))"

definition Sum :: "'e gnark \<Rightarrow> 'e MDHasher \<Rightarrow> bytes \<Rightarrow> (bytes \<times> 'e MDHasher) go" where
  "Sum G d msg =
     (case Write G d msg of
        (_, _, Some e) \<Rightarrow> Panic e
      | (d', _, None) \<Rightarrow> (let (h, d'') = SumElement G d' in Ret (ToBytes G h, d'')))"

definition HashVec :: "'e gnark \<Rightarrow> 'e list \<Rightarrow> 'e octuplet" where
  "HashVec G v = fst (SumElement G (WriteElements (NewMDHasher G) v))"

definition HashBytes :: "'e gnark \<Rightarrow> bytes \<Rightarrow> bytes go" where
  "HashBytes G x =
     (case Write G (NewMDHasher G) x of
        (_, _, Some e) \<Rightarrow> Panic e
      | (d, _, None) \<Rightarrow> go_bind (Sum G d []) (\<lambda>(b, _). Ret b))"

section \<open>Absorbing blocks\<close>

lemma sum_loop_Nil [simp]: "sum_loop G s [] = s"
  by (simp add: sum_loop.simps)

lemma sum_loop_block:
  "length b = 8 \<Longrightarrow> sum_loop G s (b @ xs) = sum_loop G (compress_p2 G s (oct_of_list (felt_zero G) b)) xs"
  by (subst sum_loop.simps) auto

lemma sum_loop_oct [simp]:
  "sum_loop G s (oct_list b @ xs) = sum_loop G (compress_p2 G s b) xs"
  "sum_loop G s (oct_list b) = compress_p2 G s b"
  using sum_loop_block [of "oct_list b" G s xs] sum_loop_block [of "oct_list b" G s "[]"]
  by simp_all

lemma sum_loop_append:
  assumes "length xs mod 8 = 0"
  shows "sum_loop G s (xs @ ys) = sum_loop G (sum_loop G s xs) ys"
  using assms
proof (induction G s xs rule: sum_loop.induct)
  case (1 G s xs)
  show ?case
  proof (cases "xs = []")
    case False
    with "1.prems" have "8 \<le> length xs" by (cases "length xs < 8") auto
    then have t: "length (take 8 xs) = 8" and d: "length (drop 8 xs) mod 8 = 0"
      using "1.prems" by (auto simp: le_mod_geq)
    let ?s = "compress_p2 G s (oct_of_list (felt_zero G) (take 8 xs))"
    have "sum_loop G s (xs @ ys) = sum_loop G ?s (drop 8 xs @ ys)"
      using sum_loop_block [OF t, of G s "drop 8 xs @ ys"] by (simp add: append_assoc [symmetric] del: append_assoc)
    also have "\<dots> = sum_loop G (sum_loop G ?s (drop 8 xs)) ys"
      using "1.IH" [OF False] \<open>8 \<le> length xs\<close> d by simp
    also have "sum_loop G ?s (drop 8 xs) = sum_loop G s xs"
      using sum_loop_block [OF t, of G s "drop 8 xs"] by simp
    finally show ?thesis .
  qed simp
qed

text \<open>The (state, block) pairs compressed while absorbing a list of whole blocks.\<close>

function md_inputs :: "'e gnark \<Rightarrow> 'e octuplet \<Rightarrow> 'e list \<Rightarrow> ('e octuplet \<times> 'e octuplet) list" where
  "md_inputs G s xs =
     (if xs = [] then []
      else let b = oct_of_list (felt_zero G) (take 8 xs)
           in (s, b) # md_inputs G (compress_p2 G s b) (drop 8 xs))"
  by pat_completeness auto
termination
  by (relation "measure (\<lambda>(G, s, xs). length xs)") auto

declare md_inputs.simps [simp del]

text \<open>An explicit collision of a binary function on two lists of inputs.\<close>

definition collide_at :: "('a \<Rightarrow> 'a \<Rightarrow> 'a) \<Rightarrow> ('a \<times> 'a) list \<Rightarrow> ('a \<times> 'a) list \<Rightarrow> bool" where
  "collide_at h ps qs \<longleftrightarrow>
     (\<exists>p \<in> set ps. \<exists>q \<in> set qs. p \<noteq> q \<and> h (fst p) (snd p) = h (fst q) (snd q))"

lemma collide_at_mono:
  "collide_at h ps qs \<Longrightarrow> set ps \<subseteq> set ps' \<Longrightarrow> set qs \<subseteq> set qs' \<Longrightarrow> collide_at h ps' qs'"
  by (meson collide_at_def subsetD)

lemma collide_at_Cons: "collide_at h ps qs \<Longrightarrow> collide_at h (p # ps) (q # qs)"
  by (erule collide_at_mono) auto

lemma sum_loop_binding:
  assumes "length xs = length ys" and "length xs mod 8 = 0"
    and "sum_loop G s xs = sum_loop G s' ys"
  shows "xs = ys \<and> s = s' \<or> collide_at (compress_p2 G) (md_inputs G s xs) (md_inputs G s' ys)"
  using assms
proof (induction G s xs arbitrary: s' ys rule: sum_loop.induct)
  case (1 G s xs)
  show ?case
  proof (cases "xs = []")
    case True
    with "1.prems" show ?thesis by simp
  next
    case False
    with "1.prems" have n: "8 \<le> length xs" by (cases "length xs < 8") auto
    let ?bx = "oct_of_list (felt_zero G) (take 8 xs)" and ?by = "oct_of_list (felt_zero G) (take 8 ys)"
    have tx: "length (take 8 xs) = 8" and ty: "length (take 8 ys) = 8" using n "1.prems" by auto
    have ux: "sum_loop G s xs = sum_loop G (compress_p2 G s ?bx) (drop 8 xs)"
      using sum_loop_block [OF tx, of G s "drop 8 xs"] by simp
    have uy: "sum_loop G s' ys = sum_loop G (compress_p2 G s' ?by) (drop 8 ys)"
      using sum_loop_block [OF ty, of G s' "drop 8 ys"] by simp
    have ix: "md_inputs G s xs = (s, ?bx) # md_inputs G (compress_p2 G s ?bx) (drop 8 xs)"
      using False by (subst md_inputs.simps) (simp add: Let_def)
    have iy: "md_inputs G s' ys = (s', ?by) # md_inputs G (compress_p2 G s' ?by) (drop 8 ys)"
      using False "1.prems" by (subst md_inputs.simps) (auto simp: Let_def)
    have "drop 8 xs = drop 8 ys \<and> compress_p2 G s ?bx = compress_p2 G s' ?by \<or>
      collide_at (compress_p2 G) (md_inputs G (compress_p2 G s ?bx) (drop 8 xs))
        (md_inputs G (compress_p2 G s' ?by) (drop 8 ys))"
      using "1.prems" n ux uy by (intro "1.IH") (auto simp: False le_mod_geq)
    then show ?thesis
    proof
      assume eq: "drop 8 xs = drop 8 ys \<and> compress_p2 G s ?bx = compress_p2 G s' ?by"
      show ?thesis
      proof (cases "s = s' \<and> ?bx = ?by")
        case True
        then have "take 8 xs = take 8 ys" using tx ty by (metis oct_list_inverse)
        then have "xs = ys" using eq by (metis append_take_drop_id)
        with True show ?thesis by simp
      next
        case False
        with eq show ?thesis unfolding ix iy collide_at_def by auto
      qed
    next
      assume "collide_at (compress_p2 G) (md_inputs G (compress_p2 G s ?bx) (drop 8 xs))
        (md_inputs G (compress_p2 G s' ?by) (drop 8 ys))"
      then show ?thesis unfolding ix iy by (intro disjI2 collide_at_Cons)
    qed
  qed
qed

section \<open>Reading bytes\<close>

lemma those_eq_None_iff: "those xs = None \<longleftrightarrow> None \<in> set xs"
  by (induction xs) (auto split: option.splits)

lemma those_eq_Some_iff: "those xs = Some ys \<longleftrightarrow> xs = map Some ys"
  by (induction xs arbitrary: ys) (auto split: option.splits simp: Cons_eq_map_conv)

lemma those_Some [simp]: "those (map Some xs) = Some xs"
  by (simp add: those_eq_Some_iff)

context felt
begin

lemma Write_elements:
  "Write G d (concat (map (felt_bytes G) xs)) = (WriteElements d xs, 4 * length xs, None)"
proof -
  let ?p = "concat (map (felt_bytes G) xs)"
  have len: "length ?p = 4 * length xs" by (induction xs) (auto simp: bytes_length)
  have "map (\<lambda>i. segment 4 i ?p) [0..<length xs] = map (felt_bytes G) xs"
    by (rule map_segment_concat) (auto simp: bytes_length)
  then have "map (felt_set_canonical G) (map (\<lambda>i. segment 4 i ?p) [0..<length xs]) = map Some xs"
    by (simp add: set_canonical_bytes)
  then have "map (\<lambda>i. felt_set_canonical G (segment 4 i ?p)) [0..<length xs] = map Some xs"
    by (simp add: comp_def)
  then show ?thesis unfolding Write_def len by simp
qed

lemma Write_ToBytes: "Write G d (ToBytes G e) = (WriteElements d (oct_list e), 32, None)"
  unfolding ToBytes_def Write_elements by simp

lemma Write_Nil: "Write G d [] = (WriteElements d [], 0, None)"
  using Write_elements [of d "[]"] by simp

lemma Sum_Nil: "Sum G d [] = Ret (ToBytes G (sum_loop G (state d) (buffer d)), snd (SumElement G d))"
  by (simp add: Sum_def Write_Nil SumElement_def WriteElements_def Let_def)

end

section \<open>Properties\<close>

text \<open>
  C28: The hasher binds whole blocks: two element strings of the same length, a multiple of eight, that
  \<^verbatim>\<open>HashVec\<close> maps to the same digest are equal, unless the compression function collides on two of
  the (state, block) pairs it was applied to.
\<close>

theorem hash_vec_binding:
  assumes "length xs = length ys" and "length xs mod 8 = 0" and "HashVec G xs = HashVec G ys"
  shows "xs = ys \<or> collide_at (compress_p2 G) (md_inputs G (oct_zero G) xs) (md_inputs G (oct_zero G) ys)"
  using sum_loop_binding [OF assms(1,2), of G "oct_zero G" "oct_zero G"] assms(3)
  by (auto simp: HashVec_def SumElement_def WriteElements_def NewMDHasher_def Let_def)

text \<open>With a compression function that returns its block, only the last of two blocks matters.\<close>

theorem hash_vec_binding_witness:
  "let G = koala_ops (\<lambda>a b. b); a = replicate 8 (koala_of_nat 1); b = replicate 8 (koala_of_nat 2); c = replicate 8 (koala_of_nat 3)
   in HashVec G (a @ c) = HashVec G (b @ c) \<and> a @ c \<noteq> b @ c
     \<and> collide_at (compress_p2 G) (md_inputs G (oct_zero G) (a @ c)) (md_inputs G (oct_zero G) (b @ c))"
proof -
  define G where "G = koala_ops (\<lambda>a b. b)"
  define a b c where abc: "a = replicate 8 (koala_of_nat 1)" "b = replicate 8 (koala_of_nat 2)" "c = replicate 8 (koala_of_nat 3)"
  have l: "length a = 8" "length b = 8" "length c = 8" by (simp_all add: abc)
  have h: "HashVec G (x @ c) = oct_of_list (felt_zero G) c" if "length x = 8" for x
    using that l(3) sum_loop_block [of c G _ "[]"]
    by (simp add: HashVec_def SumElement_def WriteElements_def NewMDHasher_def Let_def sum_loop_block) (simp add: G_def koala_ops_def)
  have "koala_nat (koala_of_nat 1) \<noteq> koala_nat (koala_of_nat 2)" by (simp add: koala_nat_of_nat)
  then have ne: "a @ c \<noteq> b @ c" by (auto simp: abc)
  have "HashVec G (a @ c) = HashVec G (b @ c)" using h l by simp
  moreover from hash_vec_binding [OF _ _ this] ne l
  have "collide_at (compress_p2 G) (md_inputs G (oct_zero G) (a @ c)) (md_inputs G (oct_zero G) (b @ c))" by simp
  ultimately show ?thesis using ne unfolding Let_def abc G_def by blast
qed

text \<open>
  Absorbing is incremental: summing after a string of whole blocks and then writing the rest gives the
  digest of the concatenation, and the buffer is empty after every sum.
\<close>

lemma sum_is_incremental:
  assumes "length xs mod 8 = 0"
  shows "fst (SumElement G (WriteElements (snd (SumElement G (WriteElements (NewMDHasher G) xs))) ys)) = HashVec G (xs @ ys)
    \<and> buffer (snd (SumElement G d)) = []"
  using sum_loop_append [OF assms, of G "oct_zero G" ys]
  by (simp add: HashVec_def SumElement_def WriteElements_def NewMDHasher_def Let_def)

section \<open>The hasher as a stream\<close>

text \<open>
  The abstract hasher: the chaining value it started from, the blocks absorbed since, and the elements
  that wait for the next sum. The blocks of a string are its full runs of eight, then the rest behind zeroes.
\<close>

record 'e hash_stream =
  hs_start :: "'e octuplet"
  hs_absorbed :: "'e octuplet list"
  hs_pending :: "'e list"

definition md_blocks :: "'e gnark \<Rightarrow> 'e list \<Rightarrow> 'e octuplet list" where
  "md_blocks G xs = map (\<lambda>i. oct_of_list (felt_zero G) (segment 8 i xs)) [0..<length xs div 8]
     @ (if length xs mod 8 = 0 then []
        else [oct_of_list (felt_zero G) (replicate (8 - length xs mod 8) (felt_zero G) @ drop (8 * (length xs div 8)) xs)])"

definition hs_digest :: "'e gnark \<Rightarrow> 'e hash_stream \<Rightarrow> 'e octuplet" where
  "hs_digest G st = foldl (compress_p2 G) (hs_start st) (hs_absorbed st @ md_blocks G (hs_pending st))"

datatype 'e hasher_op = HWrite "'e list" | HSum | HReset | HSetState "'e octuplet" | HGetState

fun hasher_step :: "'e gnark \<Rightarrow> 'e MDHasher \<Rightarrow> 'e hasher_op \<Rightarrow> 'e octuplet option \<times> 'e MDHasher" where
  "hasher_step G d (HWrite xs) = (None, WriteElements d xs)"
| "hasher_step G d HSum = (let (h, d') = SumElement G d in (Some h, d'))"
| "hasher_step G d HReset = (None, Reset G d)"
| "hasher_step G d (HSetState s) = (None, SetStateOctuplet G d s)"
| "hasher_step G d HGetState = (let (h, d') = GetStateOctuplet G d in (Some h, d'))"

fun stream_step :: "'e gnark \<Rightarrow> 'e hash_stream \<Rightarrow> 'e hasher_op \<Rightarrow> 'e octuplet option \<times> 'e hash_stream" where
  "stream_step G st (HWrite xs) = (None, st\<lparr>hs_pending := hs_pending st @ xs\<rparr>)"
| "stream_step G st HSum = (Some (hs_digest G st), st\<lparr>hs_absorbed := hs_absorbed st @ md_blocks G (hs_pending st), hs_pending := []\<rparr>)"
| "stream_step G st HReset = (None, st\<lparr>hs_start := oct_zero G, hs_absorbed := []\<rparr>)"
| "stream_step G st (HSetState s) = (None, \<lparr>hs_start = s, hs_absorbed = [], hs_pending = []\<rparr>)"
| "stream_step G st HGetState = (Some (hs_digest G st), st)"

fun hasher_run :: "'e gnark \<Rightarrow> 'e MDHasher \<Rightarrow> 'e hasher_op list \<Rightarrow> 'e octuplet option list" where
  "hasher_run G d [] = []"
| "hasher_run G d (x # xs) = (let (h, d') = hasher_step G d x in h # hasher_run G d' xs)"

fun stream_run :: "'e gnark \<Rightarrow> 'e hash_stream \<Rightarrow> 'e hasher_op list \<Rightarrow> 'e octuplet option list" where
  "stream_run G st [] = []"
| "stream_run G st (x # xs) = (let (h, st') = stream_step G st x in h # stream_run G st' xs)"

lemma md_blocks_block:
  assumes "8 \<le> length xs"
  shows "md_blocks G xs = oct_of_list (felt_zero G) (take 8 xs) # md_blocks G (drop 8 xs)"
proof -
  have d: "length xs div 8 = Suc (length (drop 8 xs) div 8)" "length xs mod 8 = length (drop 8 xs) mod 8"
    using assms by (simp_all add: le_div_geq le_mod_geq)
  have "[0..<Suc n] = 0 # map Suc [0..<n]" for n by (simp add: map_Suc_upt upt_conv_Cons)
  moreover have "segment 8 (Suc i) xs = segment 8 i (drop 8 xs)" for i by (simp add: segment_def add.commute)
  moreover have "segment 8 0 xs = take 8 xs" by (simp add: segment_def)
  ultimately show ?thesis unfolding md_blocks_def d by (simp add: comp_def add.commute)
qed

lemma md_blocks_short:
  "xs \<noteq> [] \<Longrightarrow> length xs < 8 \<Longrightarrow>
    md_blocks G xs = [oct_of_list (felt_zero G) (replicate (8 - length xs) (felt_zero G) @ xs)]"
  by (simp add: md_blocks_def)

lemma sum_loop_blocks: "sum_loop G s xs = foldl (compress_p2 G) s (md_blocks G xs)"
proof (induction G s xs rule: sum_loop.induct)
  case (1 G s xs)
  consider "xs = []" | "xs \<noteq> []" "length xs < 8" | "8 \<le> length xs" by fastforce
  then show ?case
  proof cases
    case 2
    then have "sum_loop G s xs = compress_p2 G s (oct_of_list (felt_zero G) (replicate (8 - length xs) (felt_zero G) @ xs))"
      by (subst sum_loop.simps) simp
    with 2 show ?thesis by (simp add: md_blocks_short)
  next
    case 3
    then have l: "length (take 8 xs) = 8" and n: "xs \<noteq> []" "\<not> length xs < 8" by auto
    have "sum_loop G s xs = sum_loop G (compress_p2 G s (oct_of_list (felt_zero G) (take 8 xs))) (drop 8 xs)"
      using sum_loop_block [OF l, of G s "drop 8 xs"] by simp
    also note "1.IH" [OF n]
    finally show ?thesis unfolding md_blocks_block [OF 3] by simp
  qed (simp add: md_blocks_def)
qed

definition hs_rep :: "'e gnark \<Rightarrow> 'e MDHasher \<Rightarrow> 'e hash_stream \<Rightarrow> bool" where
  "hs_rep G d st \<longleftrightarrow> state d = foldl (compress_p2 G) (hs_start st) (hs_absorbed st) \<and> buffer d = hs_pending st"

lemma hasher_step_simulates:
  assumes "hs_rep G d st"
  shows "fst (hasher_step G d x) = fst (stream_step G st x) \<and> hs_rep G (snd (hasher_step G d x)) (snd (stream_step G st x))"
  using assms by (cases x) (simp_all add: hs_rep_def hs_digest_def WriteElements_def SumElement_def Reset_def SetStateOctuplet_def
      GetStateOctuplet_def sum_loop_blocks Let_def)

lemma hasher_run_simulates: "hs_rep G d st \<Longrightarrow> hasher_run G d ops = stream_run G st ops"
proof (induction ops arbitrary: d st)
  case (Cons x ops)
  then show ?case using hasher_step_simulates [OF Cons.prems, of x] by (simp add: case_prod_unfold Let_def)
qed simp

text \<open>
  C40: The hasher refines a stream. For every sequence of \<^verbatim>\<open>WriteElements\<close>, \<^verbatim>\<open>SumElement\<close>, \<^verbatim>\<open>Reset\<close>, \<^verbatim>\<open>SetStateOctuplet\<close>
  and \<^verbatim>\<open>GetStateOctuplet\<close> calls on a new hasher, the digests it returns are those of the stream, in which a
  sum absorbs the pending elements as blocks of eight with the last one left-padded by zeroes, reading the
  state changes nothing, setting the state drops everything, and a reset drops the absorbed blocks but
  keeps the pending elements, although its comment says that it clears the buffer.
\<close>

theorem hasher_refines_stream:
  "hasher_run G (NewMDHasher G) ops = stream_run G \<lparr>hs_start = oct_zero G, hs_absorbed = [], hs_pending = []\<rparr> ops"
  by (rule hasher_run_simulates) (simp add: hs_rep_def NewMDHasher_def)

end
