(* ===== verification/Go_Types.thy ===== *)
theory Go_Types
  imports Poseidon_MD
begin

text \<open>
  The serialisation helpers of \<^verbatim>\<open>prover/utils/types/common.go\<close>, the byte types
  \<^verbatim>\<open>FullBytes32\<close> and \<^verbatim>\<open>EthAddress\<close>, the hexadecimal codec of \<^verbatim>\<open>prover/utils/hex.go\<close>, and the
  account of \<^verbatim>\<open>account.go\<close> with its two encodings.

  A writer is modelled by the list of byte strings written to it, one per \<^verbatim>\<open>Write\<close> call;
  a reader by the bytes left in a \<^verbatim>\<open>bytes.Buffer\<close>. Reading into an array of \<open>n\<close> bytes
  fails with \<^verbatim>\<open>io.EOF\<close> when the buffer is empty, and otherwise fills a prefix of the
  (zeroed) array.
\<close>

type_synonym writes = "bytes list"

definition buf_read :: "nat \<Rightarrow> bytes \<Rightarrow> (nat \<times> bytes \<times> bytes) go" where
  "buf_read n r =
     (if r = [] \<and> n > 0 then Err ''EOF''
      else Ret (min n (length r), take n r @ replicate (n - length r) 0, drop n r))"

section \<open>Padding\<close>

fun left_pad_pairs :: "bytes \<Rightarrow> bytes" where
  "left_pad_pairs (a # b # r) = 0 # 0 # a # b # left_pad_pairs r"
| "left_pad_pairs _ = []"

fun remove_pad_quads :: "bytes \<Rightarrow> bytes" where
  "remove_pad_quads (_ # _ # a # b # r) = a # b # remove_pad_quads r"
| "remove_pad_quads _ = []"

definition LeftPadded :: "bytes \<Rightarrow> bytes go" where
  "LeftPadded b =
     (if length b mod 2 \<noteq> 0 then Panic ''input length must be even'' else Ret (left_pad_pairs b))"

definition LeftPadded48Zeros :: "bytes \<Rightarrow> bytes go" where
  "LeftPadded48Zeros b =
     (if length b \<noteq> 16 then Panic ''input length must be 16'' else Ret (replicate 48 0 @ b))"

definition RemovePadding :: "bytes \<Rightarrow> bytes go" where
  "RemovePadding b =
     (if length b mod 4 \<noteq> 0 then Panic ''input length must be a multiple of 4''
      else Ret (remove_pad_quads b))"

definition Remove48Padding :: "bytes \<Rightarrow> bytes go" where
  "Remove48Padding b =
     (if length b \<noteq> 64 then Panic ''input length must be 64'' else Ret (take 16 (drop 48 b)))"

lemma length_left_pad_pairs: "length b mod 2 = 0 \<Longrightarrow> length (left_pad_pairs b) = 2 * length b"
  by (induction b rule: left_pad_pairs.induct) (auto simp: mod_Suc split: if_splits)

lemma remove_pad_left_pad: "length b mod 2 = 0 \<Longrightarrow> remove_pad_quads (left_pad_pairs b) = b"
  by (induction b rule: left_pad_pairs.induct) (auto simp: mod_Suc split: if_splits)

section \<open>Integers\<close>

text \<open>\<^verbatim>\<open>uint64(x)\<close> of an \<^verbatim>\<open>int64\<close>.\<close>

definition u64 :: "int \<Rightarrow> nat" where
  "u64 x = nat (x mod 2 ^ 64)"

definition WriteInt64On64Bytes :: "int \<Rightarrow> bytes go" where
  "WriteInt64On64Bytes x =
     go_bind (LeftPadded (be_bytes 8 (u64 x))) LeftPadded48Zeros"

text \<open>Two \<^verbatim>\<open>Write\<close> calls; the count that is returned is that of the second one.\<close>

definition WriteInt64On32Bytes :: "int \<Rightarrow> writes \<times> nat" where
  "WriteInt64On32Bytes x = ([replicate 24 0, be_bytes 8 (u64 x)], 8)"

definition ReadInt64On64Bytes :: "bytes \<Rightarrow> (int \<times> bytes) go" where
  "ReadInt64On64Bytes r =
     go_bind (buf_read 64 r) (\<lambda>(n, buf, r').
       if n \<noteq> 64 then Err ''could not read 64 bytes''
       else go_bind (go_bind (Remove48Padding buf) RemovePadding) (\<lambda>d.
              Ret (int (be_nat d AND 0x7fffffffffffffff), r')))"

definition ReadInt64On32Bytes :: "bytes \<Rightarrow> (int \<times> bytes) go" where
  "ReadInt64On32Bytes r =
     go_bind (buf_read 32 r) (\<lambda>(n, buf, r').
       if be_nat buf < 2 ^ 63 then Ret (int (be_nat buf), r')
       else Err ''could not read 32 bytes'')"

text \<open>
  \<^verbatim>\<open>big.Int.FillBytes\<close> stores the absolute value and panics when it does not fit.
\<close>

definition FillBytes32 :: "int \<Rightarrow> bytes go" where
  "FillBytes32 b =
     (if nat \<bar>b\<bar> \<ge> 256 ^ 32 then Panic ''math/big: buffer too small to fit value''
      else Ret (be_bytes 32 (nat \<bar>b\<bar>)))"

definition WriteBigIntOn64Bytes :: "int \<Rightarrow> bytes go" where
  "WriteBigIntOn64Bytes b = go_bind (FillBytes32 b) LeftPadded"

definition WriteBigIntOn32Bytes :: "int \<Rightarrow> bytes go" where
  "WriteBigIntOn32Bytes b = FillBytes32 b"

definition ReadBigIntOn32Bytes :: "bytes \<Rightarrow> (int \<times> bytes) go" where
  "ReadBigIntOn32Bytes r = go_bind (buf_read 32 r) (\<lambda>(n, buf, r'). Ret (int (be_nat buf), r'))"

definition ReadBigIntOn64Bytes :: "bytes \<Rightarrow> (int \<times> bytes) go" where
  "ReadBigIntOn64Bytes r =
     go_bind (buf_read 64 r) (\<lambda>(n, buf, r').
     go_bind (RemovePadding buf) (\<lambda>res. Ret (int (be_nat res), r')))"

section \<open>Reading back what was written\<close>

lemma buf_read_append: "length b = n \<Longrightarrow> 0 < n \<Longrightarrow> buf_read n (b @ r) = Ret (n, b, r)"
  by (auto simp: buf_read_def)

lemma u64_less: "u64 x < 2 ^ 64"
  by (simp add: u64_def nat_less_iff)

lemma u64_id: "0 \<le> x \<Longrightarrow> x < 2 ^ 64 \<Longrightarrow> int (u64 x) = x"
  by (simp add: u64_def)

definition int64_bytes :: "int \<Rightarrow> bytes" where
  "int64_bytes x = replicate 48 0 @ left_pad_pairs (be_bytes 8 (u64 x))"

lemma length_int64_bytes [simp]: "length (int64_bytes x) = 64"
  by (simp add: int64_bytes_def length_left_pad_pairs)

lemma WriteInt64On64Bytes_eq: "WriteInt64On64Bytes x = Ret (int64_bytes x)"
  by (simp add: WriteInt64On64Bytes_def LeftPadded_def LeftPadded48Zeros_def int64_bytes_def
      length_left_pad_pairs)

lemma and_mask63: "n < 2 ^ 63 \<Longrightarrow> n AND 0x7fffffffffffffff = (n :: nat)"
  using take_bit_eq_mask [of 63 n] by (simp add: mask_eq_exp_minus_1 take_bit_nat_eq_self)

lemma ReadInt64On64Bytes_write:
  assumes x: "0 \<le> x" "x < 2 ^ 63"
  shows "ReadInt64On64Bytes (int64_bytes x @ r) = Ret (x, r)"
proof -
  have u: "int (u64 x) = x" using x by (intro u64_id) auto
  then have "u64 x < 2 ^ 63" using x by (simp add: nat_less_iff u64_def)
  with u show ?thesis
    unfolding ReadInt64On64Bytes_def
    by (subst buf_read_append) (simp_all add: Remove48Padding_def RemovePadding_def int64_bytes_def
        length_left_pad_pairs remove_pad_left_pad be_nat_be_bytes and_mask63)
qed

lemma ReadInt64On64Bytes_negative:
  assumes x: "x < 0" "- (2 ^ 63) \<le> x"
  shows "ReadInt64On64Bytes (int64_bytes x @ r) = Ret (x + 2 ^ 63, r)"
proof -
  have "x mod 2 ^ 64 = (x + 2 ^ 64) mod 2 ^ 64" by simp
  also have "\<dots> = x + 2 ^ 64" using x by (intro mod_pos_pos_trivial) auto
  finally have "x mod 2 ^ 64 = x + 2 ^ 64" .
  then have u: "u64 x = nat (x + 2 ^ 63) + 2 ^ 63" using x by (simp add: u64_def nat_add_distrib [symmetric])
  have "u64 x AND 0x7fffffffffffffff = u64 x mod 2 ^ 63"
    using take_bit_eq_mask [of 63 "u64 x"] by (simp add: mask_eq_exp_minus_1 take_bit_eq_mod)
  also have "\<dots> = nat (x + 2 ^ 63)" using x by (simp add: u nat_less_iff)
  finally have "int (u64 x AND 0x7fffffffffffffff) = x + 2 ^ 63" using x by simp
  then show ?thesis
    unfolding ReadInt64On64Bytes_def
    by (subst buf_read_append) (simp_all add: Remove48Padding_def RemovePadding_def int64_bytes_def
        length_left_pad_pairs remove_pad_left_pad be_nat_be_bytes u64_less [simplified])
qed

lemma ReadBigIntOn64Bytes_write:
  assumes b: "0 \<le> b" "b < 2 ^ 256"
  shows "\<exists>w. WriteBigIntOn64Bytes b = Ret w \<and> length w = 64
    \<and> (\<forall>r. ReadBigIntOn64Bytes (w @ r) = Ret (b, r))"
proof -
  have "nat \<bar>b\<bar> < 256 ^ 32" using b by (simp add: nat_less_iff)
  then show ?thesis using b
    by (simp add: WriteBigIntOn64Bytes_def ReadBigIntOn64Bytes_def FillBytes32_def LeftPadded_def
        RemovePadding_def length_left_pad_pairs remove_pad_left_pad buf_read_append)
qed

lemma ReadBigIntOn32Bytes_write:
  assumes b: "0 \<le> b" "b < 2 ^ 256"
  shows "\<exists>w. WriteBigIntOn32Bytes b = Ret w \<and> length w = 32
    \<and> (\<forall>r. ReadBigIntOn32Bytes (w @ r) = Ret (b, r))"
proof -
  have "nat \<bar>b\<bar> < 256 ^ 32" using b by (simp add: nat_less_iff)
  then show ?thesis using b
    by (simp add: WriteBigIntOn32Bytes_def ReadBigIntOn32Bytes_def FillBytes32_def buf_read_append)
qed

lemma ReadInt64On32Bytes_write:
  assumes x: "0 \<le> x" "x < 2 ^ 63"
  shows "ReadInt64On32Bytes (concat (fst (WriteInt64On32Bytes x)) @ r) = Ret (x, r)"
proof -
  have u: "int (u64 x) = x" using x by (intro u64_id) auto
  then have "u64 x < 2 ^ 63" using x by (simp add: nat_less_iff u64_def)
  then show ?thesis using u
    by (simp add: ReadInt64On32Bytes_def WriteInt64On32Bytes_def
        buf_read_append [of "replicate 24 0 @ be_bytes 8 (u64 x)", simplified] be_nat_append
        be_nat_be_bytes)
qed

lemma int64_bytes_inj:
  assumes "int64_bytes x = int64_bytes y" and "int64_ok x" and "int64_ok y"
  shows "x = y"
proof -
  have "left_pad_pairs (be_bytes 8 (u64 x)) = left_pad_pairs (be_bytes 8 (u64 y))"
    using assms(1) by (simp add: int64_bytes_def)
  then have "be_bytes 8 (u64 x) = be_bytes 8 (u64 y)"
    by (metis remove_pad_left_pad length_be_bytes mod_self numeral_Bit0 mod_mult_self1_is_0
        mult_2_right mult.commute mult_2 even_numeral dvd_eq_mod_eq_0)
  then have "u64 x = u64 y" using u64_less by (intro be_bytes_inj) auto
  then have "x mod 2 ^ 64 = y mod 2 ^ 64" by (simp add: u64_def)
  then have "signed_take_bit 63 x = signed_take_bit 63 y"
    by (simp add: signed_take_bit_eq_iff_take_bit_eq take_bit_eq_mod)
  then show ?thesis using assms(2,3) by (simp add: i64_id [unfolded i64_def])
qed

section \<open>Fixed-size byte arrays\<close>

text \<open>
  \<^verbatim>\<open>FullBytes32\<close> is \<^verbatim>\<open>[32]byte\<close> and \<^verbatim>\<open>EthAddress\<close> is \<^verbatim>\<open>[20]byte\<close>: byte strings of that length.
  A read that ignores its error leaves the rest of the receiver as it was.
\<close>

definition FullBytes32_WriteTo :: "bytes \<Rightarrow> bytes go" where
  "FullBytes32_WriteTo f = LeftPadded f"

definition Write1Word :: "bytes \<Rightarrow> bytes" where
  "Write1Word f = f"

definition FullBytes32_ReadFrom :: "bytes \<Rightarrow> (bytes \<times> nat \<times> bytes) go" where
  "FullBytes32_ReadFrom r =
     go_bind (RemovePadding (take 64 r @ replicate (64 - length r) 0)) (\<lambda>f. Ret (f, 64, drop 64 r))"

definition ReadPacked :: "bytes \<Rightarrow> bytes \<Rightarrow> bytes \<times> nat \<times> bytes" where
  "ReadPacked f r = (take 32 r @ drop (length r) f, 32, drop 32 r)"

definition LeftPadToFullBytes32 :: "bytes \<Rightarrow> bytes go" where
  "LeftPadToFullBytes32 b =
     (if length b > 32 then Panic ''Passed a string of too many elements but the max is 32''
      else Ret (replicate (32 - length b) 0 @ b))"

definition FullBytes32_IsZero :: "bytes \<Rightarrow> bool" where
  "FullBytes32_IsZero f = list_all (\<lambda>x. x = 0) f"

definition Uint64BigEndian :: "bytes \<Rightarrow> nat \<times> bool" where
  "Uint64BigEndian f = (if be_nat f < 2 ^ 64 then (be_nat f, True) else (0, False))"

definition EthAddress_WriteTo :: "bytes \<Rightarrow> bytes go" where
  "EthAddress_WriteTo e = LeftPadded e"

definition EthAddress_ReadFrom :: "bytes \<Rightarrow> bytes \<Rightarrow> (bytes \<times> nat \<times> bytes) go" where
  "EthAddress_ReadFrom e r =
     go_bind (buf_read 40 r) (\<lambda>(n, buf, r').
     go_bind (RemovePadding buf) (\<lambda>unpadded. Ret (unpadded, n, r')))"

text \<open>The switch of \<^verbatim>\<open>EthAddress.UnmarshalJSON\<close> on the decoded bytes; \<open>e\<close> is the receiver.\<close>

definition EthAddress_set :: "bytes \<Rightarrow> bytes \<Rightarrow> bytes" where
  "EthAddress_set e decoded =
     (if length decoded < 20 then take (20 - length decoded) e @ decoded
      else drop (length decoded - 20) decoded)"

section \<open>Hexadecimal strings\<close>

definition hex_digit :: "nat \<Rightarrow> char" where
  "hex_digit n = ''0123456789abcdef'' ! n"

definition hex_value :: "char \<Rightarrow> nat option" where
  "hex_value c =
     (let n = of_char c :: nat in
      if 48 \<le> n \<and> n \<le> 57 then Some (n - 48)
      else if 97 \<le> n \<and> n \<le> 102 then Some (n - 87)
      else if 65 \<le> n \<and> n \<le> 70 then Some (n - 55)
      else None)"

definition EncodeToString :: "bytes \<Rightarrow> string" where
  "EncodeToString b = concat (map (\<lambda>x. [hex_digit (unat x div 16), hex_digit (unat x mod 16)]) b)"

fun DecodeString :: "string \<Rightarrow> bytes go" where
  "DecodeString [] = Ret []"
| "DecodeString [c] = (case hex_value c of None \<Rightarrow> Err ''invalid byte'' | Some _ \<Rightarrow> Err ''odd length hex string'')"
| "DecodeString (c # d # s) =
     (case (hex_value c, hex_value d) of
        (Some x, Some y) \<Rightarrow> go_bind (DecodeString s) (\<lambda>b. Ret (word_of_nat (16 * x + y) # b))
      | _ \<Rightarrow> Err ''invalid byte'')"

definition TrimPrefix0x :: "string \<Rightarrow> string" where
  "TrimPrefix0x s = (if take 2 s = ''0x'' then drop 2 s else s)"

definition HexDecodeString :: "string \<Rightarrow> bytes go" where
  "HexDecodeString s = DecodeString (TrimPrefix0x s)"

definition HexMustDecodeString :: "string \<Rightarrow> bytes go" where
  "HexMustDecodeString s = must (HexDecodeString s)"

definition HexEncodeToString :: "bytes \<Rightarrow> string" where
  "HexEncodeToString b = ''0x'' @ EncodeToString b"

definition FullBytes32FromHex :: "string \<Rightarrow> bytes go" where
  "FullBytes32FromHex s =
     (case HexDecodeString s of
        Ret b \<Rightarrow> Ret (take 32 b @ replicate (32 - length b) 0)
      | Err _ \<Rightarrow> Panic ''not an hexadecimal''
      | Panic m \<Rightarrow> Panic m)"

definition AddressFromHex :: "string \<Rightarrow> bytes go" where
  "AddressFromHex h =
     go_bind (HexDecodeString h) (\<lambda>byt.
       if length byt \<noteq> 20 then Err ''reading hex address'' else Ret byt)"

definition MustAddressFromHex :: "string \<Rightarrow> bytes go" where
  "MustAddressFromHex h = must (AddressFromHex h)"

definition SetHex :: "'e gnark \<Rightarrow> string \<Rightarrow> 'e octuplet go" where
  "SetHex G s = go_bind (HexDecodeString s) (SetBytes G)"

definition HexToKoalabearOctupletLoose :: "'e gnark \<Rightarrow> string \<Rightarrow> 'e octuplet go" where
  "HexToKoalabearOctupletLoose G s =
     go_bind (must (HexDecodeString s)) (\<lambda>b. Ret (BytesToKoalaOctupletLoose G b))"

definition KoalaOctuplet_Hex :: "'e gnark \<Rightarrow> 'e octuplet \<Rightarrow> string" where
  "KoalaOctuplet_Hex G e = ''0x'' @ EncodeToString (ToBytes G e)"

definition KoalaOctuplet_ReadFrom :: "'e gnark \<Rightarrow> bytes \<Rightarrow> ('e octuplet \<times> nat \<times> bytes) go" where
  "KoalaOctuplet_ReadFrom G r =
     go_bind (buf_read 32 r) (\<lambda>(n, buf, r').
     go_bind (SetBytes G buf) (\<lambda>e. Ret (e, n, r')))"

lemma hex_value_digit: "n < 16 \<Longrightarrow> hex_value (hex_digit n) = Some n"
proof -
  assume "n < 16"
  then have "n \<in> set [0..<16]" by simp
  moreover have "list_all (\<lambda>n. hex_value (hex_digit n) = Some n) [0..<16]" by code_simp
  ultimately show ?thesis by (simp only: list_all_iff)
qed

lemma DecodeString_EncodeToString [simp]: "DecodeString (EncodeToString b) = Ret b"
proof (induction b)
  case (Cons x b)
  have "unat x div 16 < 16" using unat_byte_less [of x] by simp
  moreover have "16 * (unat x div 16) + unat x mod 16 = unat x" by simp
  ultimately show ?case using Cons by (simp add: EncodeToString_def hex_value_digit)
qed (simp add: EncodeToString_def)

lemma HexDecodeString_Encode: "HexDecodeString (HexEncodeToString b) = Ret b"
  by (simp add: HexDecodeString_def HexEncodeToString_def TrimPrefix0x_def)

section \<open>Accounts\<close>

record 'e Account =
  Nonce :: int
  Balance :: "int option"
  StorageRoot :: "'e octuplet"
  LineaCodeHash :: "'e octuplet"
  KeccakCodeHash :: bytes
  CodeSize :: int

definition Account_zero :: "'e gnark \<Rightarrow> 'e Account" where
  "Account_zero G = \<lparr>Nonce = 0, Balance = None, StorageRoot = oct_zero G,
     LineaCodeHash = oct_zero G, KeccakCodeHash = replicate 32 0, CodeSize = 0\<rparr>"

definition balance_or_zero :: "'e Account \<Rightarrow> int" where
  "balance_or_zero a = (case Balance a of None \<Rightarrow> 0 | Some b \<Rightarrow> b)"

text \<open>The writes of an account, and the number of bytes that the call reports.\<close>

definition writeTo :: "'e gnark \<Rightarrow> 'e Account \<Rightarrow> bool \<Rightarrow> (writes \<times> nat) go" where
  "writeTo G a packed =
     go_bind (WriteInt64On64Bytes (Nonce a)) (\<lambda>w0.
     go_bind (WriteBigIntOn64Bytes (balance_or_zero a)) (\<lambda>w1.
     let w2 = ToBytes G (StorageRoot a); w3 = ToBytes G (LineaCodeHash a) in
     go_bind (if packed then Ret (Write1Word (KeccakCodeHash a))
              else FullBytes32_WriteTo (KeccakCodeHash a)) (\<lambda>w4.
     let n4 = (if packed then length w4 else 64) in
     go_bind (WriteInt64On64Bytes (CodeSize a)) (\<lambda>w5.
       Ret ([w0, w1, w2, w3, w4, w5],
            length w0 + length w1 + length w2 + length w3 + n4 + length w5)))))"

text \<open>
  The readers return the new account, the number of bytes read and the rest of the input. On an error
  the source leaves the receiver partly overwritten; the callers discard it, and only the error is returned here.
\<close>

definition readFrom :: "'e gnark \<Rightarrow> 'e Account \<Rightarrow> bytes \<Rightarrow> bool \<Rightarrow> ('e Account \<times> nat \<times> bytes) go" where
  "readFrom G a r packed =
     go_bind (ReadInt64On64Bytes r) (\<lambda>(nonce, r).
     go_bind (ReadBigIntOn64Bytes r) (\<lambda>(balance, r).
     go_bind (KoalaOctuplet_ReadFrom G r) (\<lambda>(sroot, _, r).
     go_bind (KoalaOctuplet_ReadFrom G r) (\<lambda>(lch, _, r).
     go_bind (if packed then Ret (ReadPacked (KeccakCodeHash a) r) else FullBytes32_ReadFrom r)
       (\<lambda>(kch, nK, r).
     go_bind (ReadInt64On64Bytes r) (\<lambda>(size, r).
       Ret (\<lparr>Nonce = nonce, Balance = Some balance, StorageRoot = sroot, LineaCodeHash = lch,
             KeccakCodeHash = kch, CodeSize = size\<rparr>, 256 + nK, r)))))))"

definition writeToShomeiTraces :: "'e gnark \<Rightarrow> 'e Account \<Rightarrow> (writes \<times> nat) go" where
  "writeToShomeiTraces G a =
     (let (ws0, n0) = WriteInt64On32Bytes (Nonce a) in
      go_bind (WriteBigIntOn32Bytes (balance_or_zero a)) (\<lambda>w1.
      let w2 = ToBytes G (StorageRoot a); w3 = ToBytes G (LineaCodeHash a);
          w4 = Write1Word (KeccakCodeHash a) in
      go_bind (WriteInt64On64Bytes (CodeSize a)) (\<lambda>w5.
        Ret (ws0 @ [w1, w2, w3, w4, w5],
             n0 + length w1 + length w2 + length w3 + length w4 + length w5))))"

definition readFromShomeiTraces :: "'e gnark \<Rightarrow> 'e Account \<Rightarrow> bytes \<Rightarrow> ('e Account \<times> nat \<times> bytes) go" where
  "readFromShomeiTraces G a r =
     go_bind (ReadInt64On32Bytes r) (\<lambda>(nonce, r).
     go_bind (ReadBigIntOn32Bytes r) (\<lambda>(balance, r).
     go_bind (KoalaOctuplet_ReadFrom G r) (\<lambda>(sroot, _, r).
     go_bind (KoalaOctuplet_ReadFrom G r) (\<lambda>(lch, _, r).
     let (kch, _, r) = ReadPacked (KeccakCodeHash a) r in
     go_bind (ReadInt64On32Bytes r) (\<lambda>(size, r).
       Ret (\<lparr>Nonce = nonce, Balance = Some balance, StorageRoot = sroot, LineaCodeHash = lch,
             KeccakCodeHash = kch, CodeSize = size\<rparr>, 192, r))))))"

definition account_wf :: "'e Account \<Rightarrow> bool" where
  "account_wf a \<longleftrightarrow> 0 \<le> Nonce a \<and> Nonce a < 2 ^ 63 \<and> 0 \<le> balance_or_zero a
     \<and> balance_or_zero a < 2 ^ 256 \<and> length (KeccakCodeHash a) = 32
     \<and> 0 \<le> CodeSize a \<and> CodeSize a < 2 ^ 63"

lemma account_rebuild:
  "\<lparr>Nonce = Nonce a, Balance = b, StorageRoot = StorageRoot a, LineaCodeHash = LineaCodeHash a,
     KeccakCodeHash = KeccakCodeHash a, CodeSize = s\<rparr> = (a :: 'e Account)\<lparr>Balance := b, CodeSize := s\<rparr>"
  by (cases a) simp

lemma ReadPacked_append: "length k = 32 \<Longrightarrow> length f = 32 \<Longrightarrow> ReadPacked f (k @ r) = (k, 32, r)"
  by (simp add: ReadPacked_def)

lemma FullBytes32_round:
  "length k = 32 \<Longrightarrow> \<exists>w. FullBytes32_WriteTo k = Ret w \<and> length w = 64
     \<and> (\<forall>r. FullBytes32_ReadFrom (w @ r) = Ret (k, 64, r))"
  by (simp add: FullBytes32_WriteTo_def FullBytes32_ReadFrom_def LeftPadded_def RemovePadding_def
      length_left_pad_pairs remove_pad_left_pad)

context felt
begin

lemma KoalaOctuplet_ReadFrom_write: "KoalaOctuplet_ReadFrom G (ToBytes G e @ r) = Ret (e, 32, r)"
  by (simp add: KoalaOctuplet_ReadFrom_def buf_read_append ToBytes_length SetBytes_ToBytes)

lemma account_round_trip:
  assumes wf: "account_wf a" and a0: "length (KeccakCodeHash a0) = 32"
  shows "\<exists>ws n. writeTo G a packed = Ret (ws, n) \<and> length (concat ws) = n
    \<and> (\<forall>r. readFrom G a0 (concat ws @ r) packed = Ret (a\<lparr>Balance := Some (balance_or_zero a)\<rparr>, n, r))"
proof -
  obtain wb where wb: "WriteBigIntOn64Bytes (balance_or_zero a) = Ret wb" "length wb = 64"
    "\<And>r. ReadBigIntOn64Bytes (wb @ r) = Ret (balance_or_zero a, r)"
    using ReadBigIntOn64Bytes_write [of "balance_or_zero a"] wf by (auto simp: account_wf_def)
  obtain wk where wk: "FullBytes32_WriteTo (KeccakCodeHash a) = Ret wk" "length wk = 64"
    "\<And>r. FullBytes32_ReadFrom (wk @ r) = Ret (KeccakCodeHash a, 64, r)"
    using FullBytes32_round [of "KeccakCodeHash a"] wf by (auto simp: account_wf_def)
  note rd = ReadInt64On64Bytes_write KoalaOctuplet_ReadFrom_write ReadPacked_append wb wk
  have "(a :: 'e Account)\<lparr>Balance := b, CodeSize := CodeSize a\<rparr> = a\<lparr>Balance := b\<rparr>" for b
    by (cases a) simp
  then show ?thesis using wf a0
    by (simp add: writeTo_def readFrom_def WriteInt64On64Bytes_eq account_wf_def rd
        ToBytes_length Write1Word_def Let_def account_rebuild)
qed

text \<open>
  The Shomei encoding writes \<^verbatim>\<open>CodeSize\<close> on 64 bytes and reads it back from 32: what comes
  back is always zero, and 32 bytes are left over.
\<close>

lemma shomei_round_trip:
  assumes wf: "account_wf a" and a0: "length (KeccakCodeHash a0) = 32"
  shows "\<exists>ws n rest. writeToShomeiTraces G a = Ret (ws, n) \<and> length rest = 32
    \<and> (\<forall>r. readFromShomeiTraces G a0 (concat ws @ r)
        = Ret (a\<lparr>Balance := Some (balance_or_zero a), CodeSize := 0\<rparr>, 192, rest @ r))"
proof -
  obtain wb where wb: "WriteBigIntOn32Bytes (balance_or_zero a) = Ret wb" "length wb = 32"
    "\<And>r. ReadBigIntOn32Bytes (wb @ r) = Ret (balance_or_zero a, r)"
    using ReadBigIntOn32Bytes_write [of "balance_or_zero a"] wf by (auto simp: account_wf_def)
  define rest where "rest = drop 32 (int64_bytes (CodeSize a))"
  have "int64_bytes (CodeSize a) = replicate 32 0 @ rest"
    using append_take_drop_id [of 32 "int64_bytes (CodeSize a)"]
    by (simp add: rest_def int64_bytes_def)
  then have size: "ReadInt64On32Bytes (int64_bytes (CodeSize a) @ r) = Ret (0, rest @ r)" for r
    by (simp add: ReadInt64On32Bytes_def buf_read_append)
  have nonce: "ReadInt64On32Bytes (concat (fst (WriteInt64On32Bytes (Nonce a))) @ r) = Ret (Nonce a, r)" for r
    using wf by (intro ReadInt64On32Bytes_write) (simp_all add: account_wf_def)
  note rd = nonce size KoalaOctuplet_ReadFrom_write ReadPacked_append wb
  have "length rest = 32" by (simp add: rest_def)
  then show ?thesis using wf a0
    by (simp add: writeToShomeiTraces_def readFromShomeiTraces_def WriteInt64On64Bytes_eq
        account_wf_def rd Write1Word_def Let_def account_rebuild split_beta)
qed

end

section \<open>Properties\<close>

text \<open>
  C38: The account encoding round-trips, packed or not: for an account whose nonce and code size are
  non-negative \<^verbatim>\<open>int64\<close>s and whose balance fits in 256 bits, reading what \<^verbatim>\<open>writeTo\<close> wrote gives the
  account back (a missing balance as zero), the reported sizes are those of the bytes written, and the
  rest of the input is left unread.
\<close>

theorem account_encoding_round_trip:
  assumes "felt G" and "account_wf a" and "length (KeccakCodeHash a0) = 32"
  shows "\<exists>ws n. writeTo G a packed = Ret (ws, n) \<and> length (concat ws) = n
    \<and> (\<forall>r. readFrom G a0 (concat ws @ r) packed = Ret (a\<lparr>Balance := Some (balance_or_zero a)\<rparr>, n, r))"
  using felt.account_round_trip [OF assms] .

theorem account_encoding_round_trip_witness:
  "account_wf (Account_zero (koala_ops (\<lambda>a b. b)))
    \<and> (\<exists>ws n. writeTo (koala_ops (\<lambda>a b. b)) (Account_zero (koala_ops (\<lambda>a b. b))) True = Ret (ws, n)
        \<and> readFrom (koala_ops (\<lambda>a b. b)) (Account_zero (koala_ops (\<lambda>a b. b))) (concat ws @ []) True
          = Ret ((Account_zero (koala_ops (\<lambda>a b. b)))\<lparr>Balance := Some 0\<rparr>, n, []))"
proof -
  let ?G = "koala_ops (\<lambda>a b. b)" let ?a = "Account_zero ?G"
  have wf: "account_wf ?a" "length (KeccakCodeHash ?a) = 32" "balance_or_zero ?a = 0"
    by (simp_all add: account_wf_def Account_zero_def balance_or_zero_def)
  from account_encoding_round_trip [OF koala.felt_axioms wf(1,2), of "\<lambda>a b. b" True] show ?thesis
    using wf by metis
qed

text \<open>
  C39: The Shomei encoding does not round-trip: \<^verbatim>\<open>writeToShomeiTraces\<close> writes the code size on 64 bytes and
  \<^verbatim>\<open>readFromShomeiTraces\<close> reads 32, so the code size always comes back as zero and 32 bytes are left
  over.
\<close>

theorem shomei_encoding_loses_code_size:
  assumes "felt G" and "account_wf a" and "length (KeccakCodeHash a0) = 32"
  shows "\<exists>ws n rest. writeToShomeiTraces G a = Ret (ws, n) \<and> length rest = 32
    \<and> (\<forall>r. readFromShomeiTraces G a0 (concat ws @ r)
        = Ret (a\<lparr>Balance := Some (balance_or_zero a), CodeSize := 0\<rparr>, 192, rest @ r))"
  using felt.shomei_round_trip [OF assms] .

theorem shomei_encoding_loses_code_size_witness:
  "\<exists>a ws n a' m r. CodeSize a = 5 \<and> writeToShomeiTraces (koala_ops (\<lambda>a b. b)) a = Ret (ws, n)
    \<and> readFromShomeiTraces (koala_ops (\<lambda>a b. b)) a (concat ws @ []) = Ret (a', m, r) \<and> CodeSize a' = 0"
proof -
  let ?G = "koala_ops (\<lambda>a b. b)" let ?a = "(Account_zero ?G)\<lparr>CodeSize := 5\<rparr>"
  have wf: "account_wf ?a" "length (KeccakCodeHash ?a) = 32"
    by (simp_all add: account_wf_def Account_zero_def balance_or_zero_def)
  from shomei_encoding_loses_code_size [OF koala.felt_axioms wf, of "\<lambda>a b. b"] obtain ws n rest where
    "writeToShomeiTraces ?G ?a = Ret (ws, n)"
    "readFromShomeiTraces ?G ?a (concat ws @ []) = Ret (?a\<lparr>Balance := Some (balance_or_zero ?a), CodeSize := 0\<rparr>, 192, rest @ [])"
    by metis
  then show ?thesis by (intro exI [of _ ?a]) auto
qed

text \<open>
  Integers on 64 bytes: a non-negative \<^verbatim>\<open>int64\<close> is read back as written, and the reader clears the top
  bit, so a negative one comes back as itself plus \<open>2 ^ 63\<close>.
\<close>

lemma int64_on_64_bytes:
  assumes "int64_ok x"
  shows "\<exists>w. WriteInt64On64Bytes x = Ret w \<and> length w = 64
    \<and> ReadInt64On64Bytes (w @ r) = Ret (if 0 \<le> x then x else x + 2 ^ 63, r)"
proof (cases "0 \<le> x")
  case True
  then show ?thesis using assms by (simp add: WriteInt64On64Bytes_eq ReadInt64On64Bytes_write int64_ok_def)
next
  case False
  then show ?thesis using assms by (simp add: WriteInt64On64Bytes_eq ReadInt64On64Bytes_negative int64_ok_def)
qed

text \<open>
  Hexadecimal strings: decoding what \<^verbatim>\<open>HexEncodeToString\<close> printed gives the bytes back, and an address
  printed and parsed again is the same address exactly when it has 20 bytes.
\<close>

theorem hex_round_trip:
  "HexDecodeString (HexEncodeToString b) = Ret b
    \<and> (AddressFromHex (HexEncodeToString b) = Ret b) = (length b = 20)"
  by (simp add: HexDecodeString_Encode AddressFromHex_def)

end
