(* ===== verification/Smt.thy ===== *)
theory Smt
  imports Poseidon_MD
begin

text \<open>
  The binary sparse Merkle tree (\<^verbatim>\<open>prover/crypto/state-management/smt_koalabear\<close>:
  \<^verbatim>\<open>tree.go\<close>, \<^verbatim>\<open>proof.go\<close>, \<^verbatim>\<open>update.go\<close>). Only the occupied prefix of every level is
  stored; a position past the prefix reads as the node of an empty subtree. Level 0
  holds the leaves and level \<open>Depth\<close> the root. Positions are Go \<^verbatim>\<open>int\<close>s and may be
  negative or too large: the panics of the code are branches of the model.
\<close>

section \<open>Data\<close>

record 'e Tree =
  Depth :: nat
  Root :: "'e octuplet"
  OccupiedLeaves :: "'e octuplet list"
  OccupiedNodes :: "'e octuplet list list"
  EmptyNodes :: "'e octuplet list"

record 'e Proof =
  Path :: int
  Siblings :: "'e octuplet list"

record 'e ProvedClaim =
  pc_Proof :: "'e Proof"
  pc_Root :: "'e octuplet"
  pc_Leaf :: "'e octuplet"

definition DefaultDepth :: nat where
  "DefaultDepth = 40"

definition EmptyLeaf :: "'e gnark \<Rightarrow> 'e octuplet" where
  "EmptyLeaf G = oct_zero G"

text \<open>
  \<^verbatim>\<open>hashLR\<close> is called with a hasher that the caller re-uses; \<open>hashLR_with\<close> returns the
  digest and the hasher afterwards. The tree code always starts from a fresh hasher,
  whose buffer is empty, and \<open>hashLR_with\<close> leaves it empty (\<open>hashLR_with_reuse\<close> below),
  so the definitions of this theory use the digest of a fresh hasher, \<open>hashLR\<close>.
\<close>

definition hashLR_with ::
  "'e gnark \<Rightarrow> 'e MDHasher \<Rightarrow> 'e octuplet \<Rightarrow> 'e octuplet \<Rightarrow> 'e octuplet \<times> 'e MDHasher" where
  "hashLR_with G hasher nodeL nodeR =
     SumElement G (WriteElements (WriteElements (Reset G hasher) (oct_list nodeL)) (oct_list nodeR))"

definition hashLR :: "'e gnark \<Rightarrow> 'e octuplet \<Rightarrow> 'e octuplet \<Rightarrow> 'e octuplet" where
  "hashLR G nodeL nodeR = fst (hashLR_with G (NewMDHasher G) nodeL nodeR)"

lemma hashLR_eq: "hashLR G l r = compress_p2 G (compress_p2 G (oct_zero G) l) r"
  by (simp add: hashLR_def hashLR_with_def SumElement_def WriteElements_def Reset_def
      NewMDHasher_def Let_def)

lemma hashLR_with_reuse:
  "buffer h = [] \<Longrightarrow> fst (hashLR_with G h l r) = hashLR G l r \<and> buffer (snd (hashLR_with G h l r)) = []"
  by (simp add: hashLR_eq hashLR_with_def SumElement_def WriteElements_def Reset_def Let_def)

section \<open>Construction\<close>

text \<open>The loop that fills \<^verbatim>\<open>emptyNodes\<close>; it returns the slice and the last \<^verbatim>\<open>prevNode\<close>.\<close>

fun empty_nodes :: "'e gnark \<Rightarrow> nat \<Rightarrow> 'e octuplet \<Rightarrow> 'e octuplet list \<times> 'e octuplet" where
  "empty_nodes G 0 prevNode = ([], prevNode)"
| "empty_nodes G (Suc n) prevNode =
     (let newNode = hashLR G prevNode prevNode; (rest, lst) = empty_nodes G n newNode
      in (newNode # rest, lst))"

definition NewEmptyTree :: "'e gnark \<Rightarrow> int list \<Rightarrow> 'e Tree" where
  "NewEmptyTree G depths =
     (let depth = (if depths \<noteq> [] \<and> depths ! 0 > 0 then nat (depths ! 0) else DefaultDepth);
          (emptyNodes, prevNode) = empty_nodes G (depth - 1) (EmptyLeaf G)
      in \<lparr>Depth = depth, Root = hashLR G prevNode prevNode, OccupiedLeaves = [],
          OccupiedNodes = replicate (depth - 1) [], EmptyNodes = emptyNodes\<rparr>)"

section \<open>Reading nodes\<close>

definition GetLeaf :: "'e gnark \<Rightarrow> 'e Tree \<Rightarrow> int \<Rightarrow> 'e octuplet go" where
  "GetLeaf G t pos =
     (if pos \<ge> shl1 (Depth t) then Err ''out of bound''
      else if pos < 0 then Err ''negative position''
      else if pos \<ge> int (length (OccupiedLeaves t)) then Ret (EmptyLeaf G)
      else Ret (OccupiedLeaves t ! nat pos))"

definition MustGetLeaf :: "'e gnark \<Rightarrow> 'e Tree \<Rightarrow> int \<Rightarrow> 'e octuplet go" where
  "MustGetLeaf G t pos = must (GetLeaf G t pos)"

text \<open>The messages of the two sanity checks on the value of a stored node.\<close>

definition root_zero_msg :: string where
  "root_zero_msg = ''sanity-check failed : the root is zero.''"

definition node_zero_msg :: string where
  "node_zero_msg = ''sanity-check : intermediary node is 0''"

definition getNode :: "'e gnark \<Rightarrow> 'e Tree \<Rightarrow> nat \<Rightarrow> int \<Rightarrow> 'e octuplet go" where
  "getNode G t level posInLevel =
     (if level = Depth t then
        (if posInLevel > 0 then Panic ''there is only one root''
         else if Root t = oct_zero G then Panic root_zero_msg
         else Ret (Root t))
      else if level \<ge> 1 \<and> level \<le> Depth t - 1 then
        (if posInLevel \<ge> shl1 (Depth t - level) then Panic ''nodeID is out of bound''
         else if level - 1 \<ge> length (OccupiedNodes t) then Panic ''index out of range''
         else if posInLevel \<ge> int (length (OccupiedNodes t ! (level - 1))) then
           (if level - 1 \<ge> length (EmptyNodes t) then Panic ''index out of range''
            else Ret (EmptyNodes t ! (level - 1)))
         else if posInLevel < 0 then Panic ''index out of range''
         else (let res = OccupiedNodes t ! (level - 1) ! nat posInLevel
               in if res = oct_zero G then Panic node_zero_msg else Ret res))
      else if level = 0 then must (GetLeaf G t posInLevel)
      else Panic ''Got level'')"

section \<open>Writing nodes\<close>

definition reserveLevel :: "'e gnark \<Rightarrow> 'e Tree \<Rightarrow> nat \<Rightarrow> int \<Rightarrow> 'e Tree go" where
  "reserveLevel G t level newSize =
     (if level > Depth t then Panic ''level out of bound''
      else if level = Depth t then Panic ''tried extending the root level''
      else if newSize > shl1 (Depth t - level) then Panic ''overextending the tree''
      else if level = 0 then
        (if newSize \<le> int (length (OccupiedLeaves t)) then Ret t
         else Ret (t\<lparr>OccupiedLeaves := OccupiedLeaves t
                @ replicate (nat newSize - length (OccupiedLeaves t)) (EmptyLeaf G)\<rparr>))
      else if level - 1 \<ge> length (OccupiedNodes t) then Panic ''index out of range''
      else if newSize \<le> int (length (OccupiedNodes t ! (level - 1))) then Ret t
      else if level - 1 \<ge> length (EmptyNodes t) then Panic ''index out of range''
      else Ret (t\<lparr>OccupiedNodes := (OccupiedNodes t)[level - 1 := OccupiedNodes t ! (level - 1)
                @ replicate (nat newSize - length (OccupiedNodes t ! (level - 1)))
                    (EmptyNodes t ! (level - 1))]\<rparr>))"

definition updateNode :: "'e gnark \<Rightarrow> 'e Tree \<Rightarrow> nat \<Rightarrow> int \<Rightarrow> 'e octuplet \<Rightarrow> 'e Tree go" where
  "updateNode G t level posInLevel newVal =
     (if level = Depth t then
        (if posInLevel > 0 then Panic ''there is only one root''
         else if Root t = oct_zero G then Panic root_zero_msg
         else Ret (t\<lparr>Root := newVal\<rparr>))
      else if level \<ge> 1 \<and> level < Depth t then
        (if posInLevel \<ge> shl1 (Depth t - level) then Panic ''node is out of bound''
         else if level - 1 \<ge> length (OccupiedNodes t) then Panic ''index out of range''
         else go_bind (if posInLevel \<ge> int (length (OccupiedNodes t ! (level - 1)))
                       then reserveLevel G t level (posInLevel + 1) else Ret t)
           (\<lambda>t'. if posInLevel < 0 then Panic ''index out of range''
                 else Ret (t'\<lparr>OccupiedNodes := (OccupiedNodes t')
                        [level - 1 := (OccupiedNodes t' ! (level - 1))[nat posInLevel := newVal]]\<rparr>)))
      else if level = 0 then
        (if posInLevel \<ge> shl1 (Depth t) then Panic ''nodeID is out of bound''
         else go_bind (if posInLevel \<ge> int (length (OccupiedLeaves t))
                       then reserveLevel G t 0 (posInLevel + 1) else Ret t)
           (\<lambda>t'. if posInLevel < 0 then Panic ''index out of range''
                 else Ret (t'\<lparr>OccupiedLeaves := (OccupiedLeaves t')[nat posInLevel := newVal]\<rparr>)))
      else Panic ''Got level'')"

text \<open>
  \<open>update_loop G n level idx current t\<close> runs the remaining \<open>n\<close> iterations of the loop of
  \<^verbatim>\<open>Update\<close>, starting at \<open>level\<close>.
\<close>

fun update_loop ::
  "'e gnark \<Rightarrow> nat \<Rightarrow> nat \<Rightarrow> int \<Rightarrow> 'e octuplet \<Rightarrow> 'e Tree \<Rightarrow> ('e Tree \<times> int \<times> 'e octuplet) go" where
  "update_loop G 0 level idx current t = Ret (t, idx, current)"
| "update_loop G (Suc n) level idx current t =
     go_bind (updateNode G t level idx current) (\<lambda>t'.
     go_bind (getNode G t' level (idx XOR 1)) (\<lambda>sibling.
       let (left, right) = (if idx AND 1 = 1 then (sibling, current) else (current, sibling))
       in update_loop G n (Suc level) (drop_bit 1 idx) (hashLR G left right) t'))"

definition Update :: "'e gnark \<Rightarrow> 'e Tree \<Rightarrow> int \<Rightarrow> 'e octuplet \<Rightarrow> 'e Tree go" where
  "Update G t pos newVal =
     (if pos \<ge> shl1 (Depth t) then Panic ''out of bound''
      else go_bind (update_loop G (Depth t) 0 pos newVal t) (\<lambda>(t', idx, current).
             if idx \<noteq> 0 then Panic ''idx should be zero''
             else Ret (t'\<lparr>Root := current\<rparr>)))"

section \<open>Merkle proofs\<close>

fun prove_loop ::
  "'e gnark \<Rightarrow> 'e Tree \<Rightarrow> nat \<Rightarrow> nat \<Rightarrow> int \<Rightarrow> ('e octuplet list \<times> int) go" where
  "prove_loop G t 0 level idx = Ret ([], idx)"
| "prove_loop G t (Suc n) level idx =
     go_bind (getNode G t level (idx XOR 1)) (\<lambda>sibling.
     go_bind (prove_loop G t n (Suc level) (drop_bit 1 idx)) (\<lambda>(siblings, idx').
       Ret (sibling # siblings, idx')))"

definition Prove :: "'e gnark \<Rightarrow> 'e Tree \<Rightarrow> int \<Rightarrow> 'e Proof go" where
  "Prove G t pos =
     (if pos \<ge> shl1 (Depth t) then Err ''pos is too high''
      else if pos < 0 then Err ''pos is negative should be positive or zero''
      else go_bind (prove_loop G t (Depth t) 0 pos) (\<lambda>(siblings, idx).
             if idx \<noteq> 0 then Panic ''idx should be zero''
             else Ret \<lparr>Path = pos, Siblings = siblings\<rparr>))"

definition MustProve :: "'e gnark \<Rightarrow> 'e Tree \<Rightarrow> int \<Rightarrow> 'e Proof go" where
  "MustProve G t pos = must (Prove G t pos)"

fun recover_loop :: "'e gnark \<Rightarrow> 'e octuplet list \<Rightarrow> int \<Rightarrow> 'e octuplet \<Rightarrow> 'e octuplet \<times> int" where
  "recover_loop G [] idx current = (current, idx)"
| "recover_loop G (sibling # siblings) idx current =
     (let (left, right) = (if idx AND 1 = 1 then (sibling, current) else (current, sibling))
      in recover_loop G siblings (drop_bit 1 idx) (hashLR G left right))"

definition RecoverRoot :: "'e gnark \<Rightarrow> 'e Proof \<Rightarrow> 'e octuplet \<Rightarrow> 'e octuplet go" where
  "RecoverRoot G p leaf =
     (let (current, idx) = recover_loop G (Siblings p) (Path p) leaf
      in if idx \<noteq> 0 then Panic ''idx should be zero'' else Ret current)"

definition ErrInvalidProof :: string where
  "ErrInvalidProof = ''can't verify Merkle proof''"

definition Verify :: "'e gnark \<Rightarrow> 'e Proof \<Rightarrow> 'e octuplet \<Rightarrow> 'e octuplet \<Rightarrow> unit go" where
  "Verify G p leaf root =
     go_bind (RecoverRoot G p leaf) (\<lambda>actual.
       if list_all2 (=) (oct_list actual) (oct_list root) then Ret () else Err ErrInvalidProof)"

section \<open>The abstract tree\<close>

text \<open>
  \<open>mnode H f L i\<close> is the node at level \<open>L\<close>, position \<open>i\<close>, of the perfect binary tree with
  leaves \<open>f\<close> and node hash \<open>H\<close>; \<open>climb H sibs i v\<close> the root recomputed from the leaf \<open>v\<close> at
  position \<open>i\<close> and its siblings, and \<open>msibs H f n L i\<close> the siblings on the path.
\<close>

fun mnode :: "('d \<Rightarrow> 'd \<Rightarrow> 'd) \<Rightarrow> (nat \<Rightarrow> 'd) \<Rightarrow> nat \<Rightarrow> nat \<Rightarrow> 'd" where
  "mnode H f 0 i = f i"
| "mnode H f (Suc L) i = H (mnode H f L (2 * i)) (mnode H f L (2 * i + 1))"

definition join :: "('d \<Rightarrow> 'd \<Rightarrow> 'd) \<Rightarrow> nat \<Rightarrow> 'd \<Rightarrow> 'd \<Rightarrow> 'd" where
  "join H i current sibling = (if odd i then H sibling current else H current sibling)"

fun climb :: "('d \<Rightarrow> 'd \<Rightarrow> 'd) \<Rightarrow> 'd list \<Rightarrow> nat \<Rightarrow> 'd \<Rightarrow> 'd" where
  "climb H [] i v = v"
| "climb H (s # ss) i v = climb H ss (i div 2) (join H i v s)"

fun msibs :: "('d \<Rightarrow> 'd \<Rightarrow> 'd) \<Rightarrow> (nat \<Rightarrow> 'd) \<Rightarrow> nat \<Rightarrow> nat \<Rightarrow> nat \<Rightarrow> 'd list" where
  "msibs H f 0 L i = []"
| "msibs H f (Suc n) L i = mnode H f L (sib i) # msibs H f n (Suc L) (i div 2)"

lemma length_msibs [simp]: "length (msibs H f n L i) = n"
  by (induction n arbitrary: L i) auto

lemma mnode_parent: "join H i (mnode H f L i) (mnode H f L (sib i)) = mnode H f (Suc L) (i div 2)"
  by (auto simp: join_def sib_def elim!: oddE evenE)

lemma mnode_other:
  assumes "\<forall>j. j \<noteq> p \<longrightarrow> g j = f j"
  shows "j \<noteq> p div 2 ^ L \<Longrightarrow> mnode H g L j = mnode H f L j"
proof (induction L arbitrary: j)
  case 0
  then show ?case using assms by simp
next
  case (Suc L)
  then have "j \<noteq> p div 2 ^ L div 2" by (simp only: div_pow_Suc) simp
  then have "2 * j \<noteq> p div 2 ^ L" "2 * j + 1 \<noteq> p div 2 ^ L" by auto
  then show ?case using Suc.IH by simp
qed

lemma mnode_sib:
  assumes "\<forall>j. j \<noteq> p \<longrightarrow> g j = f j"
  shows "mnode H g L (sib (p div 2 ^ L)) = mnode H f L (sib (p div 2 ^ L))"
  by (rule mnode_other [OF assms sib_neq])

lemma mnode_cong:
  "(\<And>j. j < 2 ^ n \<Longrightarrow> f j = g j) \<Longrightarrow> L \<le> n \<Longrightarrow> i < 2 ^ (n - L) \<Longrightarrow> mnode H f L i = mnode H g L i"
proof (induction L arbitrary: i)
  case 0
  then show ?case by simp
next
  case (Suc L)
  from Suc.prems(2) have "n - L = Suc (n - Suc L)" by simp
  with Suc.prems(3) have "2 * i < 2 ^ (n - L)" "2 * i + 1 < 2 ^ (n - L)" by auto
  then show ?case using Suc by simp
qed

lemma climb_msibs_gen:
  assumes "\<forall>j. j \<noteq> p \<longrightarrow> g j = f j"
  shows "climb H (msibs H f n L (p div 2 ^ L)) (p div 2 ^ L) (mnode H g L (p div 2 ^ L))
     = mnode H g (L + n) (p div 2 ^ (L + n))"
proof (induction n arbitrary: L)
  case 0
  then show ?case by simp
next
  case (Suc n)
  have "join H (p div 2 ^ L) (mnode H g L (p div 2 ^ L)) (mnode H f L (sib (p div 2 ^ L)))
    = mnode H g (Suc L) (p div 2 ^ Suc L)"
    using mnode_parent [of H "p div 2 ^ L" g L] mnode_sib [OF assms]
    by (simp only: div_pow_Suc)
  then show ?case using Suc.IH [of "Suc L"] by (simp add: div_pow_Suc del: power_Suc mnode.simps)
qed

text \<open>Recomputing along the path of \<open>p\<close> gives the root of the tree updated at \<open>p\<close>.\<close>

lemma climb_msibs:
  "p < 2 ^ n \<Longrightarrow> climb H (msibs H f n 0 p) p v = mnode H (f(p := v)) n 0"
  using climb_msibs_gen [of p "f(p := v)" f H n 0] by simp

lemma climb_msibs_id:
  "p < 2 ^ n \<Longrightarrow> climb H (msibs H f n 0 p) p (f p) = mnode H f n 0"
  using climb_msibs [of p n H f "f p"] by simp

lemma msibs_other:
  assumes "\<forall>j. j \<noteq> p \<longrightarrow> g j = f j"
  shows "msibs H g n L (p div 2 ^ L) = msibs H f n L (p div 2 ^ L)"
proof (induction n arbitrary: L)
  case (Suc n)
  show ?case using Suc.IH [of "Suc L"] mnode_sib [OF assms]
    by (simp add: div_pow_Suc del: power_Suc)
qed simp

section \<open>The tree implements it\<close>

definition node_at :: "'e gnark \<Rightarrow> 'e Tree \<Rightarrow> nat \<Rightarrow> nat \<Rightarrow> 'e octuplet" where
  "node_at G t L i =
     (if L = Depth t then Root t
      else if L = 0 then (if i < length (OccupiedLeaves t) then OccupiedLeaves t ! i else EmptyLeaf G)
      else if i < length (OccupiedNodes t ! (L - 1)) then OccupiedNodes t ! (L - 1) ! i
      else EmptyNodes t ! (L - 1))"

definition leaf_at :: "'e gnark \<Rightarrow> 'e Tree \<Rightarrow> nat \<Rightarrow> 'e octuplet" where
  "leaf_at G t i = (if i < length (OccupiedLeaves t) then OccupiedLeaves t ! i else EmptyLeaf G)"

definition tree_shape :: "'e Tree \<Rightarrow> bool" where
  "tree_shape t \<longleftrightarrow> 1 \<le> Depth t \<and> Depth t < 63
     \<and> length (OccupiedNodes t) = Depth t - 1 \<and> length (EmptyNodes t) = Depth t - 1
     \<and> length (OccupiedLeaves t) \<le> 2 ^ Depth t
     \<and> (\<forall>L. 1 \<le> L \<and> L < Depth t \<longrightarrow> length (OccupiedNodes t ! (L - 1)) \<le> 2 ^ (Depth t - L))"

definition tree_inv :: "'e gnark \<Rightarrow> 'e Tree \<Rightarrow> bool" where
  "tree_inv G t \<longleftrightarrow> tree_shape t
     \<and> (\<forall>L \<le> Depth t. \<forall>i < 2 ^ (Depth t - L). node_at G t L i = mnode (hashLR G) (leaf_at G t) L i)"

lemma leaf_at_Root [simp]: "leaf_at G (t\<lparr>Root := r\<rparr>) = leaf_at G t"
  by (simp add: leaf_at_def fun_eq_iff)

lemma node_at_Root:
  "node_at G (t\<lparr>Root := r\<rparr>) K j = (if K = Depth t then r else node_at G t K j)"
  by (simp add: node_at_def)

lemma node_at_0: "1 \<le> Depth t \<Longrightarrow> node_at G t 0 i = leaf_at G t i"
  by (auto simp: node_at_def leaf_at_def)

lemma tree_inv_Root: "tree_inv G t \<Longrightarrow> Root t = mnode (hashLR G) (leaf_at G t) (Depth t) 0"
  unfolding tree_inv_def by (drule conjunct2, drule spec [of _ "Depth t"]) (simp add: node_at_def)

lemma tree_shape_maxPos: "tree_shape t \<Longrightarrow> shl1 (Depth t - L) = 2 ^ (Depth t - L)"
  by (rule shl1_small) (auto simp: tree_shape_def)

lemma int_less_pow: "i < 2 ^ n \<Longrightarrow> int i < 2 ^ n"
  by (metis of_nat_less_iff of_nat_numeral of_nat_power)

text \<open>
  The only panic left on a well-formed tree is the sanity check that an inner node is not
  zero, and it needs a pair of nodes that hash to zero.
\<close>

definition zero_panics :: "'e gnark \<Rightarrow> string set" where
  "zero_panics G = {m. m = node_zero_msg \<and> (\<exists>l r. hashLR G l r = oct_zero G)}"

lemma getNode_spec:
  assumes "tree_shape t" "L < Depth t" "i < 2 ^ (Depth t - L)"
    and node: "node_at G t L i = mnode (hashLR G) f L i"
  shows "ret_or (\<lambda>x. x = node_at G t L i) (zero_panics G) (getNode G t L (int i))"
proof -
  have zero: "node_zero_msg \<in> zero_panics G" if "node_at G t L i = oct_zero G" "L \<noteq> 0"
    using that node by (cases L) (auto simp: zero_panics_def)
  show ?thesis
    using assms(1-3) int_less_pow [OF assms(3)] tree_shape_maxPos [OF assms(1), of L] zero
    by (auto simp: getNode_def GetLeaf_def node_at_def tree_shape_def Let_def)
qed

text \<open>Extending a level: \<open>padded xs n e\<close> has at least \<open>n\<close> entries.\<close>

definition padded :: "'a list \<Rightarrow> nat \<Rightarrow> 'a \<Rightarrow> 'a list" where
  "padded xs n e = xs @ replicate (n - length xs) e"

lemma length_padded [simp]: "length (padded xs n e) = max (length xs) n"
  by (simp add: padded_def)

lemma padded_id: "n \<le> length xs \<Longrightarrow> padded xs n e = xs"
  by (simp add: padded_def)

lemma padded_write:
  "(if j < length ((padded xs (Suc i) e)[i := v]) then (padded xs (Suc i) e)[i := v] ! j else e)
     = (if j = i then v else if j < length xs then xs ! j else e)"
  by (auto simp: padded_def nth_list_update nth_append)

lemma updateNode_leaf:
  assumes t: "tree_shape t" and i: "i < 2 ^ Depth t"
  shows "updateNode G t 0 (int i) v
    = Ret (t\<lparr>OccupiedLeaves := (padded (OccupiedLeaves t) (Suc i) (EmptyLeaf G))[i := v]\<rparr>)"
proof -
  have m: "shl1 (Depth t) = 2 ^ Depth t" "int i < 2 ^ Depth t" "0 < Depth t"
    using t int_less_pow [OF i] tree_shape_maxPos [OF t, of 0] by (auto simp: tree_shape_def)
  show ?thesis
  proof (cases "i < length (OccupiedLeaves t)")
    case True
    with m show ?thesis by (simp add: updateNode_def padded_id)
  next
    case False
    with m show ?thesis by (simp add: updateNode_def reserveLevel_def padded_def nat_add_distrib)
  qed
qed

lemma updateNode_inner:
  assumes t: "tree_shape t" and L: "L < Depth t" "L \<noteq> 0" and i: "i < 2 ^ (Depth t - L)"
  shows "updateNode G t L (int i) v
    = Ret (t\<lparr>OccupiedNodes := (OccupiedNodes t)[L - 1 :=
        (padded (OccupiedNodes t ! (L - 1)) (Suc i) (EmptyNodes t ! (L - 1)))[i := v]]\<rparr>)"
proof -
  have m: "shl1 (Depth t - L) = 2 ^ (Depth t - L)" "int i < 2 ^ (Depth t - L)"
    "L - 1 < length (OccupiedNodes t)" "L - 1 < length (EmptyNodes t)"
    using t L int_less_pow [OF i] tree_shape_maxPos [OF t, of L] by (auto simp: tree_shape_def)
  show ?thesis
  proof (cases "i < length (OccupiedNodes t ! (L - 1))")
    case True
    with m L show ?thesis by (simp add: updateNode_def padded_id)
  next
    case False
    with m L show ?thesis by (simp add: updateNode_def reserveLevel_def padded_def nat_add_distrib)
  qed
qed

lemma updateNode_spec:
  assumes t: "tree_shape t" and L: "L < Depth t" and i: "i < 2 ^ (Depth t - L)"
  shows "\<exists>t'. updateNode G t L (int i) v = Ret t' \<and> tree_shape t' \<and> Depth t' = Depth t
    \<and> (\<forall>K j. node_at G t' K j = (if K = L \<and> j = i then v else node_at G t K j))"
proof (cases "L = 0")
  case True
  let ?t' = "t\<lparr>OccupiedLeaves := (padded (OccupiedLeaves t) (Suc i) (EmptyLeaf G))[i := v]\<rparr>"
  have "updateNode G t L (int i) v = Ret ?t'" using updateNode_leaf [OF t] i True by simp
  moreover have "tree_shape ?t'" using t i True by (auto simp: tree_shape_def)
  moreover have "node_at G ?t' K j = (if K = L \<and> j = i then v else node_at G t K j)" for K j
  proof (cases "K = 0")
    case K: True
    let ?ls = "(padded (OccupiedLeaves t) (Suc i) (EmptyLeaf G))[i := v]"
    have "node_at G ?t' K j = (if j < length ?ls then ?ls ! j else EmptyLeaf G)"
      using K True L by (simp add: node_at_def)
    also have "\<dots> = (if j = i then v else leaf_at G t j)"
      unfolding leaf_at_def by (rule padded_write)
    finally show ?thesis using K True L node_at_0 [of t G j] by simp
  next
    case False
    then show ?thesis using True by (simp add: node_at_def)
  qed
  ultimately show ?thesis by (intro exI [of _ ?t']) simp
next
  case False
  let ?xs = "OccupiedNodes t ! (L - 1)" and ?e = "EmptyNodes t ! (L - 1)"
  let ?t' = "t\<lparr>OccupiedNodes := (OccupiedNodes t)[L - 1 := (padded ?xs (Suc i) ?e)[i := v]]\<rparr>"
  have len: "L - 1 < length (OccupiedNodes t)" using t L False by (auto simp: tree_shape_def)
  have lev: "OccupiedNodes ?t' ! (K - 1) = (if K = L then (padded ?xs (Suc i) ?e)[i := v]
    else OccupiedNodes t ! (K - 1))" if "K \<noteq> 0" for K
    using that False len by (auto simp: nth_list_update)
  have "updateNode G t L (int i) v = Ret ?t'" using updateNode_inner [OF t L False i] .
  moreover have "tree_shape ?t'"
    using t i L lev unfolding tree_shape_def by (auto simp del: nth_list_update)
  moreover have "node_at G ?t' K j = (if K = L \<and> j = i then v else node_at G t K j)" for K j
  proof (cases "K = L")
    case K: True
    let ?ls = "(padded ?xs (Suc i) ?e)[i := v]"
    have "node_at G ?t' K j = (if j < length ?ls then ?ls ! j else ?e)"
      using K False L lev [of L] by (simp add: node_at_def)
    also have "\<dots> = (if j = i then v else if j < length ?xs then ?xs ! j else ?e)"
      by (rule padded_write)
    finally show ?thesis using K False L by (simp add: node_at_def)
  next
    case KL: False
    then show ?thesis using lev [of K] by (cases "K = 0") (simp_all add: node_at_def)
  qed
  ultimately show ?thesis by (intro exI [of _ ?t']) simp
qed

text \<open>
  What the loop of \<^verbatim>\<open>Update\<close> has achieved when it is entered at level \<open>L\<close>: the levels below
  are untouched, the others hold the nodes of the tree with leaves \<open>g\<close>.
\<close>

definition level_post ::
  "'e gnark \<Rightarrow> (nat \<Rightarrow> 'e octuplet) \<Rightarrow> 'e Tree \<Rightarrow> nat \<Rightarrow> 'e Tree \<times> int \<times> 'e octuplet \<Rightarrow> bool" where
  "level_post G g t L r \<longleftrightarrow> (case r of (t', idx, current) \<Rightarrow>
     tree_shape t' \<and> Depth t' = Depth t \<and> idx = 0 \<and> current = mnode (hashLR G) g (Depth t) 0
     \<and> (\<forall>K j. K < L \<longrightarrow> node_at G t' K j = node_at G t K j)
     \<and> (\<forall>K j. L \<le> K \<and> K < Depth t \<and> j < 2 ^ (Depth t - K)
            \<longrightarrow> node_at G t' K j = mnode (hashLR G) g K j))"

lemma level_post_step:
  assumes post: "level_post G g t1 (Suc L) r" and D: "Depth t1 = Depth t"
    and low: "\<And>K j. K < L \<Longrightarrow> node_at G t1 K j = node_at G t K j"
    and lev: "\<And>j. j < 2 ^ (Depth t - L) \<Longrightarrow> node_at G t1 L j = mnode (hashLR G) g L j"
  shows "level_post G g t L r"
proof -
  obtain t' idx c where r: "r = (t', idx, c)" by (cases r)
  have "node_at G t' K j = node_at G t K j" if "K < L" for K j
    using that post low by (simp add: level_post_def r)
  moreover have "node_at G t' K j = mnode (hashLR G) g K j"
    if "L \<le> K" "K < Depth t" "j < 2 ^ (Depth t - K)" for K j
    using that post lev D by (cases "K = L") (simp_all add: level_post_def r)
  ultimately show ?thesis using post D by (simp add: level_post_def r)
qed

lemma update_loop_spec:
  assumes g: "\<forall>j. j \<noteq> p \<longrightarrow> g j = f j" and p: "p < 2 ^ Depth t"
  shows "tree_shape t \<Longrightarrow> L + n = Depth t \<Longrightarrow> current = mnode (hashLR G) g L (p div 2 ^ L) \<Longrightarrow>
    (\<forall>K j. L \<le> K \<and> K < Depth t \<and> j < 2 ^ (Depth t - K) \<longrightarrow> node_at G t K j = mnode (hashLR G) f K j) \<Longrightarrow>
    ret_or (level_post G g t L) (zero_panics G) (update_loop G n L (int (p div 2 ^ L)) current t)"
  using p
proof (induction n arbitrary: L current t)
  case 0
  then show ?case by (auto simp: level_post_def)
next
  case (Suc n)
  let ?H = "hashLR G" and ?i = "p div 2 ^ L"
  have L: "L < Depth t" using Suc.prems(2) by simp
  have i: "?i < 2 ^ (Depth t - L)"
  proof -
    have "2 ^ Depth t = 2 ^ L * (2 :: nat) ^ (Depth t - L)" using L by (simp add: power_add [symmetric])
    then show ?thesis using Suc.prems(5) by (simp add: less_mult_imp_div_less mult.commute)
  qed
  then have si: "sib ?i < 2 ^ (Depth t - L)"
    using sib_less [of ?i "Depth t - L - 1"] L by (simp add: Suc_diff_Suc)
  obtain t1 where t1: "updateNode G t L (int ?i) current = Ret t1" "tree_shape t1" "Depth t1 = Depth t"
    and node1: "\<And>K j. node_at G t1 K j = (if K = L \<and> j = ?i then current else node_at G t K j)"
    using updateNode_spec [OF Suc.prems(1) L i] by blast
  have lev: "node_at G t1 L j = mnode ?H g L j" if "j < 2 ^ (Depth t - L)" for j
    using that Suc.prems(3,4) L mnode_other [OF g, of j L ?H] by (simp add: node1)
  have next_cur: "join ?H ?i current (mnode ?H g L (sib ?i)) = mnode ?H g (Suc L) (p div 2 ^ Suc L)"
    using mnode_parent [of ?H ?i g L] by (simp only: Suc.prems(3) div_pow_Suc)
  have "ret_or (level_post G g t1 (Suc L)) (zero_panics G)
      (update_loop G n (Suc L) (int (p div 2 ^ Suc L)) (mnode ?H g (Suc L) (p div 2 ^ Suc L)) t1)"
    using t1 Suc.prems by (intro Suc.IH) (simp_all add: node1)
  then have ih: "ret_or (level_post G g t L) (zero_panics G)
      (update_loop G n (Suc L) (int (p div 2 ^ Suc L)) (mnode ?H g (Suc L) (p div 2 ^ Suc L)) t1)"
    by (rule ret_or_mono) (auto intro!: level_post_step [OF _ t1(3)] lev simp: node1)
  have nd: "ret_or (\<lambda>x. x = node_at G t1 L (sib ?i)) (zero_panics G) (getNode G t1 L (int (sib ?i)))"
    using t1 L si lev [OF si] by (intro getNode_spec) simp_all
  show ?case
  proof (cases "getNode G t1 L (int (sib ?i))")
    case (Ret x)
    with nd have x: "x = mnode ?H g L (sib ?i)" using lev si by simp
    have "update_loop G (Suc n) L (int ?i) current t =
      update_loop G n (Suc L) (int (p div 2 ^ Suc L)) (mnode ?H g (Suc L) (p div 2 ^ Suc L)) t1"
      using next_cur
      by (cases "odd ?i") (simp_all add: t1 xor_1_nat Ret and_1_nat drop_1_nat div_pow_Suc x join_def
          del: power_Suc mnode.simps)
    then show ?thesis using ih by (simp only:)
  qed (use nd in \<open>simp_all add: t1 xor_1_nat\<close>)
qed

lemma tree_shape_leaf_at: "tree_shape t \<Longrightarrow> 2 ^ Depth t \<le> i \<Longrightarrow> leaf_at G t i = EmptyLeaf G"
  by (auto simp: leaf_at_def tree_shape_def)

lemma Update_spec:
  assumes inv: "tree_inv G t" and p: "p < 2 ^ Depth t"
  shows "ret_or (\<lambda>t'. tree_inv G t' \<and> Depth t' = Depth t \<and> leaf_at G t' = (leaf_at G t)(p := v))
    (zero_panics G) (Update G t (int p) v)"
proof -
  let ?f = "leaf_at G t" and ?g = "(leaf_at G t)(p := v)" and ?H = "hashLR G"
  from inv have sh: "tree_shape t" by (simp add: tree_inv_def)
  then have D: "1 \<le> Depth t" by (simp add: tree_shape_def)
  have "ret_or (level_post G ?g t 0) (zero_panics G)
      (update_loop G (Depth t) 0 (int (p div 2 ^ 0)) v t)"
    using inv by (intro update_loop_spec [where f = ?f] sh p) (auto simp: tree_inv_def)
  then have loop: "ret_or (level_post G ?g t 0) (zero_panics G) (update_loop G (Depth t) 0 (int p) v t)"
    by simp
  have fin: "tree_inv G t2 \<and> Depth t2 = Depth t \<and> leaf_at G t2 = ?g"
    if t1: "tree_shape t1" "Depth t1 = Depth t"
      "\<And>K j. K < Depth t \<Longrightarrow> j < 2 ^ (Depth t - K) \<Longrightarrow> node_at G t1 K j = mnode ?H ?g K j"
      and t2: "t2 = t1\<lparr>Root := mnode ?H ?g (Depth t) 0\<rparr>" for t1 t2
  proof -
    have lf: "leaf_at G t1 j = ?g j" for j
      using t1(3) [of 0 j] node_at_0 [of t1 G j] D t1(2) p tree_shape_leaf_at [OF t1(1), of j G]
        tree_shape_leaf_at [OF sh, of j G] by (cases "j < 2 ^ Depth t") auto
    then have "leaf_at G t2 = ?g" by (intro ext) (simp add: t2)
    moreover have "tree_shape t2" using t1(1) by (simp add: t2 tree_shape_def)
    moreover have "node_at G t2 K j = mnode ?H ?g K j" if "K \<le> Depth t" "j < 2 ^ (Depth t - K)" for K j
      using that t1(2) t1(3) [of K j] by (cases "K = Depth t") (simp_all add: t2 node_at_Root)
    ultimately show ?thesis using t1(2) by (simp add: tree_inv_def t2)
  qed
  have "\<not> shl1 (Depth t) \<le> int p"
    using int_less_pow [OF p] tree_shape_maxPos [OF sh, of 0] by simp
  then have eq: "Update G t (int p) v = go_bind (update_loop G (Depth t) 0 (int p) v t)
      (\<lambda>(t', idx, current). if idx \<noteq> 0 then Panic ''idx should be zero''
             else Ret (t'\<lparr>Root := current\<rparr>))"
    by (simp add: Update_def)
  show ?thesis
    unfolding eq
  proof (rule ret_or_bind [OF loop])
    fix r
    assume "level_post G ?g t 0 r"
    then obtain t1 where r: "r = (t1, 0, mnode ?H ?g (Depth t) 0)"
      and t1: "tree_shape t1" "Depth t1 = Depth t"
        "\<And>K j. K < Depth t \<Longrightarrow> j < 2 ^ (Depth t - K) \<Longrightarrow> node_at G t1 K j = mnode ?H ?g K j"
      by (cases r) (auto simp: level_post_def)
    show "ret_or (\<lambda>t'. tree_inv G t' \<and> Depth t' = Depth t \<and> leaf_at G t' = ?g) (zero_panics G)
      (case r of (t', idx, current) \<Rightarrow> if idx \<noteq> 0 then Panic ''idx should be zero''
             else Ret (t'\<lparr>Root := current\<rparr>))"
      using fin [OF t1 refl] by (simp add: r del: fun_upd_apply)
  qed
qed

section \<open>Proofs\<close>

lemma recover_loop_nat:
  "recover_loop G ss (int i) v = (climb (hashLR G) ss i v, int (i div 2 ^ length ss))"
  by (induction ss arbitrary: i v)
    (auto simp: and_1_nat drop_1_nat join_def div_mult2_eq [symmetric])

lemma drop_bit_neg: "x < 0 \<Longrightarrow> drop_bit n x < (0 :: int)"
  by simp

lemma recover_loop_neg: "idx < 0 \<Longrightarrow> snd (recover_loop G ss idx v) < 0"
  by (induction ss arbitrary: idx v) (auto simp: Let_def split: if_splits)

definition path_ok :: "'e Proof \<Rightarrow> bool" where
  "path_ok p \<longleftrightarrow> 0 \<le> Path p \<and> Path p < 2 ^ length (Siblings p)"

text \<open>\<^verbatim>\<open>RecoverRoot\<close> panics exactly when the path does not fit the number of siblings.\<close>

lemma RecoverRoot_eq:
  "RecoverRoot G p leaf =
     (if path_ok p then Ret (climb (hashLR G) (Siblings p) (nat (Path p)) leaf)
      else Panic ''idx should be zero'')"
proof (cases "Path p < 0")
  case True
  then show ?thesis using recover_loop_neg [OF True, of G "Siblings p" leaf]
    by (auto simp: RecoverRoot_def path_ok_def split: prod.splits)
next
  case False
  define i where "i = nat (Path p)"
  with False have i: "Path p = int i" by simp
  have "(i div 2 ^ n = 0) = (int i < 2 ^ n)" for n
    by (metis div_eq_0_iff of_nat_less_iff of_nat_numeral of_nat_power power_not_zero zero_neq_numeral)
  then show ?thesis
    by (simp add: RecoverRoot_def i recover_loop_nat path_ok_def)
qed

lemma Verify_eq:
  "Verify G p leaf root =
     (if path_ok p
      then if climb (hashLR G) (Siblings p) (nat (Path p)) leaf = root then Ret ()
           else Err ErrInvalidProof
      else Panic ''idx should be zero'')"
  by (simp add: Verify_def RecoverRoot_eq list.rel_eq)

lemma prove_loop_spec:
  assumes inv: "tree_inv G t"
  shows "L + n = Depth t \<Longrightarrow> i < 2 ^ n \<Longrightarrow>
    ret_or (\<lambda>r. r = (msibs (hashLR G) (leaf_at G t) n L i, 0)) (zero_panics G)
      (prove_loop G t n L (int i))"
proof (induction n arbitrary: L i)
  case 0
  then show ?case by simp
next
  case (Suc n)
  let ?H = "hashLR G"
  have sh: "tree_shape t" and L: "L < Depth t" and n: "Depth t - L = Suc n"
    using inv Suc.prems by (auto simp: tree_inv_def)
  have "sib i < 2 ^ Suc n" using Suc.prems by (intro sib_less)
  with n L inv have node: "node_at G t L (sib i) = mnode ?H (leaf_at G t) L (sib i)"
    unfolding tree_inv_def by (metis less_imp_le)
  have nd: "ret_or (\<lambda>x. x = mnode ?H (leaf_at G t) L (sib i)) (zero_panics G) (getNode G t L (int (sib i)))"
    using getNode_spec [OF sh L _ node] \<open>sib i < 2 ^ Suc n\<close> n node by simp
  have ih: "ret_or (\<lambda>r. r = (msibs ?H (leaf_at G t) n (Suc L) (i div 2), 0)) (zero_panics G)
      (prove_loop G t n (Suc L) (int (i div 2)))"
    using Suc.prems by (intro Suc.IH) (simp_all add: div2_less)
  show ?case
    unfolding prove_loop.simps xor_1_nat One_nat_def drop_1_nat
    by (intro ret_or_bind [OF nd] ret_or_bind [OF ih]) auto
qed

lemma Prove_spec:
  assumes inv: "tree_inv G t" and p: "p < 2 ^ Depth t"
  shows "ret_or (\<lambda>pf. Path pf = int p
      \<and> Siblings pf = msibs (hashLR G) (leaf_at G t) (Depth t) 0 p) (zero_panics G) (Prove G t (int p))"
proof -
  have sh: "tree_shape t" using inv by (simp add: tree_inv_def)
  have "\<not> shl1 (Depth t) \<le> int p"
    using int_less_pow [OF p] tree_shape_maxPos [OF sh, of 0] by simp
  then have eq: "Prove G t (int p) = go_bind (prove_loop G t (Depth t) 0 (int p))
      (\<lambda>(siblings, idx). if idx \<noteq> 0 then Panic ''idx should be zero''
             else Ret \<lparr>Path = int p, Siblings = siblings\<rparr>)"
    by (simp add: Prove_def)
  show ?thesis
    unfolding eq using p by (intro ret_or_bind [OF prove_loop_spec [OF inv, of 0 "Depth t" p]]) auto
qed

text \<open>Out-of-range positions: an error from \<^verbatim>\<open>Prove\<close>, a panic from \<^verbatim>\<open>Update\<close>.\<close>

lemma Prove_out_of_range:
  "tree_shape t \<Longrightarrow> pos < 0 \<or> 2 ^ Depth t \<le> pos \<Longrightarrow> \<exists>e. Prove G t pos = Err e"
  using tree_shape_maxPos [of t 0] by (auto simp: Prove_def)

lemma Update_out_of_range:
  assumes sh: "tree_shape t" and pos: "pos < 0 \<or> 2 ^ Depth t \<le> pos"
  shows "\<exists>e. Update G t pos v = Panic e"
proof (cases "2 ^ Depth t \<le> pos")
  case True
  then show ?thesis using tree_shape_maxPos [OF sh, of 0] by (simp add: Update_def)
next
  case False
  then have neg: "pos < 0" using pos by simp
  obtain n where n: "Depth t = Suc n" using sh by (cases "Depth t") (auto simp: tree_shape_def)
  have "updateNode G t 0 pos v = Panic ''index out of range''"
    using neg n False tree_shape_maxPos [OF sh, of 0] by (simp add: updateNode_def)
  then show ?thesis using neg n False tree_shape_maxPos [OF sh, of 0] by (simp add: Update_def)
qed

section \<open>Binding\<close>

text \<open>The pairs hashed while climbing.\<close>

fun climb_inputs :: "('d \<Rightarrow> 'd \<Rightarrow> 'd) \<Rightarrow> 'd list \<Rightarrow> nat \<Rightarrow> 'd \<Rightarrow> ('d \<times> 'd) list" where
  "climb_inputs H [] i v = []"
| "climb_inputs H (s # ss) i v =
     (if odd i then (s, v) else (v, s)) # climb_inputs H ss (i div 2) (join H i v s)"

text \<open>
  Two openings of the same position that lead to the same root are equal, unless the
  hash collides on two of the pairs hashed by the two computations.
\<close>

lemma climb_binding:
  assumes "length ss = length ss'" and "climb H ss i v = climb H ss' i v'"
  shows "v = v' \<and> ss = ss' \<or> collide_at H (climb_inputs H ss i v) (climb_inputs H ss' i v')"
  using assms
proof (induction ss ss' arbitrary: i v v' rule: list_induct2)
  case Nil
  then show ?case by simp
next
  case (Cons s ss s' ss')
  from Cons.IH [of "i div 2" "join H i v s" "join H i v' s'"] Cons.prems
  consider "join H i v s = join H i v' s' \<and> ss = ss'"
    | "collide_at H (climb_inputs H ss (i div 2) (join H i v s))
        (climb_inputs H ss' (i div 2) (join H i v' s'))"
    by auto
  then show ?case
  proof cases
    case 1
    show ?thesis
    proof (cases "v = v' \<and> s = s'")
      case True
      with 1 show ?thesis by simp
    next
      case False
      with 1 show ?thesis by (auto simp: collide_at_def join_def split: if_splits)
    qed
  next
    case 2
    then show ?thesis by (auto intro!: collide_at_Cons)
  qed
qed

text \<open>The pairs hashed on the path of position \<open>p\<close> in the tree with leaves \<open>f\<close>.\<close>

definition leaves_path_inputs ::
  "'e gnark \<Rightarrow> (nat \<Rightarrow> 'e octuplet) \<Rightarrow> nat \<Rightarrow> nat \<Rightarrow> ('e octuplet \<times> 'e octuplet) list" where
  "leaves_path_inputs G f n p = climb_inputs (hashLR G) (msibs (hashLR G) f n 0 p) p (f p)"

definition path_inputs :: "'e gnark \<Rightarrow> 'e Tree \<Rightarrow> nat \<Rightarrow> ('e octuplet \<times> 'e octuplet) list" where
  "path_inputs G t p = leaves_path_inputs G (leaf_at G t) (Depth t) p"

definition proof_inputs :: "'e gnark \<Rightarrow> 'e Proof \<Rightarrow> 'e octuplet \<Rightarrow> ('e octuplet \<times> 'e octuplet) list" where
  "proof_inputs G pf leaf = climb_inputs (hashLR G) (Siblings pf) (nat (Path pf)) leaf"

lemma Verify_binding_leaves:
  assumes root: "root = mnode (hashLR G) f n 0" and ok: "Verify G pf leaf root = Ret ()"
    and len: "length (Siblings pf) = n"
  shows "0 \<le> Path pf \<and> Path pf < 2 ^ n
    \<and> (leaf = f (nat (Path pf)) \<and> Siblings pf = msibs (hashLR G) f n 0 (nat (Path pf))
       \<or> collide_at (hashLR G) (proof_inputs G pf leaf) (leaves_path_inputs G f n (nat (Path pf))))"
proof -
  let ?H = "hashLR G" and ?p = "nat (Path pf)"
  from ok have p: "path_ok pf" and c: "climb ?H (Siblings pf) ?p leaf = root"
    by (auto simp: Verify_eq split: if_splits)
  then have "?p < 2 ^ n" using len by (auto simp: path_ok_def nat_less_iff)
  then have "climb ?H (msibs ?H f n 0 ?p) ?p (f ?p) = root"
    using climb_msibs_id [of ?p n ?H f] root by simp
  then have "leaf = f ?p \<and> Siblings pf = msibs ?H f n 0 ?p
     \<or> collide_at ?H (proof_inputs G pf leaf) (leaves_path_inputs G f n ?p)"
    unfolding proof_inputs_def leaves_path_inputs_def using c len by (intro climb_binding) simp_all
  then show ?thesis using p len by (simp add: path_ok_def)
qed

lemma Verify_binding:
  assumes "tree_inv G t" and "Verify G pf leaf (Root t) = Ret ()" and "length (Siblings pf) = Depth t"
  shows "0 \<le> Path pf \<and> Path pf < 2 ^ Depth t
    \<and> (leaf = leaf_at G t (nat (Path pf))
         \<and> Siblings pf = msibs (hashLR G) (leaf_at G t) (Depth t) 0 (nat (Path pf))
       \<or> collide_at (hashLR G) (proof_inputs G pf leaf) (path_inputs G t (nat (Path pf))))"
  using Verify_binding_leaves [OF tree_inv_Root [OF assms(1)] assms(2,3)] unfolding path_inputs_def .

section \<open>The empty tree\<close>

lemma mnode_const: "mnode H (\<lambda>_. e) L i = mnode H (\<lambda>_. e) L 0"
proof (induction L arbitrary: i)
  case (Suc L)
  show ?case using Suc.IH [of "2 * i"] Suc.IH [of "Suc (2 * i)"] Suc.IH [of 1] by simp
qed simp

lemma empty_nodes_eq:
  "empty_nodes G n (mnode (hashLR G) (\<lambda>_. e) L 0) =
     (map (\<lambda>K. mnode (hashLR G) (\<lambda>_. e) K 0) [Suc L..<Suc L + n], mnode (hashLR G) (\<lambda>_. e) (L + n) 0)"
proof (induction n arbitrary: L)
  case (Suc n)
  have "hashLR G (mnode (hashLR G) (\<lambda>_. e) L 0) (mnode (hashLR G) (\<lambda>_. e) L 0)
      = mnode (hashLR G) (\<lambda>_. e) (Suc L) 0"
    using mnode_const [of "hashLR G" e L 1] by simp
  then show ?case
    using Suc.IH [of "Suc L"] by (simp add: upt_conv_Cons del: mnode.simps upt_Suc)
qed simp

definition chosen_depth :: "int list \<Rightarrow> nat" where
  "chosen_depth depths = (if depths \<noteq> [] \<and> depths ! 0 > 0 then nat (depths ! 0) else DefaultDepth)"

lemma NewEmptyTree_spec:
  assumes D: "chosen_depth depths < 63"
  shows "tree_inv G (NewEmptyTree G depths) \<and> Depth (NewEmptyTree G depths) = chosen_depth depths
    \<and> leaf_at G (NewEmptyTree G depths) = (\<lambda>_. EmptyLeaf G)"
proof -
  let ?D = "chosen_depth depths" and ?t = "NewEmptyTree G depths" and ?e = "EmptyLeaf G"
  let ?m = "\<lambda>K. mnode (hashLR G) (\<lambda>_. ?e) K 0"
  have D1: "1 \<le> ?D" by (auto simp: chosen_depth_def DefaultDepth_def)
  have e: "empty_nodes G (?D - 1) ?e = (map ?m [1..<?D], ?m (?D - 1))"
    using empty_nodes_eq [of G "?D - 1" ?e 0] D1 by simp
  have root: "hashLR G (?m (?D - 1)) (?m (?D - 1)) = ?m ?D"
    using D1 mnode_const [of "hashLR G" ?e "?D - 1" 1] by (cases ?D) simp_all
  have t: "?t = \<lparr>Depth = ?D, Root = ?m ?D, OccupiedLeaves = [],
          OccupiedNodes = replicate (?D - 1) [], EmptyNodes = map ?m [1..<?D]\<rparr>"
    unfolding NewEmptyTree_def chosen_depth_def [symmetric] Let_def e prod.case root ..
  have lf: "leaf_at G ?t = (\<lambda>_. ?e)" by (simp add: t leaf_at_def fun_eq_iff)
  have "tree_shape ?t" using D D1 by (auto simp: t tree_shape_def)
  moreover have "node_at G ?t K j = mnode (hashLR G) (\<lambda>_. ?e) K j" if "K \<le> ?D" "j < 2 ^ (?D - K)" for K j
    using that D1 mnode_const [of "hashLR G" ?e K j] by (auto simp: t node_at_def)
  ultimately show ?thesis using lf by (auto simp: tree_inv_def t)
qed

section \<open>The interface the accumulator relies on\<close>

text \<open>
  An authenticated array: slots that can be overwritten, a digest of the contents, and
  openings from which the digest can be recomputed for any value of the slot. \<open>bad\<close> are
  the panics that the implementation may raise instead of returning.
\<close>

locale auth_array =
  fixes inv :: "'t \<Rightarrow> bool"
    and dim :: "'t \<Rightarrow> nat"
    and get :: "'t \<Rightarrow> nat \<Rightarrow> 'd"
    and root :: "'t \<Rightarrow> 'd"
    and contents_root :: "nat \<Rightarrow> (nat \<Rightarrow> 'd) \<Rightarrow> 'd"
    and upd :: "'t \<Rightarrow> nat \<Rightarrow> 'd \<Rightarrow> 't go"
    and open_at :: "'t \<Rightarrow> nat \<Rightarrow> 'p go"
    and recover :: "'p \<Rightarrow> 'd \<Rightarrow> 'd go"
    and path :: "'p \<Rightarrow> int"
    and psize :: "'p \<Rightarrow> nat"
    and bad :: "string set"
  assumes root_contents: "inv t \<Longrightarrow> root t = contents_root (dim t) (get t)"
    and upd_spec: "inv t \<Longrightarrow> i < 2 ^ dim t \<Longrightarrow>
      ret_or (\<lambda>t'. inv t' \<and> dim t' = dim t \<and> get t' = (get t)(i := v)) bad (upd t i v)"
    and open_spec: "inv t \<Longrightarrow> i < 2 ^ dim t \<Longrightarrow>
      ret_or (\<lambda>p. path p = int i \<and> psize p = dim t
          \<and> (\<forall>v. recover p v = Ret (contents_root (dim t) ((get t)(i := v))))) bad (open_at t i)"
begin

text \<open>An opening of the current contents leads to the root.\<close>

lemma open_current:
  assumes "inv t" and "i < 2 ^ dim t"
  shows "ret_or (\<lambda>p. path p = int i \<and> psize p = dim t \<and> recover p (get t i) = Ret (root t)) bad (open_at t i)"
  using open_spec [OF assms] by (rule ret_or_mono) (simp_all add: root_contents assms)

text \<open>
  An opening taken \<^emph>\<open>after\<close> an update authenticates the old value against the old root and
  the new value against the new root: one opening audits the update.
\<close>

lemma audited_update:
  assumes inv: "inv t" and i: "i < 2 ^ dim t"
  shows "ret_or (\<lambda>(t', p). inv t' \<and> dim t' = dim t \<and> get t' = (get t)(i := v) \<and> path p = int i
      \<and> psize p = dim t \<and> recover p (get t i) = Ret (root t) \<and> recover p v = Ret (root t')) bad
    (go_bind (upd t i v) (\<lambda>t'. go_bind (open_at t' i) (\<lambda>p. Ret (t', p))))"
proof (rule ret_or_bind [OF upd_spec [OF inv i]])
  fix t'
  assume t': "inv t' \<and> dim t' = dim t \<and> get t' = (get t)(i := v)"
  with i have op: "ret_or (\<lambda>p. path p = int i \<and> psize p = dim t
      \<and> (\<forall>w. recover p w = Ret (contents_root (dim t) ((get t)(i := w))))) bad (open_at t' i)"
    using open_spec [of t' i] by simp
  show "ret_or (\<lambda>(t', p). inv t' \<and> dim t' = dim t \<and> get t' = (get t)(i := v) \<and> path p = int i
      \<and> psize p = dim t \<and> recover p (get t i) = Ret (root t) \<and> recover p v = Ret (root t')) bad
    (go_bind (open_at t' i) (\<lambda>p. Ret (t', p)))"
    by (rule ret_or_bind [OF op]) (use t' root_contents [OF inv] root_contents [of t'] in simp)
qed

end

interpretation smt: auth_array "tree_inv G" Depth "leaf_at G" Root
  "\<lambda>n f. mnode (hashLR G) f n 0" "\<lambda>t i v. Update G t (int i) v" "\<lambda>t i. MustProve G t (int i)"
  "RecoverRoot G" Path "\<lambda>p. length (Siblings p)" "zero_panics G"
  for G :: "'e gnark"
proof
  fix t :: "'e Tree" and i v
  show "Root t = mnode (hashLR G) (leaf_at G t) (Depth t) 0" if "tree_inv G t"
    using that by (rule tree_inv_Root)
  show "ret_or (\<lambda>t'. tree_inv G t' \<and> Depth t' = Depth t \<and> leaf_at G t' = (leaf_at G t)(i := v))
      (zero_panics G) (Update G t (int i) v)" if "tree_inv G t" "i < 2 ^ Depth t"
    using that by (rule Update_spec)
  show "ret_or (\<lambda>p. Path p = int i \<and> length (Siblings p) = Depth t \<and> (\<forall>v. RecoverRoot G p v
        = Ret (mnode (hashLR G) ((leaf_at G t)(i := v)) (Depth t) 0))) (zero_panics G)
      (MustProve G t (int i))" if "tree_inv G t" "i < 2 ^ Depth t"
    unfolding MustProve_def
    by (rule ret_or_must, rule ret_or_mono [OF Prove_spec [OF that]])
      (use that in \<open>auto simp: RecoverRoot_eq path_ok_def climb_msibs int_less_pow\<close>)
qed

section \<open>Properties\<close>

text \<open>
  C14: Updating a leaf of a well-formed tree changes exactly that leaf and keeps every stored node
  equal to the hash of its children, whatever positions were occupied before. The only other
  outcome is the panic on an inner node that hashes to zero.
\<close>

theorem update_changes_one_leaf:
  assumes "tree_inv G t" and "p < 2 ^ Depth t"
  shows "ret_or (\<lambda>t'. tree_inv G t' \<and> Depth t' = Depth t \<and> leaf_at G t' = (leaf_at G t)(p := v))
    (zero_panics G) (Update G t (int p) v)"
  using assms by (rule Update_spec)

text \<open>A compression function that is never zero, so that no update of the tree panics.\<close>

definition one_G :: "koala gnark" where
  "one_G = koala_ops (\<lambda>_ _. let e = koala_of_nat 1 in Oct e e e e e e e e)"

lemma one_G_Ret: "ret_or P (zero_panics one_G) m \<Longrightarrow> \<exists>x. m = Ret x \<and> P x"
proof -
  have "koala_nat (koala_of_nat 1) \<noteq> koala_nat (koala_of_nat 0)" by (simp add: koala_nat_of_nat)
  then have "koala_of_nat 1 \<noteq> koala_of_nat 0" by metis
  then have "zero_panics one_G = {}"
    by (simp add: zero_panics_def hashLR_eq) (simp add: one_G_def koala_ops_def oct_zero_def Let_def)
  then show "ret_or P (zero_panics one_G) m \<Longrightarrow> \<exists>x. m = Ret x \<and> P x" by (cases m) simp_all
qed

theorem update_changes_one_leaf_witness:
  "tree_inv one_G (NewEmptyTree one_G [3])
    \<and> (\<exists>t'. Update one_G (NewEmptyTree one_G [3]) (int 5) (MaxKoalaOctuplet one_G) = Ret t' \<and> tree_inv one_G t' \<and> Depth t' = 3
        \<and> leaf_at one_G t' = (\<lambda>_. EmptyLeaf one_G)(5 := MaxKoalaOctuplet one_G))"
proof -
  let ?t = "NewEmptyTree one_G [3]"
  have t: "tree_inv one_G ?t" "Depth ?t = 3" "leaf_at one_G ?t = (\<lambda>_. EmptyLeaf one_G)"
    using NewEmptyTree_spec [of "[3]" one_G] by (simp_all add: chosen_depth_def)
  have "(5 :: nat) < 2 ^ Depth ?t" by (simp add: t)
  from one_G_Ret [OF update_changes_one_leaf [OF t(1) this, of "MaxKoalaOctuplet one_G"]] show ?thesis
    using t by auto
qed

text \<open>
  C25: One Merkle proof audits an update: the proof of the updated position, taken after the update,
  verifies the old leaf against the old root and the new leaf against the new root, and its path
  has one sibling per level.
\<close>

theorem proof_audits_update:
  assumes "tree_inv G t" and "p < 2 ^ Depth t"
  shows "ret_or (\<lambda>(t', pf). leaf_at G t' = (leaf_at G t)(p := v) \<and> length (Siblings pf) = Depth t
      \<and> Verify G pf (leaf_at G t p) (Root t) = Ret () \<and> Verify G pf v (Root t') = Ret ()) (zero_panics G)
    (go_bind (Update G t (int p) v) (\<lambda>t'. go_bind (MustProve G t' (int p)) (\<lambda>pf. Ret (t', pf))))"
  by (rule ret_or_mono [OF smt.audited_update [OF assms]]) (auto simp: Verify_def list.rel_eq)

theorem proof_audits_update_witness:
  "\<exists>t' pf. Update one_G (NewEmptyTree one_G [3]) (int 5) (MaxKoalaOctuplet one_G) = Ret t' \<and> MustProve one_G t' (int 5) = Ret pf
    \<and> length (Siblings pf) = 3 \<and> Verify one_G pf (EmptyLeaf one_G) (Root (NewEmptyTree one_G [3])) = Ret ()
    \<and> Verify one_G pf (MaxKoalaOctuplet one_G) (Root t') = Ret ()"
proof -
  let ?t = "NewEmptyTree one_G [3]"
  have t: "tree_inv one_G ?t" "Depth ?t = 3" "leaf_at one_G ?t = (\<lambda>_. EmptyLeaf one_G)"
    using NewEmptyTree_spec [of "[3]" one_G] by (simp_all add: chosen_depth_def)
  have "(5 :: nat) < 2 ^ Depth ?t" by (simp add: t)
  from one_G_Ret [OF proof_audits_update [OF t(1) this, of "MaxKoalaOctuplet one_G"]] show ?thesis
    using t by (auto simp: go_simps)
qed

text \<open>
  C13: Binding. A proof of the right length that verifies a leaf against the root of a well-formed tree
  has a path inside the tree and opens the leaf that the tree holds there, with the siblings of
  the tree, unless the node hash collides on two explicitly given inputs.
\<close>

theorem verified_leaf_is_stored:
  assumes "tree_inv G t" and "Verify G pf leaf (Root t) = Ret ()" and "length (Siblings pf) = Depth t"
  shows "0 \<le> Path pf \<and> Path pf < 2 ^ Depth t
    \<and> (leaf = leaf_at G t (nat (Path pf))
         \<and> Siblings pf = msibs (hashLR G) (leaf_at G t) (Depth t) 0 (nat (Path pf))
       \<or> collide_at (hashLR G) (proof_inputs G pf leaf) (path_inputs G t (nat (Path pf))))"
  using assms by (rule Verify_binding)

theorem verified_leaf_is_stored_witness:
  "\<exists>pf leaf. Verify (koala_ops (\<lambda>a b. b)) pf leaf (Root (NewEmptyTree (koala_ops (\<lambda>a b. b)) [1])) = Ret ()
    \<and> length (Siblings pf) = 1 \<and> 0 \<le> Path pf \<and> Path pf < 2 ^ 1"
proof -
  let ?G = "koala_ops (\<lambda>a b. b)" let ?t = "NewEmptyTree ?G [1]"
  let ?pf = "\<lparr>Path = 1, Siblings = [EmptyLeaf ?G]\<rparr>"
  have t: "tree_inv ?G ?t" "Depth ?t = 1" using NewEmptyTree_spec [of "[1]" ?G] by (simp_all add: chosen_depth_def)
  have "Root ?t = hashLR ?G (EmptyLeaf ?G) (EmptyLeaf ?G)" by (simp add: NewEmptyTree_def)
  then have v: "Verify ?G ?pf (EmptyLeaf ?G) (Root ?t) = Ret ()"
    by (simp add: Verify_eq path_ok_def join_def)
  have l: "length (Siblings ?pf) = Depth ?t" by (simp add: t)
  show ?thesis using verified_leaf_is_stored [OF t(1) v l] v by (intro exI [of _ ?pf] exI [of _ "EmptyLeaf ?G"]) (simp add: t)
qed

text \<open>
  \<^verbatim>\<open>Verify\<close> has exactly three outcomes, decided by the path and the recomputed root alone: it panics
  iff the path is outside \<open>[0, 2 ^ length siblings)\<close>, accepts iff the recomputed root is the given
  root, and otherwise returns the invalid-proof error. The number of siblings is not compared with
  the depth of any tree.
\<close>

theorem verify_outcomes:
  "Verify G p leaf root =
     (if 0 \<le> Path p \<and> Path p < 2 ^ length (Siblings p)
      then if climb (hashLR G) (Siblings p) (nat (Path p)) leaf = root then Ret () else Err ErrInvalidProof
      else Panic ''idx should be zero'')"
  unfolding Verify_eq path_ok_def ..

text \<open>
  Positions outside the tree are refused: \<^verbatim>\<open>Prove\<close> returns an error, \<^verbatim>\<open>Update\<close> panics,
  and \<^verbatim>\<open>GetLeaf\<close> returns an error.
\<close>

theorem out_of_range_refused:
  assumes "tree_shape t" and "pos < 0 \<or> 2 ^ Depth t \<le> pos"
  shows "(\<exists>e. Prove G t pos = Err e) \<and> (\<exists>e. Update G t pos v = Panic e) \<and> (\<exists>e. GetLeaf G t pos = Err e)"
  using Prove_out_of_range [OF assms] Update_out_of_range [OF assms] assms(2) tree_shape_maxPos [OF assms(1), of 0]
  by (auto simp: GetLeaf_def)

text \<open>
  The empty tree of any depth below 63 is well formed, has the requested depth (40 when none or a
  non-positive one is requested) and holds the empty leaf everywhere.
\<close>

theorem empty_tree_well_formed:
  assumes "chosen_depth depths < 63"
  shows "tree_inv G (NewEmptyTree G depths) \<and> Depth (NewEmptyTree G depths) = chosen_depth depths
    \<and> leaf_at G (NewEmptyTree G depths) = (\<lambda>_. EmptyLeaf G)"
  using assms by (rule NewEmptyTree_spec)

end
