(* ===== verification/Acc_Leaf.thy ===== *)
theory Acc_Leaf
  imports Go_Types Smt
begin

text \<open>
  The leaves of the accumulator (\<^verbatim>\<open>accumulator/common.go\<close>, \<^verbatim>\<open>leafopening.go\<close>): an opening
  links a hashed key and a hashed value to the positions of the previous and of the next key;
  the leaf stored in the tree is its hash.

  The key and value types are parameters \<^verbatim>\<open>K, V io.WriterTo\<close> of the code. Here they are type
  variables with their \<^verbatim>\<open>WriteTo\<close> methods \<open>wk\<close> and \<open>wv\<close>, the list of the byte strings written.
\<close>

section \<open>Hashing what is written\<close>

definition hash_run :: "'e gnark \<Rightarrow> writes \<Rightarrow> 'e MDHasher" where
  "hash_run G ws = foldl (\<lambda>d w. fst (Write G d w)) (NewMDHasher G) ws"

definition hash_go :: "'e gnark \<Rightarrow> writes \<Rightarrow> 'e octuplet go" where
  "hash_go G ws = go_bind (Sum G (hash_run G ws) []) (\<lambda>(digest, _). must (SetBytes G digest))"

text \<open>The digest without the detour through bytes (\<open>hash_go_eq\<close> below).\<close>

definition hash :: "'e gnark \<Rightarrow> writes \<Rightarrow> 'e octuplet" where
  "hash G ws = fst (SumElement G (hash_run G ws))"

section \<open>Leaf openings\<close>

record 'e LeafOpening =
  Prev :: int
  Next :: int
  HKey :: "'e octuplet"
  HVal :: "'e octuplet"

record ('e, 'k, 'v) KVOpeningTuple =
  Opening :: "'e LeafOpening"
  Key :: 'k
  Value :: 'v

definition leaf_WriteTo :: "'e gnark \<Rightarrow> 'e LeafOpening \<Rightarrow> (writes \<times> nat) go" where
  "leaf_WriteTo G leaf =
     go_bind (WriteInt64On64Bytes (Prev leaf)) (\<lambda>w0.
     go_bind (WriteInt64On64Bytes (Next leaf)) (\<lambda>w1.
     let w2 = ToBytes G (HKey leaf); w3 = ToBytes G (HVal leaf);
         total = length w0 + length w1 + length w2 + length w3
     in if total \<noteq> 192 then Panic ''bad size'' else Ret ([w0, w1, w2, w3], total)))"

definition leaf_Hash_go :: "'e gnark \<Rightarrow> 'e LeafOpening \<Rightarrow> 'e octuplet go" where
  "leaf_Hash_go G leaf = go_bind (leaf_WriteTo G leaf) (\<lambda>(ws, _). hash_go G ws)"

text \<open>The hash of an opening, which \<^verbatim>\<open>Hash\<close> always returns (\<open>leaf_Hash_go_eq\<close> below).\<close>

definition leaf_Hash :: "'e gnark \<Rightarrow> 'e LeafOpening \<Rightarrow> 'e octuplet" where
  "leaf_Hash G leaf =
     hash G [int64_bytes (Prev leaf), int64_bytes (Next leaf), ToBytes G (HKey leaf), ToBytes G (HVal leaf)]"

definition Head :: "'e gnark \<Rightarrow> 'e LeafOpening" where
  "Head G = \<lparr>Prev = 0, Next = 1, HKey = oct_zero G, HVal = oct_zero G\<rparr>"

definition Tail :: "'e gnark \<Rightarrow> 'e LeafOpening" where
  "Tail G = \<lparr>Prev = 0, Next = 1, HKey = MaxKoalaOctuplet G, HVal = oct_zero G\<rparr>"

definition HeadOrTail :: "'e gnark \<Rightarrow> 'e LeafOpening \<Rightarrow> bool" where
  "HeadOrTail G leaf \<longleftrightarrow> IsMaxOctuplet G (HKey leaf) \<or> HKey leaf = oct_zero G"

definition CheckAndLeaf ::
  "'e gnark \<Rightarrow> ('k \<Rightarrow> writes) \<Rightarrow> ('v \<Rightarrow> writes) \<Rightarrow> ('e, 'k, 'v) KVOpeningTuple \<Rightarrow> 'e octuplet go" where
  "CheckAndLeaf G wk wv t =
     (if HeadOrTail G (Opening t) then Ret (leaf_Hash G (Opening t))
      else if HKey (Opening t) \<noteq> hash G (wk (Key t)) then Err ''inconsistent key and leaf openings''
      else if HVal (Opening t) \<noteq> hash G (wv (Value t)) then Err ''inconsistent val and leaf opening''
      else Ret (leaf_Hash G (Opening t)))"

definition CopyWithPrev :: "'e LeafOpening \<Rightarrow> int \<Rightarrow> 'e LeafOpening" where
  "CopyWithPrev leaf prev = leaf\<lparr>Prev := prev\<rparr>"

definition CopyWithNext :: "'e LeafOpening \<Rightarrow> int \<Rightarrow> 'e LeafOpening" where
  "CopyWithNext leaf nxt = leaf\<lparr>Next := nxt\<rparr>"

definition MatchValue :: "'e gnark \<Rightarrow> 'e LeafOpening \<Rightarrow> writes \<Rightarrow> bool" where
  "MatchValue G l v \<longleftrightarrow> HVal l = hash G v"

definition MatchKey :: "'e gnark \<Rightarrow> 'e LeafOpening \<Rightarrow> writes \<Rightarrow> bool" where
  "MatchKey G l k \<longleftrightarrow> HKey l = hash G k"

definition tuple_CopyWithPrev :: "('e, 'k, 'v) KVOpeningTuple \<Rightarrow> int \<Rightarrow> ('e, 'k, 'v) KVOpeningTuple" where
  "tuple_CopyWithPrev t prev = t\<lparr>Opening := (Opening t)\<lparr>Prev := prev\<rparr>\<rparr>"

definition tuple_CopyWithNext :: "('e, 'k, 'v) KVOpeningTuple \<Rightarrow> int \<Rightarrow> ('e, 'k, 'v) KVOpeningTuple" where
  "tuple_CopyWithNext t nxt = t\<lparr>Opening := (Opening t)\<lparr>Next := nxt\<rparr>\<rparr>"

definition CopyWithVal ::
  "'e gnark \<Rightarrow> ('v \<Rightarrow> writes) \<Rightarrow> ('e, 'k, 'v) KVOpeningTuple \<Rightarrow> 'v \<Rightarrow> ('e, 'k, 'v) KVOpeningTuple" where
  "CopyWithVal G wv t val =
     t\<lparr>Value := val, Opening := (Opening t)\<lparr>HVal := hash G (wv val)\<rparr>\<rparr>"

lemma CheckAndLeaf_cases:
  "CheckAndLeaf G wk wv t = Ret l \<longleftrightarrow> l = leaf_Hash G (Opening t) \<and>
     (HeadOrTail G (Opening t)
      \<or> HKey (Opening t) = hash G (wk (Key t)) \<and> HVal (Opening t) = hash G (wv (Value t)))"
  by (auto simp: CheckAndLeaf_def)

lemma CheckAndLeaf_not_Panic: "CheckAndLeaf G wk wv t \<noteq> Panic m"
  by (simp add: CheckAndLeaf_def)

lemma HeadOrTail_iff: "HeadOrTail G l \<longleftrightarrow> HKey l = oct_zero G \<or> HKey l = MaxKoalaOctuplet G"
  by (auto simp: HeadOrTail_def IsMaxOctuplet_iff)

section \<open>The elements that are hashed\<close>

text \<open>Two bytes left-padded with two zero bytes are the canonical encoding of an element.\<close>

fun pad_elems :: "'e gnark \<Rightarrow> bytes \<Rightarrow> 'e list" where
  "pad_elems G (p # q # r) = the (felt_set_canonical G [0, 0, p, q]) # pad_elems G r"
| "pad_elems G _ = []"

definition int64_elems :: "'e gnark \<Rightarrow> int \<Rightarrow> 'e list" where
  "int64_elems G x = pad_elems G (replicate 24 0 @ be_bytes 8 (u64 x))"

definition leaf_elems :: "'e gnark \<Rightarrow> 'e LeafOpening \<Rightarrow> 'e list" where
  "leaf_elems G l = int64_elems G (Prev l) @ int64_elems G (Next l) @ oct_list (HKey l) @ oct_list (HVal l)"

definition leaf_inputs :: "'e gnark \<Rightarrow> 'e LeafOpening \<Rightarrow> ('e octuplet \<times> 'e octuplet) list" where
  "leaf_inputs G l = md_inputs G (oct_zero G) (leaf_elems G l)"

definition leaf_ok :: "'e LeafOpening \<Rightarrow> bool" where
  "leaf_ok l \<longleftrightarrow> int64_ok (Prev l) \<and> int64_ok (Next l)"

lemma left_pad_pairs_append:
  "length a mod 2 = 0 \<Longrightarrow> left_pad_pairs (a @ b) = left_pad_pairs a @ left_pad_pairs b"
  by (induction a rule: left_pad_pairs.induct) (auto simp: mod_Suc split: if_splits)

lemma left_pad_zeros: "left_pad_pairs (replicate 24 0) = replicate 48 0"
  by code_simp

lemma int64_bytes_pad: "int64_bytes x = left_pad_pairs (replicate 24 0 @ be_bytes 8 (u64 x))"
  by (subst left_pad_pairs_append) (simp_all add: int64_bytes_def left_pad_zeros)

lemma hash_run_snoc: "hash_run G (ws @ [w]) = fst (Write G (hash_run G ws) w)"
  by (simp add: hash_run_def)

context felt
begin

lemma pad_elems_bytes: "length b mod 2 = 0 \<Longrightarrow>
  concat (map (felt_bytes G) (pad_elems G b)) = left_pad_pairs b \<and> 2 * length (pad_elems G b) = length b"
proof (induction b rule: left_pad_pairs.induct)
  case (1 p q r)
  obtain x where x: "felt_set_canonical G [0, 0, p, q] = Some x" using small_canonical by blast
  then have "felt_bytes G x = [0, 0, p, q]" by (rule canonical_bytes)
  with x 1 show ?case by (simp add: mod_Suc split: if_splits)
qed (simp_all add: mod_Suc)

lemma int64_elems_bytes:
  "concat (map (felt_bytes G) (int64_elems G x)) = int64_bytes x" "length (int64_elems G x) = 16"
  using pad_elems_bytes [of "replicate 24 0 @ be_bytes 8 (u64 x)"]
  by (simp_all add: int64_elems_def int64_bytes_pad)

lemma int64_elems_inj: "int64_elems G x = int64_elems G y \<Longrightarrow> int64_ok x \<Longrightarrow> int64_ok y \<Longrightarrow> x = y"
  using int64_elems_bytes(1) [of x] int64_elems_bytes(1) [of y] by (auto intro: int64_bytes_inj)

lemma Write_int64: "Write G d (int64_bytes x) = (WriteElements d (int64_elems G x), 64, None)"
  using Write_elements [of d "int64_elems G x"] by (simp add: int64_elems_bytes)

lemma hash_go_eq: "hash_go G ws = Ret (hash G ws)"
  by (simp add: hash_go_def hash_def Sum_Nil SetBytes_ToBytes SumElement_def Let_def)

lemma leaf_WriteTo_eq:
  "leaf_WriteTo G l = Ret ([int64_bytes (Prev l), int64_bytes (Next l), ToBytes G (HKey l), ToBytes G (HVal l)], 192)"
  by (simp add: leaf_WriteTo_def WriteInt64On64Bytes_eq ToBytes_length Let_def)

lemma leaf_Hash_go_eq: "leaf_Hash_go G l = Ret (leaf_Hash G l)"
  by (simp add: leaf_Hash_go_def leaf_WriteTo_eq hash_go_eq leaf_Hash_def)

lemma leaf_Hash_eq: "leaf_Hash G l = sum_loop G (oct_zero G) (leaf_elems G l)"
  by (simp add: leaf_Hash_def hash_def hash_run_def Write_int64 Write_ToBytes WriteElements_def
      NewMDHasher_def SumElement_def Let_def leaf_elems_def)

lemma length_leaf_elems: "length (leaf_elems G l) = 48"
  by (simp add: leaf_elems_def int64_elems_bytes)

lemma leaf_elems_inj:
  assumes "leaf_elems G l = leaf_elems G l'" and "leaf_ok l" and "leaf_ok l'"
  shows "l = (l' :: 'e LeafOpening)"
proof -
  have "int64_elems G (Prev l) = int64_elems G (Prev l')" "int64_elems G (Next l) = int64_elems G (Next l')"
    "HKey l = HKey l'" "HVal l = HVal l'"
    using assms(1) by (simp_all add: leaf_elems_def int64_elems_bytes)
  then show ?thesis using assms(2,3) int64_elems_inj
    by (intro LeafOpening.equality) (auto simp: leaf_ok_def)
qed

text \<open>Two openings with the same hash are equal, unless the compression function collides.\<close>

lemma leaf_Hash_binding:
  assumes "leaf_Hash G l = leaf_Hash G l'" and "leaf_ok l" and "leaf_ok l'"
  shows "l = l' \<or> collide_at (compress_p2 G) (leaf_inputs G l) (leaf_inputs G l')"
  using sum_loop_binding [of "leaf_elems G l" "leaf_elems G l'" G "oct_zero G" "oct_zero G"]
    assms leaf_elems_inj [of l l']
  by (auto simp: length_leaf_elems leaf_Hash_eq leaf_inputs_def)

end

end
