(* ===== verification/Acc_Links.thy ===== *)
theory Acc_Links
  imports Acc_Leaf
begin

text \<open>
  The abstract accumulator: a partial map from positions to leaf openings that form one
  doubly linked list, sorted by hashed key, from the head at position 0 to the tail at
  position 1. The prover state and the verifier state both represent such a map; its
  user-visible contents are the pairs of a hashed key and a hashed value (\<open>bindings\<close>).
\<close>

section \<open>Neighbours in a finite set of hashed keys\<close>

definition adj :: "'e gnark \<Rightarrow> ('i \<Rightarrow> 'e octuplet) \<Rightarrow> 'i set \<Rightarrow> 'i \<Rightarrow> 'i \<Rightarrow> bool" where
  "adj G f D i j \<longleftrightarrow> i \<in> D \<and> j \<in> D \<and> Cmp G (f i) (f j) = -1
     \<and> (\<forall>k \<in> D. \<not> (Cmp G (f i) (f k) = -1 \<and> Cmp G (f k) (f j) = -1))"

lemma adj_in: "adj G f D i j \<Longrightarrow> i \<in> D \<and> j \<in> D"
  by (simp add: adj_def)

lemma adj_cong: "(\<And>k. k \<in> D \<Longrightarrow> f k = g k) \<Longrightarrow> adj G f D i j = adj G g D i j"
  unfolding adj_def by auto

context felt
begin

lemma adj_neq: "adj G f D i j \<Longrightarrow> i \<noteq> j"
  by (auto simp: adj_def)

lemma adj_right_unique: "adj G f D i j \<Longrightarrow> adj G f D i j' \<Longrightarrow> inj_on f D \<Longrightarrow> j = j'"
  unfolding adj_def inj_on_def using ord.neq_iff by blast

lemma adj_left_unique: "adj G f D i j \<Longrightarrow> adj G f D i' j \<Longrightarrow> inj_on f D \<Longrightarrow> i = i'"
  unfolding adj_def inj_on_def using ord.neq_iff by blast

lemma adj_between_unique:
  assumes ab: "adj G f D a b" and ab': "adj G f D a' b'" and inj: "inj_on f D"
    and h: "Cmp G (f a) h = -1" "Cmp G h (f b) = -1" "Cmp G (f a') h = -1" "Cmp G h (f b') = -1"
  shows "a = a' \<and> b = b'"
proof -
  have in_D: "a \<in> D" "b \<in> D" "a' \<in> D" "b' \<in> D" using adj_in [OF ab] adj_in [OF ab'] by auto
  have lt: "Cmp G (f a) (f b') = -1" "Cmp G (f a') (f b) = -1"
    using h ord.less_trans by blast+
  have "\<not> Cmp G (f a) (f a') = -1" "\<not> Cmp G (f a') (f a) = -1"
    using ab ab' lt in_D unfolding adj_def by blast+
  then have "f a = f a'" using ord.neq_iff by blast
  moreover have "\<not> Cmp G (f b) (f b') = -1" "\<not> Cmp G (f b') (f b) = -1"
    using ab ab' lt in_D unfolding adj_def by blast+
  then have "f b = f b'" using ord.neq_iff by blast
  ultimately show ?thesis using inj in_D by (auto dest: inj_onD)
qed

lemma adj_fresh:
  assumes "adj G f D a b" and "Cmp G (f a) h = -1" and "Cmp G h (f b) = -1" and "k \<in> D"
  shows "f k \<noteq> h"
  using assms unfolding adj_def by blast

lemma adj_insert_other:
  assumes "adj G f D a b" and "x \<notin> D" and "\<not> (Cmp G (f a) h = -1 \<and> Cmp G h (f b) = -1)"
  shows "adj G (f(x := h)) (insert x D) a b"
  using assms unfolding adj_def by auto

lemma adj_insert_new:
  assumes ab: "adj G f D a b" and x: "x \<notin> D" and h: "Cmp G (f a) h = -1" "Cmp G h (f b) = -1"
    and inj: "inj_on f D"
  shows "adj G (f(x := h)) (insert x D) a x" "adj G (f(x := h)) (insert x D) x b"
proof -
  have D: "a \<in> D" "b \<in> D" "a \<noteq> x" "b \<noteq> x" using ab x by (auto simp: adj_def)
  have no: "\<not> (Cmp G (f a) (f k) = -1 \<and> Cmp G (f k) (f b) = -1)" if "k \<in> D" for k
    using ab that by (simp add: adj_def)
  have "\<not> (Cmp G (f a) (f k) = -1 \<and> Cmp G (f k) h = -1)"
    "\<not> (Cmp G h (f k) = -1 \<and> Cmp G (f k) (f b) = -1)" if "k \<in> D" for k
    using no [OF that] h ord.less_trans by blast+
  then show "adj G (f(x := h)) (insert x D) a x" "adj G (f(x := h)) (insert x D) x b"
    using D h x unfolding adj_def by auto
qed

lemma adj_remove_other: "adj G f D a b \<Longrightarrow> a \<noteq> x \<Longrightarrow> b \<noteq> x \<Longrightarrow> adj G f (D - {x}) a b"
  unfolding adj_def by auto

lemma adj_remove:
  assumes ax: "adj G f D a x" and xb: "adj G f D x b" and inj: "inj_on f D"
  shows "adj G f (D - {x}) a b"
proof -
  have lt: "Cmp G (f a) (f b) = -1" using ax xb ord.less_trans unfolding adj_def by blast
  have "\<not> (Cmp G (f a) (f k) = -1 \<and> Cmp G (f k) (f b) = -1)" if k: "k \<in> D" "k \<noteq> x" for k
  proof -
    have "f k \<noteq> f x" using inj k ax by (auto simp: adj_def dest: inj_onD)
    then have "Cmp G (f k) (f x) = -1 \<or> Cmp G (f x) (f k) = -1" using ord.neq_iff by blast
    then show ?thesis using ax xb k unfolding adj_def by blast
  qed
  then show ?thesis using ax xb lt adj_neq [OF ax] adj_neq [OF xb] unfolding adj_def by auto
qed

end

section \<open>Linked openings\<close>

type_synonym 'e links = "int \<Rightarrow> 'e LeafOpening option"

definition hk :: "'e links \<Rightarrow> int \<Rightarrow> 'e octuplet" where
  "hk op i = HKey (the (op i))"

definition well_linked :: "'e gnark \<Rightarrow> 'e links \<Rightarrow> bool" where
  "well_linked G op \<longleftrightarrow> {0, 1} \<subseteq> dom op \<and> hk op 0 = oct_zero G \<and> hk op 1 = MaxKoalaOctuplet G
     \<and> inj_on (hk op) (dom op)
     \<and> (\<forall>i l. op i = Some l \<longrightarrow>
          (if i = 1 then Next l = 1 else adj G (hk op) (dom op) i (Next l))
        \<and> (if i = 0 then Prev l = 0 else adj G (hk op) (dom op) (Prev l) i))"

definition bindings :: "'e links \<Rightarrow> ('e octuplet \<times> 'e octuplet) set" where
  "bindings op = (\<lambda>i. (HKey (the (op i)), HVal (the (op i)))) ` (dom op - {0, 1})"

definition link_insert :: "'e links \<Rightarrow> int \<Rightarrow> int \<Rightarrow> int \<Rightarrow> 'e octuplet \<Rightarrow> 'e octuplet \<Rightarrow> 'e links" where
  "link_insert op im i ip h v = op(im \<mapsto> CopyWithNext (the (op im)) i,
     i \<mapsto> \<lparr>Prev = im, Next = ip, HKey = h, HVal = v\<rparr>, ip \<mapsto> CopyWithPrev (the (op ip)) i)"

definition link_delete :: "'e links \<Rightarrow> int \<Rightarrow> int \<Rightarrow> int \<Rightarrow> 'e links" where
  "link_delete op im i ip = (op(im \<mapsto> CopyWithNext (the (op im)) ip, i := None))
     (ip \<mapsto> CopyWithPrev (the (op ip)) im)"

definition link_update :: "'e links \<Rightarrow> int \<Rightarrow> 'e octuplet \<Rightarrow> 'e links" where
  "link_update op i v = op(i \<mapsto> (the (op i))\<lparr>HVal := v\<rparr>)"

definition links_ok :: "'e links \<Rightarrow> bool" where
  "links_ok op \<longleftrightarrow> (\<forall>i l. op i = Some l \<longrightarrow> leaf_ok l)"

lemma hk_Some [simp]: "op i = Some l \<Longrightarrow> hk op i = HKey l"
  by (simp add: hk_def)

lemma copy_simps [simp]:
  "HKey (CopyWithNext l n) = HKey l" "HVal (CopyWithNext l n) = HVal l"
  "Prev (CopyWithNext l n) = Prev l" "Next (CopyWithNext l n) = n"
  "HKey (CopyWithPrev l n) = HKey l" "HVal (CopyWithPrev l n) = HVal l"
  "Next (CopyWithPrev l n) = Next l" "Prev (CopyWithPrev l n) = n"
  by (simp_all add: CopyWithNext_def CopyWithPrev_def)

context felt
begin

abbreviation lt :: "'e octuplet \<Rightarrow> 'e octuplet \<Rightarrow> bool" where
  "lt a b \<equiv> Cmp G a b = -1"

lemma wl_next: "well_linked G op \<Longrightarrow> op i = Some l \<Longrightarrow> i \<noteq> 1 \<Longrightarrow> adj G (hk op) (dom op) i (Next l)"
  unfolding well_linked_def by auto

lemma wl_prev: "well_linked G op \<Longrightarrow> op i = Some l \<Longrightarrow> i \<noteq> 0 \<Longrightarrow> adj G (hk op) (dom op) (Prev l) i"
  unfolding well_linked_def by auto

lemma wl_not_tail: "well_linked G op \<Longrightarrow> op i = Some l \<Longrightarrow> lt (HKey l) h \<Longrightarrow> i \<noteq> 1"
  using Cmp_max_greatest [of h] Cmp_swap [of h "MaxKoalaOctuplet G"] by (auto simp: well_linked_def)

lemma wl_not_head: "well_linked G op \<Longrightarrow> op i = Some l \<Longrightarrow> lt h (HKey l) \<Longrightarrow> i \<noteq> 0"
  using Cmp_zero_least [of h] Cmp_swap [of h "oct_zero G"] by (auto simp: well_linked_def)

text \<open>Two openings that point to each other sandwich the keys that are absent.\<close>

lemma sandwich_absent:
  assumes wl: "well_linked G op" and m: "op im = Some lm" "op ip = Some lp" "Next lm = ip"
    and h: "lt (HKey lm) h" "lt h (HKey lp)"
  shows "adj G (hk op) (dom op) im ip" and "\<forall>i l. op i = Some l \<longrightarrow> HKey l \<noteq> h"
proof -
  show a: "adj G (hk op) (dom op) im ip"
    using wl_next [OF wl m(1)] wl_not_tail [OF wl m(1) h(1)] m(3) by simp
  show "\<forall>i l. op i = Some l \<longrightarrow> HKey l \<noteq> h"
    using adj_fresh [OF a, of h] m h by (metis domI hk_Some)
qed

lemma wl_intro:
  assumes "{0, 1} \<subseteq> dom op" "hk op 0 = oct_zero G" "hk op 1 = MaxKoalaOctuplet G" "inj_on (hk op) (dom op)"
    and "\<And>i l. op i = Some l \<Longrightarrow> (if i = 1 then Next l = 1 else adj G (hk op) (dom op) i (Next l))
        \<and> (if i = 0 then Prev l = 0 else adj G (hk op) (dom op) (Prev l) i)"
  shows "well_linked G op"
  using assms unfolding well_linked_def by blast

text \<open>The neighbours after an insertion.\<close>

lemma link_insert_adj:
  assumes wl: "well_linked G op" and m: "op im = Some lm" "op ip = Some lp" "Next lm = ip"
    and h: "lt (HKey lm) h" "lt h (HKey lp)" and i: "op i = None"
    and op'_def: "op' = link_insert op im i ip h v"
  shows "dom op' = insert i (dom op)" and "hk op' = (hk op)(i := h)" and "inj_on (hk op') (dom op')"
    and "adj G (hk op') (dom op') im i" and "adj G (hk op') (dom op') i ip"
    and "\<And>a b. adj G (hk op) (dom op) a b \<Longrightarrow> a \<noteq> im \<or> b \<noteq> ip \<Longrightarrow> adj G (hk op') (dom op') a b"
proof -
  let ?f = "hk op" and ?D = "dom op"
  have inj: "inj_on ?f ?D" using wl by (simp add: well_linked_def)
  have ad: "adj G ?f ?D im ip" by (rule sandwich_absent(1) [OF wl m h])
  have iD: "i \<notin> ?D" using i by auto
  have ne: "im \<noteq> ip" "i \<noteq> im" "i \<noteq> ip" using adj_neq [OF ad] m i by auto
  show D': "dom op' = insert i ?D" using m by (auto simp: op'_def link_insert_def)
  show f': "hk op' = ?f(i := h)" using ne m by (auto simp: op'_def link_insert_def hk_def)
  have "?f k \<noteq> h" if "k \<in> ?D" for k using that h m by (intro adj_fresh [OF ad]) simp_all
  then show "inj_on (hk op') (dom op')" using inj iD unfolding D' f' by (auto simp: inj_on_def)
  show "adj G (hk op') (dom op') im i" "adj G (hk op') (dom op') i ip"
    unfolding D' f' using adj_insert_new [OF ad iD _ _ inj, of h] h m by simp_all
  show "adj G (hk op') (dom op') a b" if "adj G ?f ?D a b" "a \<noteq> im \<or> b \<noteq> ip" for a b
    unfolding D' f'
  proof (rule adj_insert_other [OF that(1) iD])
    have "lt (?f im) h" "lt h (?f ip)" using h m by simp_all
    then show "\<not> (lt (?f a) h \<and> lt h (?f b))"
      using adj_between_unique [OF ad that(1) inj] that(2) by blast
  qed
qed

lemma link_insert_wl:
  assumes wl: "well_linked G op" and m: "op im = Some lm" "op ip = Some lp" "Next lm = ip"
    and h: "lt (HKey lm) h" "lt h (HKey lp)" and i: "op i = None"
  shows "well_linked G (link_insert op im i ip h v)"
proof (rule wl_intro)
  let ?op = "link_insert op im i ip h v"
  note new = link_insert_adj [OF wl m h i refl, where v = v] note old = new(6)
  have base: "{0, 1} \<subseteq> dom op" "hk op 0 = oct_zero G" "hk op 1 = MaxKoalaOctuplet G"
    using wl by (auto simp: well_linked_def)
  have ne: "im \<noteq> ip" "i \<noteq> im" "i \<noteq> ip" "im \<noteq> 1" "ip \<noteq> 0" "i \<noteq> 0" "i \<noteq> 1"
    using adj_neq [OF sandwich_absent(1) [OF wl m h]] m i base wl_not_tail [OF wl m(1) h(1)] wl_not_head [OF wl m(2) h(2)] by auto
  show "{0, 1} \<subseteq> dom ?op" "hk ?op 0 = oct_zero G" "hk ?op 1 = MaxKoalaOctuplet G"
    using base ne by (auto simp: new(1,2))
  show "inj_on (hk ?op) (dom ?op)" by (rule new(3))
  fix k l
  assume k: "?op k = Some l"
  consider "k = i" "l = \<lparr>Prev = im, Next = ip, HKey = h, HVal = v\<rparr>" | "k = im" "l = CopyWithNext lm i"
    | "k = ip" "l = CopyWithPrev lp i" | "k \<noteq> i" "k \<noteq> im" "k \<noteq> ip" "op k = Some l"
    using k m ne by (auto simp: link_insert_def split: if_splits)
  then show "(if k = 1 then Next l = 1 else adj G (hk ?op) (dom ?op) k (Next l))
    \<and> (if k = 0 then Prev l = 0 else adj G (hk ?op) (dom ?op) (Prev l) k)"
  proof cases
    case 1
    then show ?thesis using new(4,5) ne by simp
  next
    case 2
    then show ?thesis using new(4,5) ne old [OF wl_prev [OF wl m(1)]] wl m(1) by (auto simp: well_linked_def)
  next
    case 3
    then show ?thesis using new(4,5) ne old [OF wl_next [OF wl m(2)]] wl m(2) by (auto simp: well_linked_def)
  next
    case 4
    then show ?thesis using wl old [OF wl_next [OF wl 4(4)]] old [OF wl_prev [OF wl 4(4)]]
      by (auto simp: well_linked_def)
  qed
qed

lemma link_insert_bindings:
  assumes "op im = Some lm" "op ip = Some lp" "op i = None" "im \<noteq> ip" "{0, 1} \<subseteq> dom op"
  shows "bindings (link_insert op im i ip h v) = insert (h, v) (bindings op)"
proof -
  let ?op = "link_insert op im i ip h v"
  have i: "i \<notin> {0, 1}" "i \<noteq> im" "i \<noteq> ip" using assms by auto
  have "dom ?op - {0, 1} = insert i (dom op - {0, 1})"
    using assms i by (auto simp: link_insert_def)
  moreover have "(HKey (the (?op i)), HVal (the (?op i))) = (h, v)"
    using i by (simp add: link_insert_def)
  moreover have "HKey (the (?op k)) = HKey (the (op k))" "HVal (the (?op k)) = HVal (the (op k))"
    if "k \<in> dom op - {0, 1}" for k
    using that assms i by (auto simp: link_insert_def)
  ultimately show ?thesis unfolding bindings_def by simp
qed

lemma link_delete_wl:
  assumes wl: "well_linked G op" and i: "op i = Some l" "i \<noteq> 0" "i \<noteq> 1"
  shows "well_linked G (link_delete op (Prev l) i (Next l))"
proof -
  let ?f = "hk op" and ?D = "dom op" and ?op = "link_delete op (Prev l) i (Next l)"
  have inj: "inj_on ?f ?D" and base: "{0, 1} \<subseteq> ?D" "?f 0 = oct_zero G" "?f 1 = MaxKoalaOctuplet G"
    using wl by (auto simp: well_linked_def)
  have ad: "adj G ?f ?D (Prev l) i" "adj G ?f ?D i (Next l)"
    using wl_prev [OF wl i(1,2)] wl_next [OF wl i(1,3)] by simp_all
  then obtain lm lp where m: "op (Prev l) = Some lm" "op (Next l) = Some lp"
    by (auto simp: adj_def)
  have lts: "lt (HKey lm) (HKey l)" "lt (HKey l) (HKey lp)" using ad m i by (auto simp: adj_def)
  then have "lt (HKey lm) (HKey lp)" using ord.less_trans by blast
  then have ne: "Prev l \<noteq> Next l" "Prev l \<noteq> i" "Next l \<noteq> i" "Prev l \<noteq> 1" "Next l \<noteq> 0"
    using m adj_neq [OF ad(1)] adj_neq [OF ad(2)] lts wl_not_tail [OF wl m(1)] wl_not_head [OF wl m(2)]
    by auto
  have D': "dom ?op = ?D - {i}" using m ne by (auto simp: link_delete_def)
  have f': "hk ?op k = ?f k" if "k \<noteq> i" for k using that ne m by (auto simp: link_delete_def hk_def)
  have adj': "adj G (hk ?op) (dom ?op) a b = adj G ?f (?D - {i}) a b" for a b
    unfolding D' by (rule adj_cong) (auto simp: f')
  have new: "adj G ?f (?D - {i}) (Prev l) (Next l)" by (rule adj_remove [OF ad inj])
  have old: "adj G ?f (?D - {i}) a b" if "adj G ?f ?D a b" "a \<noteq> i" "b \<noteq> i" for a b
    using that by (rule adj_remove_other)
  have nxt: "adj G ?f (?D - {i}) k (Next l')" if "op k = Some l'" "k \<noteq> 1" "k \<noteq> i" "k \<noteq> Prev l" for k l'
    using wl_next [OF wl that(1,2)] adj_left_unique [OF ad(1) _ inj, of k] that by (intro old) auto
  have prv: "adj G ?f (?D - {i}) (Prev l') k" if "op k = Some l'" "k \<noteq> 0" "k \<noteq> i" "k \<noteq> Next l" for k l'
    using wl_prev [OF wl that(1,2)] adj_right_unique [OF ad(2) _ inj, of k] that by (intro old) auto
  show ?thesis
  proof (rule wl_intro)
    show "{0, 1} \<subseteq> dom ?op" "hk ?op 0 = oct_zero G" "hk ?op 1 = MaxKoalaOctuplet G"
      using base i by (auto simp: D' f')
    show "inj_on (hk ?op) (dom ?op)"
      using inj by (auto simp: D' f' inj_on_def)
  next
    fix k l'
    assume k: "?op k = Some l'"
    consider "k = Prev l" "l' = CopyWithNext lm (Next l)" | "k = Next l" "l' = CopyWithPrev lp (Prev l)"
      | "k \<noteq> Prev l" "k \<noteq> Next l" "k \<noteq> i" "op k = Some l'"
      using k m ne by (auto simp: link_delete_def split: if_splits)
    then show "(if k = 1 then Next l' = 1 else adj G (hk ?op) (dom ?op) k (Next l'))
      \<and> (if k = 0 then Prev l' = 0 else adj G (hk ?op) (dom ?op) (Prev l') k)"
    proof cases
      case 1
      then show ?thesis using new ne prv [OF m(1)] wl m(1) by (auto simp: adj' well_linked_def)
    next
      case 2
      then show ?thesis using new ne nxt [OF m(2)] wl m(2) by (auto simp: adj' well_linked_def)
    next
      case 3
      then show ?thesis using wl nxt [OF 3(4)] prv [OF 3(4)] by (auto simp: adj' well_linked_def)
    qed
  qed
qed

lemma link_delete_bindings:
  assumes wl: "well_linked G op" and i: "op i = Some l" "i \<noteq> 0" "i \<noteq> 1"
  shows "bindings (link_delete op (Prev l) i (Next l)) = bindings op - {(HKey l, HVal l)}"
proof -
  let ?op = "link_delete op (Prev l) i (Next l)"
  have inj: "inj_on (hk op) (dom op)" using wl by (simp add: well_linked_def)
  have ad: "adj G (hk op) (dom op) (Prev l) i" "adj G (hk op) (dom op) i (Next l)"
    using wl_prev [OF wl i(1,2)] wl_next [OF wl i(1,3)] by simp_all
  then have ne: "Prev l \<noteq> i" "Next l \<noteq> i" "Prev l \<in> dom op" "Next l \<in> dom op"
    using adj_neq adj_in by metis+
  have D: "dom ?op - {0, 1} = (dom op - {0, 1}) - {i}" using ne by (auto simp: link_delete_def)
  have same: "(HKey (the (?op k)), HVal (the (?op k))) = (HKey (the (op k)), HVal (the (op k)))"
    if "k \<noteq> i" for k
    using that ne by (auto simp: link_delete_def)
  have "bindings ?op = (\<lambda>k. (HKey (the (op k)), HVal (the (op k)))) ` ((dom op - {0, 1}) - {i})"
    unfolding bindings_def D by (rule image_cong) (simp_all only: same Diff_iff singleton_iff not_False_eq_True)
  also have "\<dots> = bindings op - {(HKey l, HVal l)}"
  proof -
    have "k = i" if "k \<in> dom op" "HKey (the (op k)) = HKey l" for k
      using inj that i(1) unfolding inj_on_def hk_def by (metis domI option.sel)
    then show ?thesis using i unfolding bindings_def by auto
  qed
  finally show ?thesis .
qed

lemma link_update_wl:
  assumes wl: "well_linked G op" and i: "op i = Some l"
  shows "well_linked G (link_update op i v)"
proof -
  let ?op = "link_update op i v"
  have d: "dom ?op = dom op" and h: "hk ?op = hk op"
    using i by (auto simp: link_update_def hk_def fun_eq_iff)
  have "\<exists>l0. op k = Some l0 \<and> Prev l' = Prev l0 \<and> Next l' = Next l0" if "?op k = Some l'" for k l'
    using that i by (auto simp: link_update_def split: if_splits)
  then show ?thesis using wl unfolding well_linked_def d h by fastforce
qed

lemma link_update_bindings:
  assumes wl: "well_linked G op" and i: "op i = Some l" "i \<noteq> 0" "i \<noteq> 1"
  shows "bindings (link_update op i v) = insert (HKey l, v) (bindings op - {(HKey l, HVal l)})"
proof -
  let ?op = "link_update op i v"
  have inj: "inj_on (hk op) (dom op)" using wl by (simp add: well_linked_def)
  then have uniq: "k = i" if "k \<in> dom op" "HKey (the (op k)) = HKey l" for k
    using that i(1) unfolding inj_on_def hk_def by (metis domI option.sel)
  have D: "dom ?op - {0, 1} = insert i ((dom op - {0, 1}) - {i})" using i by (auto simp: link_update_def)
  have "bindings ?op = insert (HKey l, v)
      ((\<lambda>k. (HKey (the (op k)), HVal (the (op k)))) ` ((dom op - {0, 1}) - {i}))"
    unfolding bindings_def D image_insert using i by (auto simp: link_update_def)
  also have "(\<lambda>k. (HKey (the (op k)), HVal (the (op k)))) ` ((dom op - {0, 1}) - {i})
      = bindings op - {(HKey l, HVal l)}"
    using i uniq unfolding bindings_def by auto
  finally show ?thesis .
qed

lemma wl_neighbours:
  assumes wl: "well_linked G op" and i: "op i = Some l" "i \<noteq> 0" "i \<noteq> 1"
  obtains lm lp where "op (Prev l) = Some lm" "op (Next l) = Some lp" "Next lm = i" "Prev lp = i"
    "Prev l \<noteq> Next l" "Prev l \<noteq> i" "Next l \<noteq> i"
proof -
  have inj: "inj_on (hk op) (dom op)" using wl by (simp add: well_linked_def)
  have ad: "adj G (hk op) (dom op) (Prev l) i" "adj G (hk op) (dom op) i (Next l)"
    using wl_prev [OF wl i(1,2)] wl_next [OF wl i(1,3)] by simp_all
  then obtain lm lp where m: "op (Prev l) = Some lm" "op (Next l) = Some lp"
    by (auto simp: adj_def)
  have lts: "lt (HKey lm) (HKey l)" "lt (HKey l) (HKey lp)" using ad m i by (auto simp: adj_def)
  have "adj G (hk op) (dom op) (Prev l) (Next lm)" "adj G (hk op) (dom op) (Prev lp) (Next l)"
    using wl_next [OF wl m(1)] wl_prev [OF wl m(2)] wl_not_tail [OF wl m(1) lts(1)]
      wl_not_head [OF wl m(2) lts(2)] by simp_all
  then have "Next lm = i" "Prev lp = i"
    using adj_right_unique [OF _ ad(1) inj] adj_left_unique [OF _ ad(2) inj] by simp_all
  moreover have "Prev l \<noteq> Next l"
  proof
    assume "Prev l = Next l"
    then have "lm = lp" using m by simp
    then show False using lts ord.less_asym by blast
  qed
  ultimately show ?thesis using that [OF m] adj_neq [OF ad(1)] adj_neq [OF ad(2)] by simp
qed

lemma wl_not_HeadOrTail:
  assumes wl: "well_linked G op" and i: "op i = Some l"
  shows "HeadOrTail G l \<longleftrightarrow> i = 0 \<or> i = 1"
proof -
  have "inj_on (hk op) (dom op)" "0 \<in> dom op" "1 \<in> dom op" "hk op 0 = oct_zero G" "hk op 1 = MaxKoalaOctuplet G"
    using wl by (auto simp: well_linked_def)
  then show ?thesis using i unfolding HeadOrTail_iff by (metis domI hk_Some inj_onD)
qed

lemma wl_links_ok:
  assumes wl: "well_linked G op" and b: "\<forall>i \<in> dom op. 0 \<le> i \<and> i < 2 ^ DefaultDepth"
  shows "links_ok op"
proof -
  have "Next l \<in> dom op \<and> Prev l \<in> dom op" if l: "op i = Some l" for i l
    using wl l unfolding well_linked_def by (metis adj_in insert_subset)
  moreover have "int64_ok i" if "i \<in> dom op" for i
  proof -
    have "0 \<le> i" "i < 2 ^ DefaultDepth" using b that by auto
    then show ?thesis by (simp add: int64_ok_def DefaultDepth_def)
  qed
  ultimately show ?thesis unfolding links_ok_def leaf_ok_def by blast
qed

end

end
