(* ===== verification/Collections.thy ===== *)
theory Collections
  imports Go_Prelude "HOL-Library.AList" "HOL-Library.Multiset"
begin

text \<open>
  The collections of \<^verbatim>\<open>prover/utils/collection\<close>. A Go map is an association list with
  distinct keys, of which only the contents matter: ranging over it visits the keys in an
  order that the language leaves open, so an operation that ranges over a map takes the
  order as an argument, an arbitrary permutation (\<open>go_order\<close>).
\<close>

section \<open>Iteration order\<close>

type_synonym 'k range_order = "'k list \<Rightarrow> 'k list"

definition go_order :: "'k range_order \<Rightarrow> bool" where
  "go_order ord \<longleftrightarrow> (\<forall>xs. mset (ord xs) = mset xs)"

lemma go_order_set: "go_order ord \<Longrightarrow> set (ord xs) = set xs"
  by (metis go_order_def set_mset_mset)

lemma go_order_length: "go_order ord \<Longrightarrow> length (ord xs) = length xs"
  by (metis go_order_def size_mset)

lemma go_order_distinct: "go_order ord \<Longrightarrow> distinct (ord xs) = distinct xs"
  by (metis go_order_def mset_eq_imp_distinct_iff)

lemma go_order_id [simp]: "go_order (\<lambda>xs. xs)" "go_order rev"
  by (simp_all add: go_order_def)

section \<open>Mapping\<close>

record ('k, 'v) Mapping =
  InnerMap :: "('k \<times> 'v) list"

definition NewMapping :: "('k, 'v) Mapping" where
  "NewMapping = \<lparr>InnerMap = []\<rparr>"

definition MustGet :: "('k, 'v) Mapping \<Rightarrow> 'k \<Rightarrow> 'v go" where
  "MustGet kv key =
     (case map_of (InnerMap kv) key of None \<Rightarrow> Panic ''Entry does not exists'' | Some res \<Rightarrow> Ret res)"

definition TryGet :: "('k, 'v) Mapping \<Rightarrow> 'k \<Rightarrow> 'v option" where
  "TryGet kv key = map_of (InnerMap kv) key"

definition Mapping_Update :: "('k, 'v) Mapping \<Rightarrow> 'k \<Rightarrow> 'v \<Rightarrow> ('k, 'v) Mapping" where
  "Mapping_Update kv key val = \<lparr>InnerMap = AList.update key val (InnerMap kv)\<rparr>"

definition InsertNew :: "('k, 'v) Mapping \<Rightarrow> 'k \<Rightarrow> 'v \<Rightarrow> ('k, 'v) Mapping go" where
  "InsertNew kv key val =
     (case map_of (InnerMap kv) key of
        Some _ \<Rightarrow> Panic ''Entry already found''
      | None \<Rightarrow> Ret \<lparr>InnerMap = AList.update key val (InnerMap kv)\<rparr>)"

definition ListAllKeys :: "'k range_order \<Rightarrow> ('k, 'v) Mapping \<Rightarrow> 'k list" where
  "ListAllKeys ord kv = ord (map fst (InnerMap kv))"

definition MustExists :: "('k, 'v) Mapping \<Rightarrow> 'k list \<Rightarrow> unit go" where
  "MustExists kv ks =
     (if list_all (\<lambda>k. map_of (InnerMap kv) k \<noteq> None) ks then Ret ()
      else Panic ''MustExists : assertion failed.'')"

fun Exists :: "('k, 'v) Mapping \<Rightarrow> 'k list \<Rightarrow> bool" where
  "Exists kv [] = True"
| "Exists kv (k # ks) = (if map_of (InnerMap kv) k = None then False else Exists kv ks)"

definition ListValues :: "'k range_order \<Rightarrow> ('k, 'v) Mapping \<Rightarrow> 'v list" where
  "ListValues ord kv = map (\<lambda>k. the (map_of (InnerMap kv) k)) (ord (map fst (InnerMap kv)))"

definition Del :: "('k, 'v) Mapping \<Rightarrow> 'k \<Rightarrow> ('k, 'v) Mapping go" where
  "Del kv k = go_bind (MustGet kv k) (\<lambda>_. Ret \<lparr>InnerMap = AList.delete k (InnerMap kv)\<rparr>)"

definition TryDel :: "('k, 'v) Mapping \<Rightarrow> 'k \<Rightarrow> (bool \<times> ('k, 'v) Mapping) go" where
  "TryDel kv k =
     (if Exists kv [k]
      then go_bind (MustGet kv k) (\<lambda>_. Ret (True, \<lparr>InnerMap = AList.delete k (InnerMap kv)\<rparr>))
      else Ret (False, kv))"

definition Len :: "'k range_order \<Rightarrow> ('k, 'v) Mapping \<Rightarrow> nat" where
  "Len ord kv = length (ListAllKeys ord kv)"

fun clone_loop :: "('k, 'v) Mapping \<Rightarrow> 'k list \<Rightarrow> ('k, 'v) Mapping \<Rightarrow> ('k, 'v) Mapping go" where
  "clone_loop kv [] res = Ret res"
| "clone_loop kv (k # ks) res =
     go_bind (MustGet kv k) (\<lambda>v. go_bind (InsertNew res k v) (clone_loop kv ks))"

definition Clone :: "'k range_order \<Rightarrow> ('k, 'v) Mapping \<Rightarrow> ('k, 'v) Mapping go" where
  "Clone ord kv = clone_loop kv (ord (map fst (InnerMap kv))) NewMapping"

definition kv_inv :: "('k, 'v) Mapping \<Rightarrow> bool" where
  "kv_inv kv \<longleftrightarrow> distinct (map fst (InnerMap kv))"

named_theorems kv_simps \<open>lookup laws of the mapping\<close>

lemma kv_inv_New [kv_simps]: "kv_inv NewMapping" "TryGet NewMapping k = None"
  by (simp_all add: kv_inv_def NewMapping_def TryGet_def)

lemma kv_inv_Update [kv_simps]:
  "kv_inv kv \<Longrightarrow> kv_inv (Mapping_Update kv k v)" "TryGet (Mapping_Update kv k v) = (TryGet kv)(k \<mapsto> v)"
  by (auto simp: kv_inv_def Mapping_Update_def TryGet_def distinct_update update_conv')

lemma MustGet_eq: "MustGet kv k = (case TryGet kv k of None \<Rightarrow> Panic ''Entry does not exists'' | Some v \<Rightarrow> Ret v)"
  by (simp add: MustGet_def TryGet_def)

lemma InsertNew_eq:
  "InsertNew kv k v = (case TryGet kv k of None \<Rightarrow> Ret (Mapping_Update kv k v) | Some _ \<Rightarrow> Panic ''Entry already found'')"
  by (simp add: InsertNew_def Mapping_Update_def TryGet_def split: option.split)

definition Mapping_delete :: "('k, 'v) Mapping \<Rightarrow> 'k \<Rightarrow> ('k, 'v) Mapping" where
  "Mapping_delete kv k = \<lparr>InnerMap = AList.delete k (InnerMap kv)\<rparr>"

lemma kv_inv_delete [kv_simps]:
  "kv_inv kv \<Longrightarrow> kv_inv (Mapping_delete kv k)" "TryGet (Mapping_delete kv k) = (TryGet kv)(k := None)"
  by (auto simp: kv_inv_def Mapping_delete_def TryGet_def distinct_delete delete_conv')

lemma Del_eq:
  "Del kv k = (case TryGet kv k of None \<Rightarrow> Panic ''Entry does not exists'' | Some _ \<Rightarrow> Ret (Mapping_delete kv k))"
  by (simp add: Del_def MustGet_def TryGet_def Mapping_delete_def split: option.split)

lemma TryDel_eq:
  "TryDel kv k = Ret (case TryGet kv k of None \<Rightarrow> (False, kv) | Some _ \<Rightarrow> (True, Mapping_delete kv k))"
  by (simp add: TryDel_def MustGet_def TryGet_def Mapping_delete_def split: option.split)

lemma MustExists_1: "MustExists kv [k] = (if TryGet kv k = None then Panic ''MustExists : assertion failed.'' else Ret ())"
  by (simp add: MustExists_def TryGet_def)

lemma Exists_iff: "Exists kv ks \<longleftrightarrow> (\<forall>k \<in> set ks. TryGet kv k \<noteq> None)"
  by (induction ks) (auto simp: TryGet_def)

lemma set_ListAllKeys: "go_order ord \<Longrightarrow> set (ListAllKeys ord kv) = dom (TryGet kv)"
  by (simp add: ListAllKeys_def go_order_set TryGet_def [abs_def] dom_map_of_conv_image_fst)

lemma Len_card: "go_order ord \<Longrightarrow> kv_inv kv \<Longrightarrow> Len ord kv = card (dom (TryGet kv))"
  by (metis Len_def set_ListAllKeys distinct_card go_order_distinct ListAllKeys_def kv_inv_def)

lemma clone_loop_spec:
  assumes "distinct ks" and "set ks \<subseteq> dom (TryGet kv)" and "set ks \<inter> dom (TryGet res) = {}" and "kv_inv res"
  shows "\<exists>r. clone_loop kv ks res = Ret r \<and> kv_inv r
    \<and> TryGet r = (\<lambda>k. if k \<in> set ks then TryGet kv k else TryGet res k)"
  using assms
proof (induction ks arbitrary: res)
  case (Cons k ks)
  then obtain v where v: "TryGet kv k = Some v" by auto
  have n: "TryGet res k = None" using Cons.prems(3) by auto
  have "\<exists>r. clone_loop kv ks (Mapping_Update res k v) = Ret r \<and> kv_inv r
    \<and> TryGet r = (\<lambda>x. if x \<in> set ks then TryGet kv x else TryGet (Mapping_Update res k v) x)"
    using Cons.prems by (intro Cons.IH) (auto simp: kv_simps split: if_splits)
  then show ?case
    using v n Cons.prems(1) by (fastforce simp: MustGet_eq InsertNew_eq kv_simps fun_eq_iff)
qed auto

section \<open>The contract of a key-value store\<close>

locale kv_store =
  fixes invar :: "'m \<Rightarrow> bool"
    and lookup :: "'m \<Rightarrow> 'k \<Rightarrow> 'v option"
    and must_get :: "'m \<Rightarrow> 'k \<Rightarrow> 'v go"
    and insert_new :: "'m \<Rightarrow> 'k \<Rightarrow> 'v \<Rightarrow> 'm go"
    and put :: "'m \<Rightarrow> 'k \<Rightarrow> 'v \<Rightarrow> 'm"
    and del :: "'m \<Rightarrow> 'k \<Rightarrow> 'm go"
  assumes must_get: "lookup m k = Some v \<Longrightarrow> must_get m k = Ret v"
    and must_get_absent: "lookup m k = None \<Longrightarrow> \<exists>e. must_get m k = Panic e"
    and insert_fresh: "invar m \<Longrightarrow> lookup m k = None \<Longrightarrow>
      \<exists>m'. insert_new m k v = Ret m' \<and> invar m' \<and> lookup m' = (lookup m)(k \<mapsto> v)"
    and insert_dup: "lookup m k \<noteq> None \<Longrightarrow> \<exists>e. insert_new m k v = Panic e"
    and put_spec: "invar m \<Longrightarrow> invar (put m k v) \<and> lookup (put m k v) = (lookup m)(k \<mapsto> v)"
    and del_spec: "invar m \<Longrightarrow> lookup m k \<noteq> None \<Longrightarrow>
      \<exists>m'. del m k = Ret m' \<and> invar m' \<and> lookup m' = (lookup m)(k := None)"
    and del_absent: "lookup m k = None \<Longrightarrow> \<exists>e. del m k = Panic e"
begin

text \<open>Inserting a fresh key and deleting it again restores the contents.\<close>

lemma insert_then_del:
  assumes "invar m" and "lookup m k = None"
  shows "\<exists>m1 m2. insert_new m k v = Ret m1 \<and> must_get m1 k = Ret v \<and> del m1 k = Ret m2
    \<and> invar m2 \<and> lookup m2 = lookup m"
proof -
  obtain m1 where m1: "insert_new m k v = Ret m1" "invar m1" "lookup m1 = (lookup m)(k \<mapsto> v)"
    using insert_fresh [OF assms] by blast
  then obtain m2 where "del m1 k = Ret m2" "invar m2" "lookup m2 = (lookup m1)(k := None)"
    using del_spec [of m1 k] by auto
  then show ?thesis using m1 assms(2) must_get [of m1 k] by (auto simp: fun_eq_iff)
qed

text \<open>A second insertion of the same key always panics, whatever the value.\<close>

lemma insert_twice:
  assumes "invar m" and "insert_new m k v = Ret m1"
  shows "\<exists>e. insert_new m1 k w = Panic e"
proof (cases "lookup m k")
  case None
  then have "lookup m1 k = Some v" using insert_fresh [OF assms(1) None, of v] assms(2) by auto
  then show ?thesis using insert_dup [of m1 k w] by simp
next
  case (Some u)
  then show ?thesis using insert_dup [of m k v] assms(2) by auto
qed

end

interpretation mapping: kv_store kv_inv TryGet MustGet InsertNew Mapping_Update Del
  by unfold_locales (auto simp: MustGet_eq InsertNew_eq Del_eq kv_simps split: option.splits)

section \<open>Properties\<close>

text \<open>
  A mapping honours its contract: a fresh key can be inserted, read back and deleted, after which the
  contents are as before; inserting a key twice panics.
\<close>

theorem mapping_insert_delete:
  assumes "kv_inv m" and "TryGet m k = None"
  shows "(\<exists>m1 m2. InsertNew m k v = Ret m1 \<and> MustGet m1 k = Ret v \<and> (\<exists>e. InsertNew m1 k w = Panic e)
    \<and> Del m1 k = Ret m2 \<and> kv_inv m2 \<and> TryGet m2 = TryGet m)"
  using mapping.insert_then_del [OF assms, of v] mapping.insert_twice [OF assms(1)] by metis

text \<open>
  Cloning a mapping never panics and copies the contents exactly, in whatever order the map is
  traversed; the length is the number of keys in any order.
\<close>

theorem mapping_clone:
  assumes "kv_inv kv" and "go_order ord"
  shows "(\<exists>r. Clone ord kv = Ret r \<and> kv_inv r \<and> TryGet r = TryGet kv) \<and> Len ord kv = card (dom (TryGet kv))"
proof -
  have d: "distinct (ord (map fst (InnerMap kv)))" and s: "set (ord (map fst (InnerMap kv))) = dom (TryGet kv)"
    using assms set_ListAllKeys [OF assms(2), of kv] by (auto simp: kv_inv_def go_order_distinct ListAllKeys_def)
  have "\<exists>r. clone_loop kv (ord (map fst (InnerMap kv))) NewMapping = Ret r \<and> kv_inv r
    \<and> TryGet r = (\<lambda>k. if k \<in> set (ord (map fst (InnerMap kv))) then TryGet kv k else TryGet NewMapping k)"
    by (rule clone_loop_spec) (use d s in \<open>auto simp: kv_simps\<close>)
  moreover have "(\<lambda>k. if k \<in> dom (TryGet kv) then TryGet kv k else TryGet NewMapping k) = TryGet kv"
    by (rule ext) (simp add: kv_simps domIff)
  ultimately show ?thesis using Len_card [OF assms(2,1)] by (simp add: Clone_def s)
qed

end
