(* ===== verification/Acc_Prover.thy ===== *)
theory Acc_Prover
  imports Acc_Links Collections
begin

text \<open>
  The prover side of the accumulator (\<^verbatim>\<open>accumulator/proverstate.go\<close> and the \<^verbatim>\<open>*AndProve\<close>
  methods of \<^verbatim>\<open>insertion.go\<close>, \<^verbatim>\<open>deletion.go\<close>, \<^verbatim>\<open>update.go\<close>, \<^verbatim>\<open>readzero.go\<close>,
  \<^verbatim>\<open>readnonzero.go\<close>). An operation returns the new state and its trace, or panics. The
  linear scans range over a Go map: their orders are the arguments \<open>ord\<close>.
\<close>

section \<open>State\<close>

record ('e, 'k, 'v) ProverState =
  ps_Location :: string
  ps_NextFreeNode :: int
  ps_Tree :: "'e Tree"
  ps_Data :: "(int, ('e, 'k, 'v) KVOpeningTuple) Mapping"

definition InitializeProverState :: "'e gnark \<Rightarrow> 'k \<Rightarrow> 'v \<Rightarrow> string \<Rightarrow> ('e, 'k, 'v) ProverState go" where
  "InitializeProverState G zk zv location =
     (let tree = NewEmptyTree G []; head = Head G; tail = Tail G in
      go_bind (Update G tree 0 (leaf_Hash G head)) (\<lambda>tree.
      go_bind (Update G tree 1 (leaf_Hash G tail)) (\<lambda>tree.
      go_bind (InsertNew NewMapping 0 \<lparr>Opening = head, Key = zk, Value = zv\<rparr>) (\<lambda>data.
      go_bind (InsertNew data 1 \<lparr>Opening = tail, Key = zk, Value = zv\<rparr>) (\<lambda>data.
        Ret \<lparr>ps_Location = location, ps_NextFreeNode = 2, ps_Tree = tree, ps_Data = data\<rparr>)))))"

definition SubTreeRoot :: "('e, 'k, 'v) ProverState \<Rightarrow> 'e octuplet" where
  "SubTreeRoot s = Root (ps_Tree s)"

fun find_loop ::
  "(int, ('e, 'k, 'v) KVOpeningTuple) Mapping \<Rightarrow> 'e octuplet \<Rightarrow> int list \<Rightarrow> (int \<times> bool) go" where
  "find_loop data hkey [] = Ret (0, False)"
| "find_loop data hkey (i # is) =
     go_bind (MustGet data i) (\<lambda>t.
       if hkey = HKey (Opening t) then Ret (i, True) else find_loop data hkey is)"

definition FindKey ::
  "'e gnark \<Rightarrow> ('k \<Rightarrow> writes) \<Rightarrow> int range_order \<Rightarrow> ('e, 'k, 'v) ProverState \<Rightarrow> 'k \<Rightarrow> (int \<times> bool) go" where
  "FindKey G wk ord s k = find_loop (ps_Data s) (hash G (wk k)) (ListAllKeys ord (ps_Data s))"

fun sandwich_loop ::
  "'e gnark \<Rightarrow> (int, ('e, 'k, 'v) KVOpeningTuple) Mapping \<Rightarrow> 'e octuplet \<Rightarrow> int list
    \<Rightarrow> ('e octuplet \<times> int) \<times> ('e octuplet \<times> int) \<Rightarrow> (('e octuplet \<times> int) \<times> ('e octuplet \<times> int)) go" where
  "sandwich_loop G data hkey [] st = Ret st"
| "sandwich_loop G data hkey (i # is) ((hminus, iminus), (hplus, iplus)) =
     go_bind (MustGet data i) (\<lambda>t.
       let curHkey = HKey (Opening t); c = Cmp G curHkey hkey in
       if c = 0 then Panic ''Found a perfect match''
       else if c = 1 then
         sandwich_loop G data hkey is
           ((hminus, iminus), (if Cmp G curHkey hplus = -1 then (curHkey, i) else (hplus, iplus)))
       else if c = -1 then
         sandwich_loop G data hkey is
           ((if Cmp G curHkey hminus = 1 then (curHkey, i) else (hminus, iminus)), (hplus, iplus))
       else sandwich_loop G data hkey is ((hminus, iminus), (hplus, iplus)))"

definition findSandwich ::
  "'e gnark \<Rightarrow> ('k \<Rightarrow> writes) \<Rightarrow> int range_order \<Rightarrow> ('e, 'k, 'v) ProverState \<Rightarrow> 'k \<Rightarrow> (int \<times> int) go" where
  "findSandwich G wk ord s k =
     go_bind (sandwich_loop G (ps_Data s) (hash G (wk k)) (ListAllKeys ord (ps_Data s))
                ((oct_zero G, 0), (MaxKoalaOctuplet G, 1)))
       (\<lambda>((hminus, iminus), (hplus, iplus)).
          if iminus = iplus then Panic ''iplus, iminus, hplus, hminus, hkey'' else Ret (iminus, iplus))"

definition upsertTuple ::
  "'e gnark \<Rightarrow> ('k \<Rightarrow> writes) \<Rightarrow> ('v \<Rightarrow> writes) \<Rightarrow> ('e, 'k, 'v) ProverState \<Rightarrow> int
    \<Rightarrow> ('e, 'k, 'v) KVOpeningTuple \<Rightarrow> (('e, 'k, 'v) ProverState \<times> 'e Proof) go" where
  "upsertTuple G wk wv s i tuple =
     (case CheckAndLeaf G wk wv tuple of
        Err _ \<Rightarrow> Panic ''illegal tuple''
      | Panic m \<Rightarrow> Panic m
      | Ret leaf \<Rightarrow>
          go_bind
            (case TryGet (ps_Data s) i of
               None \<Rightarrow> Ret ()
             | Some old \<Rightarrow>
                 (case CheckAndLeaf G wk wv old of
                    Err _ \<Rightarrow> Panic ''illegal old tuple''
                  | Panic m \<Rightarrow> Panic m
                  | Ret _ \<Rightarrow>
                      if HKey (Opening old) \<noteq> HKey (Opening tuple) then Panic ''cannot change the key''
                      else let numChanges =
                             (if HVal (Opening old) \<noteq> HVal (Opening tuple) then 1 else 0)
                           + (if Prev (Opening old) \<noteq> Prev (Opening tuple) then 1 else 0)
                           + (if Next (Opening old) \<noteq> Next (Opening tuple) then 1 else (0 :: nat))
                           in if numChanges \<noteq> 1 then Panic ''illegal change'' else Ret ()))
            (\<lambda>_.
              let data = Mapping_Update (ps_Data s) i tuple in
              go_bind (Update G (ps_Tree s) i leaf) (\<lambda>tree.
              go_bind (MustProve G tree i) (\<lambda>proof.
                Ret (s\<lparr>ps_Data := data, ps_Tree := tree\<rparr>, proof)))))"

definition rmTuple ::
  "'e gnark \<Rightarrow> ('e, 'k, 'v) ProverState \<Rightarrow> int \<Rightarrow> (('e, 'k, 'v) ProverState \<times> 'e Proof) go" where
  "rmTuple G s i =
     go_bind (MustExists (ps_Data s) [i]) (\<lambda>_.
     go_bind (Del (ps_Data s) i) (\<lambda>data.
     go_bind (Update G (ps_Tree s) i (EmptyLeaf G)) (\<lambda>tree.
     go_bind (MustProve G tree i) (\<lambda>proof.
       Ret (s\<lparr>ps_Data := data, ps_Tree := tree\<rparr>, proof)))))"

definition TopRoot_of :: "'e gnark \<Rightarrow> int \<Rightarrow> 'e octuplet \<Rightarrow> 'e octuplet go" where
  "TopRoot_of G nextFreeNode root =
     go_bind (WriteInt64On64Bytes nextFreeNode) (\<lambda>w0.
     go_bind (Sum G (hash_run G [w0, ToBytes G root]) []) (\<lambda>(bytes32, _).
       must (BytesToKoalaOctuplet G bytes32)))"

definition TopRoot :: "'e gnark \<Rightarrow> ('e, 'k, 'v) ProverState \<Rightarrow> 'e octuplet go" where
  "TopRoot G s = TopRoot_of G (ps_NextFreeNode s) (SubTreeRoot s)"

section \<open>Traces\<close>

record ('e, 'k, 'v) InsertionTrace =
  it_Type :: int
  it_Location :: string
  it_NewNextFreeNode :: int
  it_OldSubRoot :: "'e octuplet"
  it_NewSubRoot :: "'e octuplet"
  it_ProofMinus :: "'e Proof"
  it_ProofNew :: "'e Proof"
  it_ProofPlus :: "'e Proof"
  it_Key :: 'k
  it_Val :: 'v
  it_OldOpenMinus :: "'e LeafOpening"
  it_OldOpenPlus :: "'e LeafOpening"

record ('e, 'k, 'v) DeletionTrace =
  dt_Type :: int
  dt_Location :: string
  dt_NewNextFreeNode :: int
  dt_OldSubRoot :: "'e octuplet"
  dt_NewSubRoot :: "'e octuplet"
  dt_ProofMinus :: "'e Proof"
  dt_ProofDeleted :: "'e Proof"
  dt_ProofPlus :: "'e Proof"
  dt_Key :: 'k
  dt_OldOpenMinus :: "'e LeafOpening"
  dt_DeletedOpen :: "'e LeafOpening"
  dt_OldOpenPlus :: "'e LeafOpening"
  dt_DeletedValue :: 'v

record ('e, 'k, 'v) UpdateTrace =
  ut_Type :: int
  ut_Location :: string
  ut_Key :: 'k
  ut_OldValue :: 'v
  ut_NewValue :: 'v
  ut_NewNextFreeNode :: int
  ut_OldSubRoot :: "'e octuplet"
  ut_NewSubRoot :: "'e octuplet"
  ut_OldOpening :: "'e LeafOpening"
  ut_Proof :: "'e Proof"

record ('e, 'k) ReadZeroTrace =
  rz_Type :: int
  rz_Location :: string
  rz_Key :: 'k
  rz_SubRoot :: "'e octuplet"
  rz_NextFreeNode :: int
  rz_OpeningMinus :: "'e LeafOpening"
  rz_OpeningPlus :: "'e LeafOpening"
  rz_ProofMinus :: "'e Proof"
  rz_ProofPlus :: "'e Proof"

record ('e, 'k, 'v) ReadNonZeroTrace =
  rn_Type :: int
  rn_Location :: string
  rn_NextFreeNode :: int
  rn_Key :: 'k
  rn_Value :: 'v
  rn_SubRoot :: "'e octuplet"
  rn_LeafOpening :: "'e LeafOpening"
  rn_Proof :: "'e Proof"

section \<open>Operations\<close>

definition InsertAndProve ::
  "'e gnark \<Rightarrow> ('k \<Rightarrow> writes) \<Rightarrow> ('v \<Rightarrow> writes) \<Rightarrow> int range_order \<Rightarrow> int range_order
    \<Rightarrow> ('e, 'k, 'v) ProverState \<Rightarrow> 'k \<Rightarrow> 'v
    \<Rightarrow> (('e, 'k, 'v) ProverState \<times> ('e, 'k, 'v) InsertionTrace) go" where
  "InsertAndProve G wk wv ord1 ord2 p key val =
     go_bind (FindKey G wk ord1 p key) (\<lambda>(_, found).
     if found then Panic ''called insert, but the key was present''
     else
     go_bind (findSandwich G wk ord2 p key) (\<lambda>(iMinus, iPlus).
     go_bind (MustGet (ps_Data p) iMinus) (\<lambda>tupleMinus.
     go_bind (MustGet (ps_Data p) iPlus) (\<lambda>tuplePlus.
     let oldSubRoot = SubTreeRoot p; iInserted = ps_NextFreeNode p in
     go_bind (upsertTuple G wk wv p iMinus (tuple_CopyWithNext tupleMinus iInserted)) (\<lambda>(p1, proofMinus).
     let insertedTuple = \<lparr>Opening = \<lparr>Prev = iMinus, Next = iPlus, HKey = hash G (wk key), HVal = hash G (wv val)\<rparr>,
                          Key = key, Value = val\<rparr> in
     go_bind (upsertTuple G wk wv p1 iInserted insertedTuple) (\<lambda>(p2, proofNew).
     go_bind (upsertTuple G wk wv p2 iPlus (tuple_CopyWithPrev tuplePlus iInserted)) (\<lambda>(p3, proofPlus).
     let p4 = p3\<lparr>ps_NextFreeNode := i64 (ps_NextFreeNode p3 + 1)\<rparr> in
       Ret (p4, \<lparr>it_Type = 0, it_Location = ps_Location p,
                 it_NewNextFreeNode = i64 (ps_NextFreeNode p + 1),
                 it_OldSubRoot = oldSubRoot, it_NewSubRoot = SubTreeRoot p4,
                 it_ProofMinus = proofMinus, it_ProofNew = proofNew, it_ProofPlus = proofPlus,
                 it_Key = key, it_Val = val,
                 it_OldOpenMinus = Opening tupleMinus, it_OldOpenPlus = Opening tuplePlus\<rparr>))))))))"

definition DeleteAndProve ::
  "'e gnark \<Rightarrow> ('k \<Rightarrow> writes) \<Rightarrow> ('v \<Rightarrow> writes) \<Rightarrow> int range_order \<Rightarrow> ('e, 'k, 'v) ProverState \<Rightarrow> 'k
    \<Rightarrow> (('e, 'k, 'v) ProverState \<times> ('e, 'k, 'v) DeletionTrace) go" where
  "DeleteAndProve G wk wv ord p key =
     go_bind (FindKey G wk ord p key) (\<lambda>(i, found).
     if \<not> found then Panic ''called delete, but the key was not present''
     else
     go_bind (MustGet (ps_Data p) i) (\<lambda>tuple.
     let iMinus = Prev (Opening tuple); iPlus = Next (Opening tuple) in
     go_bind (MustGet (ps_Data p) iMinus) (\<lambda>tupleMinus.
     go_bind (MustGet (ps_Data p) iPlus) (\<lambda>tuplePlus.
     go_bind (upsertTuple G wk wv p iMinus (tuple_CopyWithNext tupleMinus iPlus)) (\<lambda>(p1, proofMinus).
     go_bind (rmTuple G p1 i) (\<lambda>(p2, proofDeleted).
     go_bind (upsertTuple G wk wv p2 iPlus (tuple_CopyWithPrev tuplePlus iMinus)) (\<lambda>(p3, proofPlus).
       Ret (p3, \<lparr>dt_Type = 0, dt_Location = ps_Location p, dt_NewNextFreeNode = ps_NextFreeNode p,
                 dt_OldSubRoot = SubTreeRoot p, dt_NewSubRoot = SubTreeRoot p3,
                 dt_ProofMinus = proofMinus, dt_ProofDeleted = proofDeleted, dt_ProofPlus = proofPlus,
                 dt_Key = key, dt_OldOpenMinus = Opening tupleMinus, dt_DeletedOpen = Opening tuple,
                 dt_OldOpenPlus = Opening tuplePlus, dt_DeletedValue = Value tuple\<rparr>))))))))"

definition UpdateAndProve ::
  "'e gnark \<Rightarrow> ('k \<Rightarrow> writes) \<Rightarrow> ('v \<Rightarrow> writes) \<Rightarrow> int range_order \<Rightarrow> ('e, 'k, 'v) ProverState \<Rightarrow> 'k \<Rightarrow> 'v
    \<Rightarrow> (('e, 'k, 'v) ProverState \<times> ('e, 'k, 'v) UpdateTrace) go" where
  "UpdateAndProve G wk wv ord p key newVal =
     go_bind (FindKey G wk ord p key) (\<lambda>(i, found).
     if \<not> found then Panic ''called update, but the key was not present''
     else
     go_bind (MustGet (ps_Data p) i) (\<lambda>tuple.
     if hash G (wk key) \<noteq> hash G (wk (Key tuple)) then Panic ''sanity-check : the key mismatched''
     else
     let tuple' = tuple\<lparr>Value := newVal, Opening := (Opening tuple)\<lparr>HVal := hash G (wv newVal)\<rparr>\<rparr>;
         data = Mapping_Update (ps_Data p) i tuple' in
     go_bind (Update G (ps_Tree p) i (leaf_Hash G (Opening tuple'))) (\<lambda>tree.
     go_bind (MustProve G tree i) (\<lambda>proof.
       let p' = p\<lparr>ps_Data := data, ps_Tree := tree\<rparr> in
       Ret (p', \<lparr>ut_Type = 0, ut_Location = ps_Location p, ut_Key = Key tuple, ut_OldValue = Value tuple,
                 ut_NewValue = newVal, ut_NewNextFreeNode = ps_NextFreeNode p,
                 ut_OldSubRoot = SubTreeRoot p, ut_NewSubRoot = SubTreeRoot p',
                 ut_OldOpening = Opening tuple, ut_Proof = proof\<rparr>)))))"

definition ReadZeroAndProve ::
  "'e gnark \<Rightarrow> ('k \<Rightarrow> writes) \<Rightarrow> int range_order \<Rightarrow> int range_order \<Rightarrow> ('e, 'k, 'v) ProverState \<Rightarrow> 'k
    \<Rightarrow> ('e, 'k) ReadZeroTrace go" where
  "ReadZeroAndProve G wk ord1 ord2 p key =
     go_bind (FindKey G wk ord1 p key) (\<lambda>(_, found).
     if found then Panic ''called read-zero, but the key was present''
     else
     go_bind (findSandwich G wk ord2 p key) (\<lambda>(iMinus, iPlus).
     go_bind (MustGet (ps_Data p) iMinus) (\<lambda>dataMinus.
     go_bind (MustGet (ps_Data p) iPlus) (\<lambda>dataPlus.
     go_bind (MustProve G (ps_Tree p) iMinus) (\<lambda>proofMinus.
     go_bind (MustProve G (ps_Tree p) iPlus) (\<lambda>proofPlus.
       Ret \<lparr>rz_Type = 0, rz_Location = ps_Location p, rz_Key = key, rz_SubRoot = SubTreeRoot p,
            rz_NextFreeNode = ps_NextFreeNode p,
            rz_OpeningMinus = Opening dataMinus, rz_OpeningPlus = Opening dataPlus,
            rz_ProofMinus = proofMinus, rz_ProofPlus = proofPlus\<rparr>))))))"

definition ReadNonZeroAndProve ::
  "'e gnark \<Rightarrow> ('k \<Rightarrow> writes) \<Rightarrow> int range_order \<Rightarrow> ('e, 'k, 'v) ProverState \<Rightarrow> 'k
    \<Rightarrow> ('e, 'k, 'v) ReadNonZeroTrace go" where
  "ReadNonZeroAndProve G wk ord p key =
     go_bind (FindKey G wk ord p key) (\<lambda>(i, found).
     if \<not> found then Panic ''called read-non-zero, but the key was not present''
     else
     go_bind (MustGet (ps_Data p) i) (\<lambda>tuple.
     if hash G (wk key) \<noteq> hash G (wk (Key tuple)) then Panic ''sanity-check : the key mismatched''
     else
     go_bind (MustProve G (ps_Tree p) i) (\<lambda>proof.
       Ret \<lparr>rn_Type = 0, rn_Location = ps_Location p, rn_NextFreeNode = ps_NextFreeNode p,
            rn_Key = Key tuple, rn_Value = Value tuple, rn_SubRoot = SubTreeRoot p,
            rn_LeafOpening = Opening tuple, rn_Proof = proof\<rparr>)))"

section \<open>The accumulator a prover state represents\<close>

definition links_of :: "('e, 'k, 'v) ProverState \<Rightarrow> 'e links" where
  "links_of p = (\<lambda>i. map_option Opening (TryGet (ps_Data p) i))"

definition leaves :: "'e gnark \<Rightarrow> 'e links \<Rightarrow> nat \<Rightarrow> 'e octuplet" where
  "leaves G op = (\<lambda>i. case op (int i) of None \<Rightarrow> EmptyLeaf G | Some l \<Rightarrow> leaf_Hash G l)"

definition aroot :: "'e gnark \<Rightarrow> 'e links \<Rightarrow> 'e octuplet" where
  "aroot G op = mnode (hashLR G) (leaves G op) DefaultDepth 0"

text \<open>The tree and the data agree; every stored tuple is consistent.\<close>

definition acc_ok ::
  "'e gnark \<Rightarrow> ('k \<Rightarrow> writes) \<Rightarrow> ('v \<Rightarrow> writes) \<Rightarrow> ('e, 'k, 'v) ProverState \<Rightarrow> bool" where
  "acc_ok G wk wv p \<longleftrightarrow> kv_inv (ps_Data p) \<and> tree_inv G (ps_Tree p) \<and> Depth (ps_Tree p) = DefaultDepth
     \<and> leaf_at G (ps_Tree p) = leaves G (links_of p)
     \<and> (\<forall>i t. TryGet (ps_Data p) i = Some t \<longrightarrow>
          0 \<le> i \<and> i < 2 ^ DefaultDepth \<and> CheckAndLeaf G wk wv t = Ret (leaf_Hash G (Opening t)))"

definition acc_inv ::
  "'e gnark \<Rightarrow> ('k \<Rightarrow> writes) \<Rightarrow> ('v \<Rightarrow> writes) \<Rightarrow> ('e, 'k, 'v) ProverState \<Rightarrow> bool" where
  "acc_inv G wk wv p \<longleftrightarrow> acc_ok G wk wv p \<and> well_linked G (links_of p)
     \<and> 2 \<le> ps_NextFreeNode p \<and> ps_NextFreeNode p \<le> 2 ^ DefaultDepth
     \<and> (\<forall>i \<in> dom (links_of p). i < ps_NextFreeNode p)"

lemma links_of_Some: "links_of p i = Some l \<longleftrightarrow> (\<exists>t. TryGet (ps_Data p) i = Some t \<and> Opening t = l)"
  by (auto simp: links_of_def)

lemma dom_links_of: "dom (links_of p) = dom (TryGet (ps_Data p))"
  by (auto simp: links_of_def)

lemma acc_ok_root: "acc_ok G wk wv p \<Longrightarrow> SubTreeRoot p = aroot G (links_of p)"
  by (auto simp: acc_ok_def SubTreeRoot_def aroot_def dest!: tree_inv_Root)

lemma leaves_upd:
  "0 \<le> i \<Longrightarrow> leaves G (op(i \<mapsto> l)) = (leaves G op)(nat i := leaf_Hash G l)"
  "0 \<le> i \<Longrightarrow> leaves G (op(i := None)) = (leaves G op)(nat i := EmptyLeaf G)"
  by (auto simp: leaves_def fun_eq_iff)

section \<open>One audited change of a tuple\<close>

text \<open>A Merkle proof for a tree of the default depth.\<close>

definition sized :: "'e Proof \<Rightarrow> bool" where
  "sized pf \<longleftrightarrow> length (Siblings pf) = DefaultDepth"

text \<open>
  The result of changing the data at position \<open>i\<close>: the state is consistent again, and the
  returned proof leads from the old leaf to the old root and from the new leaf to the new one.
\<close>

definition upd_post ::
  "'e gnark \<Rightarrow> ('k \<Rightarrow> writes) \<Rightarrow> ('v \<Rightarrow> writes) \<Rightarrow> ('e, 'k, 'v) ProverState \<Rightarrow> int
    \<Rightarrow> (int \<Rightarrow> ('e, 'k, 'v) KVOpeningTuple option) \<Rightarrow> ('e, 'k, 'v) ProverState \<times> 'e Proof \<Rightarrow> bool" where
  "upd_post G wk wv p i data r \<longleftrightarrow> (case r of (p', pf) \<Rightarrow>
     acc_ok G wk wv p' \<and> TryGet (ps_Data p') = data
     \<and> ps_NextFreeNode p' = ps_NextFreeNode p \<and> ps_Location p' = ps_Location p \<and> Path pf = i \<and> sized pf
     \<and> RecoverRoot G pf (leaves G (links_of p) (nat i)) = Ret (SubTreeRoot p)
     \<and> RecoverRoot G pf (leaves G (links_of p') (nat i)) = Ret (SubTreeRoot p'))"

lemma tree_step:
  assumes ok: "acc_ok G wk wv p" and i: "0 \<le> i" "i < 2 ^ DefaultDepth"
    and data: "kv_inv data"
      "\<forall>k t. TryGet data k = Some t \<longrightarrow> 0 \<le> k \<and> k < 2 ^ DefaultDepth \<and> CheckAndLeaf G wk wv t = Ret (leaf_Hash G (Opening t))"
    and leaf: "leaves G (\<lambda>k. map_option Opening (TryGet data k)) = (leaves G (links_of p))(nat i := v)"
  shows "ret_or (upd_post G wk wv p i (TryGet data)) (zero_panics G)
    (go_bind (Update G (ps_Tree p) i v) (\<lambda>tree. go_bind (MustProve G tree i) (\<lambda>proof.
       Ret (p\<lparr>ps_Data := data, ps_Tree := tree\<rparr>, proof))))"
proof -
  let ?t = "ps_Tree p"
  have inv: "tree_inv G ?t" and D: "Depth ?t = DefaultDepth" and lf: "leaf_at G ?t = leaves G (links_of p)"
    using ok by (auto simp: acc_ok_def)
  have n: "nat i < 2 ^ Depth ?t" and ni: "int (nat i) = i" using i by (simp_all add: D nat_less_iff)
  have "ret_or (\<lambda>(t', pf). tree_inv G t' \<and> Depth t' = Depth ?t \<and> leaf_at G t' = (leaf_at G ?t)(nat i := v)
      \<and> Path pf = i \<and> length (Siblings pf) = Depth ?t \<and> RecoverRoot G pf (leaf_at G ?t (nat i)) = Ret (Root ?t)
      \<and> RecoverRoot G pf v = Ret (Root t')) (zero_panics G)
    (go_bind (Update G ?t i v) (\<lambda>t'. go_bind (MustProve G t' i) (\<lambda>pf. Ret (t', pf))))"
    using smt.audited_update [OF inv n, of v] by (simp only: ni)
  then have "ret_or (upd_post G wk wv p i (TryGet data)) (zero_panics G)
    (go_bind (go_bind (Update G ?t i v) (\<lambda>t'. go_bind (MustProve G t' i) (\<lambda>pf. Ret (t', pf))))
      (\<lambda>(tree, proof). Ret (p\<lparr>ps_Data := data, ps_Tree := tree\<rparr>, proof)))"
    by (rule ret_or_bind)
      (use ok data leaf D lf in \<open>auto simp: upd_post_def acc_ok_def links_of_def SubTreeRoot_def sized_def\<close>)
  then show ?thesis by (simp add: go_bind_assoc)
qed

definition legal_change :: "('e, 'k, 'v) KVOpeningTuple option \<Rightarrow> 'e LeafOpening \<Rightarrow> bool" where
  "legal_change old new \<longleftrightarrow> (case old of None \<Rightarrow> True | Some t \<Rightarrow> HKey (Opening t) = HKey new
     \<and> HVal (Opening t) = HVal new \<and> (Prev (Opening t) = Prev new \<longleftrightarrow> Next (Opening t) \<noteq> Next new))"

lemma upsertTuple_spec:
  assumes ok: "acc_ok G wk wv p" and i: "0 \<le> i" "i < 2 ^ DefaultDepth"
    and chk: "CheckAndLeaf G wk wv t = Ret (leaf_Hash G (Opening t))"
    and legal: "legal_change (TryGet (ps_Data p) i) (Opening t)"
  shows "ret_or (upd_post G wk wv p i ((TryGet (ps_Data p))(i \<mapsto> t))) (zero_panics G) (upsertTuple G wk wv p i t)"
proof -
  let ?data = "Mapping_Update (ps_Data p) i t"
  have old: "CheckAndLeaf G wk wv t0 = Ret (leaf_Hash G (Opening t0))" if "TryGet (ps_Data p) i = Some t0" for t0
    using ok that by (auto simp: acc_ok_def)
  have run: "upsertTuple G wk wv p i t = go_bind (Update G (ps_Tree p) i (leaf_Hash G (Opening t)))
      (\<lambda>tree. go_bind (MustProve G tree i) (\<lambda>proof. Ret (p\<lparr>ps_Data := ?data, ps_Tree := tree\<rparr>, proof)))"
    using chk old legal
    by (auto simp: upsertTuple_def legal_change_def Let_def split: option.splits)
  have up: "(\<lambda>k. map_option Opening (((TryGet (ps_Data p))(i \<mapsto> t)) k)) = (links_of p)(i \<mapsto> Opening t)"
    by (auto simp: links_of_def)
  have "ret_or (upd_post G wk wv p i (TryGet ?data)) (zero_panics G) (upsertTuple G wk wv p i t)"
    unfolding run
  proof (rule tree_step [OF ok i])
    show "kv_inv ?data" using ok by (simp add: acc_ok_def kv_simps)
    show "\<forall>k u. TryGet ?data k = Some u \<longrightarrow>
      0 \<le> k \<and> k < 2 ^ DefaultDepth \<and> CheckAndLeaf G wk wv u = Ret (leaf_Hash G (Opening u))"
      using ok i chk by (simp add: acc_ok_def kv_simps)
    show "leaves G (\<lambda>k. map_option Opening (TryGet ?data k)) = (leaves G (links_of p))(nat i := leaf_Hash G (Opening t))"
      using i by (simp only: kv_simps up leaves_upd)
  qed
  then show ?thesis by (simp only: kv_simps)
qed

lemma rmTuple_spec:
  assumes ok: "acc_ok G wk wv p" and i: "TryGet (ps_Data p) i = Some t"
  shows "ret_or (upd_post G wk wv p i ((TryGet (ps_Data p))(i := None))) (zero_panics G) (rmTuple G p i)"
proof -
  let ?data = "Mapping_delete (ps_Data p) i"
  have r: "0 \<le> i" "i < 2 ^ DefaultDepth" using ok i by (auto simp: acc_ok_def)
  have run: "rmTuple G p i = go_bind (Update G (ps_Tree p) i (EmptyLeaf G))
      (\<lambda>tree. go_bind (MustProve G tree i) (\<lambda>proof. Ret (p\<lparr>ps_Data := ?data, ps_Tree := tree\<rparr>, proof)))"
    using i by (simp add: rmTuple_def MustExists_1 Del_eq)
  have up: "(\<lambda>k. map_option Opening (((TryGet (ps_Data p))(i := None)) k)) = (links_of p)(i := None)"
    by (auto simp: links_of_def)
  have "ret_or (upd_post G wk wv p i (TryGet ?data)) (zero_panics G) (rmTuple G p i)"
    unfolding run
  proof (rule tree_step [OF ok r])
    show "kv_inv ?data" using ok by (simp add: acc_ok_def kv_simps)
    show "\<forall>k u. TryGet ?data k = Some u \<longrightarrow>
      0 \<le> k \<and> k < 2 ^ DefaultDepth \<and> CheckAndLeaf G wk wv u = Ret (leaf_Hash G (Opening u))"
      using ok by (simp add: acc_ok_def kv_simps)
    show "leaves G (\<lambda>k. map_option Opening (TryGet ?data k)) = (leaves G (links_of p))(nat i := EmptyLeaf G)"
      using r by (simp only: kv_simps up leaves_upd)
  qed
  then show ?thesis by (simp only: kv_simps)
qed

section \<open>The linear scans\<close>

lemma find_loop_spec:
  "set is \<subseteq> dom (TryGet data) \<Longrightarrow>
     (\<exists>i t. find_loop data h is = Ret (i, True) \<and> TryGet data i = Some t \<and> HKey (Opening t) = h)
   \<or> find_loop data h is = Ret (0, False) \<and> (\<forall>i \<in> set is. \<forall>t. TryGet data i = Some t \<longrightarrow> HKey (Opening t) \<noteq> h)"
proof (induction "is")
  case (Cons j "is")
  then obtain t where t: "TryGet data j = Some t" by auto
  show ?case
  proof (cases "h = HKey (Opening t)")
    case True
    then show ?thesis using t by (auto simp: MustGet_eq)
  next
    case False
    then have "find_loop data h (j # is) = find_loop data h is" using t by (simp add: MustGet_eq)
    then show ?thesis using Cons False t by auto
  qed
qed simp

lemma FindKey_spec:
  assumes "go_order ord"
  shows "(\<exists>i l. FindKey G wk ord p key = Ret (i, True) \<and> links_of p i = Some l \<and> HKey l = hash G (wk key))
   \<or> FindKey G wk ord p key = Ret (0, False) \<and> (\<forall>i l. links_of p i = Some l \<longrightarrow> HKey l \<noteq> hash G (wk key))"
  using find_loop_spec [of "ListAllKeys ord (ps_Data p)" "ps_Data p" "hash G (wk key)"]
    set_ListAllKeys [OF assms, of "ps_Data p"]
  unfolding FindKey_def links_of_Some by (auto simp: links_of_def)

lemma FindKey_absent:
  assumes "go_order ord" and "\<forall>i l. links_of p i = Some l \<longrightarrow> HKey l \<noteq> hash G (wk key)"
  shows "FindKey G wk ord p key = Ret (0, False)"
  using FindKey_spec [OF assms(1), of G wk p key] assms(2) by blast

lemma FindKey_present:
  assumes "go_order ord" and "links_of p i = Some l" and "HKey l = hash G (wk key)"
    and "well_linked G (links_of p)"
  shows "FindKey G wk ord p key = Ret (i, True)"
proof -
  obtain j l' where j: "FindKey G wk ord p key = Ret (j, True)" "links_of p j = Some l'" "HKey l' = hash G (wk key)"
    using FindKey_spec [OF assms(1), of G wk p key] assms(2,3) by blast
  then have "j = i"
    using assms(2-4) unfolding well_linked_def by (metis domI hk_Some inj_onD)
  with j show ?thesis by simp
qed

text \<open>The invariant of the scan for the sandwich, \<open>V\<close> being the positions visited so far.\<close>

definition sandwiched ::
  "'e gnark \<Rightarrow> 'e links \<Rightarrow> 'e octuplet \<Rightarrow> int set \<Rightarrow> ('e octuplet \<times> int) \<times> ('e octuplet \<times> int) \<Rightarrow> bool" where
  "sandwiched G op h V st \<longleftrightarrow> (case st of ((hm, im), (hp, ip)) \<Rightarrow>
     op im \<noteq> None \<and> hm = hk op im \<and> Cmp G hm h = -1 \<and> op ip \<noteq> None \<and> hp = hk op ip \<and> Cmp G h hp = -1
     \<and> (\<forall>k \<in> V. \<not> (Cmp G hm (hk op k) = -1 \<and> Cmp G (hk op k) h = -1)
              \<and> \<not> (Cmp G h (hk op k) = -1 \<and> Cmp G (hk op k) hp = -1)))"

context felt
begin

lemma sandwiched_above:
  assumes st: "sandwiched G op h V ((hm, im), (hp, ip))" and i: "op i \<noteq> None" and c: "lt h (hk op i)"
  shows "sandwiched G op h (insert i V) ((hm, im), (if lt (hk op i) hp then (hk op i, i) else (hp, ip)))"
proof (cases "lt (hk op i) hp")
  case True
  then have "\<not> lt (hk op k) (hk op i)" if "k \<in> V" "lt h (hk op k)" for k
    using st that ord.less_trans [of "hk op k" "hk op i" hp] by (auto simp: sandwiched_def)
  moreover have "\<not> lt (hk op i) h" using c ord.less_asym by blast
  ultimately show ?thesis using True st i c by (auto simp: sandwiched_def)
next
  case False
  moreover have "\<not> lt (hk op i) h" using c ord.less_asym by blast
  ultimately show ?thesis using st by (auto simp: sandwiched_def)
qed

lemma sandwiched_below:
  assumes st: "sandwiched G op h V ((hm, im), (hp, ip))" and i: "op i \<noteq> None" and c: "lt (hk op i) h"
  shows "sandwiched G op h (insert i V) ((if lt hm (hk op i) then (hk op i, i) else (hm, im)), (hp, ip))"
proof (cases "lt hm (hk op i)")
  case True
  then have "\<not> lt (hk op i) (hk op k)" if "k \<in> V" "lt (hk op k) h" for k
    using st that ord.less_trans [of hm "hk op i" "hk op k"] by (auto simp: sandwiched_def)
  moreover have "\<not> lt h (hk op i)" using c ord.less_asym by blast
  ultimately show ?thesis using True st i c by (auto simp: sandwiched_def)
next
  case False
  moreover have "\<not> lt h (hk op i)" using c ord.less_asym by blast
  ultimately show ?thesis using st by (auto simp: sandwiched_def)
qed

lemma sandwich_loop_spec:
  assumes "set is \<subseteq> dom (TryGet data)" and "op = (\<lambda>i. map_option Opening (TryGet data i))"
    and "\<forall>i l. op i = Some l \<longrightarrow> HKey l \<noteq> h" and "sandwiched G op h V st"
  shows "\<exists>st'. sandwich_loop G data h is st = Ret st' \<and> sandwiched G op h (V \<union> set is) st'"
  using assms(1,4)
proof (induction "is" arbitrary: V st)
  case (Cons i "is")
  obtain hm im hp ip where st: "st = ((hm, im), (hp, ip))" by (metis prod.exhaust)
  obtain t where t: "TryGet data i = Some t" using Cons.prems(1) by auto
  then have op: "op i = Some (Opening t)" by (simp add: assms(2))
  then have hki: "hk op i = HKey (Opening t)" and "HKey (Opening t) \<noteq> h" using assms(3) by auto
  note run = MustGet_eq t st Let_def
  have sub: "set is \<subseteq> dom (TryGet data)" using Cons.prems(1) by simp
  from \<open>HKey (Opening t) \<noteq> h\<close> consider "lt h (HKey (Opening t))" | "lt (HKey (Opening t)) h"
    using ord.neq_iff by blast
  then show ?case
  proof cases
    case 1
    then have c: "Cmp G (HKey (Opening t)) h = 1" by (simp add: Cmp_1_iff)
    let ?st = "((hm, im), (if lt (HKey (Opening t)) hp then (HKey (Opening t), i) else (hp, ip)))"
    have r: "sandwich_loop G data h (i # is) st = sandwich_loop G data h is ?st"
      using c \<open>HKey (Opening t) \<noteq> h\<close> by (simp add: run)
    have "sandwiched G op h (insert i V) ?st"
      by (rule sandwiched_above [OF Cons.prems(2) [unfolded st], of i, unfolded hki]) (use 1 op in simp_all)
    from Cons.IH [OF sub this] show ?thesis by (simp only: r list.set Un_insert_left Un_insert_right)
  next
    case 2
    let ?st = "((if lt hm (HKey (Opening t)) then (HKey (Opening t), i) else (hm, im)), (hp, ip))"
    have r: "sandwich_loop G data h (i # is) st = sandwich_loop G data h is ?st"
      using 2 \<open>HKey (Opening t) \<noteq> h\<close> by (simp add: run Cmp_1_iff)
    have "sandwiched G op h (insert i V) ?st"
      by (rule sandwiched_below [OF Cons.prems(2) [unfolded st], of i, unfolded hki]) (use 2 op in simp_all)
    from Cons.IH [OF sub this] show ?thesis by (simp only: r list.set Un_insert_left Un_insert_right)
  qed
qed simp

lemma findSandwich_spec:
  assumes wl: "well_linked G (links_of p)" and ord: "go_order ord"
    and absent: "\<forall>i l. links_of p i = Some l \<longrightarrow> HKey l \<noteq> hash G (wk key)"
  shows "\<exists>im ip lm lp. findSandwich G wk ord p key = Ret (im, ip) \<and> links_of p im = Some lm \<and> links_of p ip = Some lp
    \<and> Next lm = ip \<and> Prev lp = im \<and> im \<noteq> ip \<and> lt (HKey lm) (hash G (wk key)) \<and> lt (hash G (wk key)) (HKey lp)"
proof -
  let ?op = "links_of p" and ?h = "hash G (wk key)"
  have base: "?op 0 \<noteq> None" "?op 1 \<noteq> None" "hk ?op 0 = oct_zero G" "hk ?op 1 = MaxKoalaOctuplet G"
    and inj: "inj_on (hk ?op) (dom ?op)"
    using wl by (auto simp: well_linked_def)
  have "oct_zero G \<noteq> ?h" "MaxKoalaOctuplet G \<noteq> ?h" using base absent by (auto simp: hk_def)
  then have "lt (oct_zero G) ?h" "lt ?h (MaxKoalaOctuplet G)"
    using Cmp_zero_least [of ?h] Cmp_max_greatest [of ?h] ord.le_less [of "oct_zero G" ?h]
      ord.le_less [of ?h "MaxKoalaOctuplet G"] by simp_all
  then have "sandwiched G ?op ?h {} ((oct_zero G, 0), (MaxKoalaOctuplet G, 1))"
    using base by (auto simp: sandwiched_def)
  then have "\<exists>st. sandwich_loop G (ps_Data p) ?h (ListAllKeys ord (ps_Data p))
        ((oct_zero G, 0), (MaxKoalaOctuplet G, 1)) = Ret st
      \<and> sandwiched G ?op ?h ({} \<union> set (ListAllKeys ord (ps_Data p))) st"
    by (intro sandwich_loop_spec absent) (simp_all add: set_ListAllKeys [OF ord] links_of_def)
  then obtain hm im hp ip where run: "sandwich_loop G (ps_Data p) ?h (ListAllKeys ord (ps_Data p))
        ((oct_zero G, 0), (MaxKoalaOctuplet G, 1)) = Ret ((hm, im), (hp, ip))"
    and s: "sandwiched G ?op ?h (dom ?op) ((hm, im), (hp, ip))"
    by (auto simp: set_ListAllKeys [OF ord] dom_links_of)
  obtain lm lp where l: "?op im = Some lm" "?op ip = Some lp"
    and h: "lt (HKey lm) ?h" "lt ?h (HKey lp)" using s by (auto simp: sandwiched_def)
  have lmp: "lt (HKey lm) (HKey lp)" using h ord.less_trans by blast
  have ad: "adj G (hk ?op) (dom ?op) im ip"
    unfolding adj_def
  proof (intro conjI ballI notI)
    fix k
    assume k: "k \<in> dom ?op" "lt (hk ?op im) (hk ?op k) \<and> lt (hk ?op k) (hk ?op ip)"
    then have "hk ?op k \<noteq> ?h" using absent by (auto simp: hk_def)
    then have "lt (hk ?op k) ?h \<or> lt ?h (hk ?op k)" using ord.neq_iff by blast
    then show False using s k by (auto simp: sandwiched_def)
  qed (use l lmp in auto)
  have nx: "adj G (hk ?op) (dom ?op) im (Next lm)" and pv: "adj G (hk ?op) (dom ?op) (Prev lp) ip"
    using wl_next [OF wl l(1)] wl_prev [OF wl l(2)] wl_not_tail [OF wl l(1) h(1)] wl_not_head [OF wl l(2) h(2)]
    by simp_all
  have "Next lm = ip" "Prev lp = im" "im \<noteq> ip"
    by (rule adj_right_unique [OF nx ad inj] adj_left_unique [OF pv ad inj] adj_neq [OF ad])+
  then show ?thesis using run l h by (auto simp: findSandwich_def)
qed

end

end
