(* ===== verification/Acc_Verifier.thy ===== *)
theory Acc_Verifier
  imports Acc_Prover
begin

text \<open>
  The verifier side of the accumulator (\<^verbatim>\<open>accumulator/verifierstate.go\<close>, the \<^verbatim>\<open>*Verify\<close>
  and \<^verbatim>\<open>DeferMerkleChecks\<close> methods). A verification that fails before the state is written
  is an \<open>Err\<close>, and the caller's state is unchanged. \<^verbatim>\<open>VerifyInsertion\<close> writes the state
  before its last check, so it returns the state together with the error.
\<close>

record 'e VerifierState =
  vs_Location :: string
  vs_NextFreeNode :: int
  vs_SubTreeRoot :: "'e octuplet"

definition VerifierState_of :: "('e, 'k, 'v) ProverState \<Rightarrow> 'e VerifierState" where
  "VerifierState_of p =
     \<lparr>vs_Location = ps_Location p, vs_NextFreeNode = ps_NextFreeNode p, vs_SubTreeRoot = Root (ps_Tree p)\<rparr>"

definition on_err :: "string \<Rightarrow> 'a go \<Rightarrow> 'a go" where
  "on_err msg m = (case m of Ret x \<Rightarrow> Ret x | Err _ \<Rightarrow> Err msg | Panic s \<Rightarrow> Panic s)"

definition updateCheckRoot ::
  "'e gnark \<Rightarrow> 'e Proof \<Rightarrow> 'e octuplet \<Rightarrow> 'e octuplet \<Rightarrow> 'e octuplet \<Rightarrow> 'e octuplet go" where
  "updateCheckRoot G proof root old new =
     go_bind (on_err ''root update audit failed : could not authenticate the old'' (Verify G proof old root))
       (\<lambda>_. RecoverRoot G proof new)"

definition verifier_TopRoot :: "'e gnark \<Rightarrow> 'e VerifierState \<Rightarrow> 'e octuplet go" where
  "verifier_TopRoot G v =
     go_bind (WriteInt64On64Bytes (vs_NextFreeNode v)) (\<lambda>w0.
     go_bind (Sum G (hash_run G [w0, ToBytes G (vs_SubTreeRoot v)]) []) (\<lambda>(digest, _).
       MustBytesToKoalaOctuplet G digest))"

definition deferCheckUpdateRoot ::
  "'e gnark \<Rightarrow> 'e Proof \<Rightarrow> 'e octuplet \<Rightarrow> 'e octuplet \<Rightarrow> 'e octuplet \<Rightarrow> 'e ProvedClaim list
    \<Rightarrow> ('e ProvedClaim list \<times> 'e octuplet) go" where
  "deferCheckUpdateRoot G proof root old new appendTo =
     go_bind (must (RecoverRoot G proof new)) (\<lambda>newRoot.
       Ret (appendTo @ [\<lparr>pc_Proof = proof, pc_Root = root, pc_Leaf = old\<rparr>,
                        \<lparr>pc_Proof = proof, pc_Root = newRoot, pc_Leaf = new\<rparr>], newRoot))"

section \<open>Insertion\<close>

text \<open>The checks of \<^verbatim>\<open>VerifyInsertion\<close> up to the point where the state is written.\<close>

definition insertion_root ::
  "'e gnark \<Rightarrow> ('k \<Rightarrow> writes) \<Rightarrow> ('v \<Rightarrow> writes) \<Rightarrow> 'e VerifierState \<Rightarrow> ('e, 'k, 'v) InsertionTrace
    \<Rightarrow> 'e octuplet go" where
  "insertion_root G wk wv v trace =
     (if vs_Location v \<noteq> it_Location trace then Err ''inconsistent location''
      else if vs_SubTreeRoot v \<noteq> it_OldSubRoot trace then Err ''inconsistent root''
      else
      let iMinus = Path (it_ProofMinus trace); iInserted = Path (it_ProofNew trace);
          iPlus = Path (it_ProofPlus trace) in
      if iInserted \<noteq> vs_NextFreeNode v then Err ''writing in the wrong place''
      else if Next (it_OldOpenMinus trace) \<noteq> iPlus \<or> Prev (it_OldOpenPlus trace) \<noteq> iMinus
      then Err ''bad sandwich prev and next do not point to each other''
      else
      let hkey = hash G (wk (it_Key trace)) in
      if Cmp G hkey (HKey (it_OldOpenMinus trace)) < 1 \<or> Cmp G hkey (HKey (it_OldOpenPlus trace)) > -1
      then Err ''sandwich is incorrect''
      else
      let oldLeafMinus = leaf_Hash G (it_OldOpenMinus trace);
          newLeafMinus = leaf_Hash G (CopyWithNext (it_OldOpenMinus trace) (vs_NextFreeNode v)) in
      go_bind (on_err ''audit of the update of oldLeafMinus failed''
        (updateCheckRoot G (it_ProofMinus trace) (it_OldSubRoot trace) oldLeafMinus newLeafMinus)) (\<lambda>currentRoot.
      let newLeaf = leaf_Hash G \<lparr>Prev = iMinus, Next = iPlus, HKey = hkey, HVal = hash G (wv (it_Val trace))\<rparr> in
      go_bind (on_err ''audit of the update of the middle leaf failed''
        (updateCheckRoot G (it_ProofNew trace) currentRoot (EmptyLeaf G) newLeaf)) (\<lambda>currentRoot.
      let oldLeafPlus = leaf_Hash G (it_OldOpenPlus trace);
          newLeafPlus = leaf_Hash G (CopyWithPrev (it_OldOpenPlus trace) iInserted) in
      go_bind (on_err ''audit of the update of oldLeafPlus failed''
        (updateCheckRoot G (it_ProofPlus trace) currentRoot oldLeafPlus newLeafPlus)) (\<lambda>currentRoot.
      if currentRoot \<noteq> it_NewSubRoot trace then Err ''inconsistent root''
      else Ret currentRoot))))"

definition VerifyInsertion ::
  "'e gnark \<Rightarrow> ('k \<Rightarrow> writes) \<Rightarrow> ('v \<Rightarrow> writes) \<Rightarrow> 'e VerifierState \<Rightarrow> ('e, 'k, 'v) InsertionTrace
    \<Rightarrow> ('e VerifierState \<times> string option) go" where
  "VerifyInsertion G wk wv v trace =
     (case insertion_root G wk wv v trace of
        Err e \<Rightarrow> Ret (v, Some e)
      | Panic m \<Rightarrow> Panic m
      | Ret currentRoot \<Rightarrow>
          let v' = v\<lparr>vs_SubTreeRoot := currentRoot, vs_NextFreeNode := i64 (vs_NextFreeNode v + 1)\<rparr>
          in if vs_NextFreeNode v' \<noteq> it_NewNextFreeNode trace
             then Ret (v', Some ''inconsistent next free node'') else Ret (v', None))"

definition insertion_DeferMerkleChecks ::
  "'e gnark \<Rightarrow> ('k \<Rightarrow> writes) \<Rightarrow> ('v \<Rightarrow> writes) \<Rightarrow> ('e, 'k, 'v) InsertionTrace \<Rightarrow> 'e ProvedClaim list
    \<Rightarrow> 'e ProvedClaim list go" where
  "insertion_DeferMerkleChecks G wk wv trace appendTo =
     (let iInserted = Path (it_ProofNew trace); hkey = hash G (wk (it_Key trace)) in
      go_bind (deferCheckUpdateRoot G (it_ProofMinus trace) (it_OldSubRoot trace)
        (leaf_Hash G (it_OldOpenMinus trace))
        (leaf_Hash G (CopyWithNext (it_OldOpenMinus trace) (Path (it_ProofNew trace)))) appendTo)
        (\<lambda>(appendTo, currentRoot).
      let newLeaf = leaf_Hash G \<lparr>Prev = Path (it_ProofMinus trace), Next = Path (it_ProofPlus trace),
                                 HKey = hkey, HVal = hash G (wv (it_Val trace))\<rparr> in
      go_bind (deferCheckUpdateRoot G (it_ProofNew trace) currentRoot (EmptyLeaf G) newLeaf appendTo)
        (\<lambda>(appendTo, currentRoot).
      go_bind (deferCheckUpdateRoot G (it_ProofPlus trace) currentRoot
        (leaf_Hash G (it_OldOpenPlus trace))
        (leaf_Hash G (CopyWithPrev (it_OldOpenPlus trace) iInserted)) appendTo)
        (\<lambda>(appendTo, _). Ret appendTo))))"

section \<open>Deletion\<close>

definition VerifyDeletion ::
  "'e gnark \<Rightarrow> ('k \<Rightarrow> writes) \<Rightarrow> ('v \<Rightarrow> writes) \<Rightarrow> 'e VerifierState \<Rightarrow> ('e, 'k, 'v) DeletionTrace
    \<Rightarrow> 'e VerifierState go" where
  "VerifyDeletion G wk wv v trace =
     (if vs_Location v \<noteq> dt_Location trace then Err ''inconsistent location''
      else if vs_SubTreeRoot v \<noteq> dt_OldSubRoot trace then Err ''inconsistent root''
      else if hash G (wv (dt_DeletedValue trace)) \<noteq> HVal (dt_DeletedOpen trace)
      then Err ''the deleted value does not match the hVal of the opening''
      else
      let iMinus = Path (dt_ProofMinus trace); iDeleted = Path (dt_ProofDeleted trace);
          iPlus = Path (dt_ProofPlus trace) in
      if Next (dt_OldOpenMinus trace) \<noteq> iDeleted \<or> Prev (dt_DeletedOpen trace) \<noteq> iMinus
      then Err ''bad sandwich prev and next do not point to each other''
      else if Next (dt_DeletedOpen trace) \<noteq> iPlus \<or> Prev (dt_OldOpenPlus trace) \<noteq> iDeleted
      then Err ''bad sandwich prev and next do not point to each other''
      else if \<not> MatchKey G (dt_DeletedOpen trace) (wk (dt_Key trace))
      then Err ''deleting the wrong leaf : does not match our key''
      else
      let oldLeafMinus = leaf_Hash G (dt_OldOpenMinus trace);
          newLeafMinus = leaf_Hash G (CopyWithNext (dt_OldOpenMinus trace) iPlus) in
      go_bind (on_err ''audit of the update of old leaf minus failed''
        (updateCheckRoot G (dt_ProofMinus trace) (dt_OldSubRoot trace) oldLeafMinus newLeafMinus)) (\<lambda>currentRoot.
      let deletedLeaf = leaf_Hash G (dt_DeletedOpen trace) in
      go_bind (on_err ''audit of the update of the middle leaf failed''
        (updateCheckRoot G (dt_ProofDeleted trace) currentRoot deletedLeaf (EmptyLeaf G))) (\<lambda>currentRoot.
      let oldLeafPlus = leaf_Hash G (dt_OldOpenPlus trace);
          newLeafPlus = leaf_Hash G (CopyWithPrev (dt_OldOpenPlus trace) iMinus) in
      go_bind (on_err ''audit of the update of old leaf plus failed''
        (updateCheckRoot G (dt_ProofPlus trace) currentRoot oldLeafPlus newLeafPlus)) (\<lambda>currentRoot.
      if currentRoot \<noteq> dt_NewSubRoot trace then Err ''inconsistent root''
      else if vs_NextFreeNode v \<noteq> dt_NewNextFreeNode trace then Err ''inconsistent NextFreeNode''
      else Ret (v\<lparr>vs_SubTreeRoot := currentRoot\<rparr>)))))"

definition deletion_DeferMerkleChecks ::
  "'e gnark \<Rightarrow> ('e, 'k, 'v) DeletionTrace \<Rightarrow> 'e ProvedClaim list \<Rightarrow> 'e ProvedClaim list go" where
  "deletion_DeferMerkleChecks G trace appendTo =
     (let iMinus = Path (dt_ProofMinus trace); iPlus = Path (dt_ProofPlus trace) in
      go_bind (deferCheckUpdateRoot G (dt_ProofMinus trace) (dt_OldSubRoot trace)
        (leaf_Hash G (dt_OldOpenMinus trace)) (leaf_Hash G (CopyWithNext (dt_OldOpenMinus trace) iPlus)) appendTo)
        (\<lambda>(appendTo, currentRoot).
      go_bind (deferCheckUpdateRoot G (dt_ProofDeleted trace) currentRoot
        (leaf_Hash G (dt_DeletedOpen trace)) (EmptyLeaf G) appendTo)
        (\<lambda>(appendTo, currentRoot).
      go_bind (deferCheckUpdateRoot G (dt_ProofPlus trace) currentRoot
        (leaf_Hash G (dt_OldOpenPlus trace)) (leaf_Hash G (CopyWithPrev (dt_OldOpenPlus trace) iMinus)) appendTo)
        (\<lambda>(appendTo, _). Ret appendTo))))"

section \<open>Update\<close>

definition UpdateVerify ::
  "'e gnark \<Rightarrow> ('k \<Rightarrow> writes) \<Rightarrow> ('v \<Rightarrow> writes) \<Rightarrow> 'e VerifierState \<Rightarrow> ('e, 'k, 'v) UpdateTrace
    \<Rightarrow> 'e VerifierState go" where
  "UpdateVerify G wk wv v trace =
     (if vs_Location v \<noteq> ut_Location trace then Err ''inconsistent location''
      else if vs_SubTreeRoot v \<noteq> ut_OldSubRoot trace then Err ''inconsistent root''
      else
      let tuple = \<lparr>Opening = ut_OldOpening trace, Key = ut_Key trace, Value = ut_OldValue trace\<rparr> in
      go_bind (on_err ''read update verifier failed'' (CheckAndLeaf G wk wv tuple)) (\<lambda>leaf.
      go_bind (on_err ''merkle proof verification failed'' (Verify G (ut_Proof trace) leaf (ut_OldSubRoot trace))) (\<lambda>_.
      let newLeaf = leaf_Hash G ((ut_OldOpening trace)\<lparr>HVal := hash G (wv (ut_NewValue trace))\<rparr>) in
      go_bind (on_err ''update check failed : invalid proof''
        (updateCheckRoot G (ut_Proof trace) (ut_OldSubRoot trace) leaf newLeaf)) (\<lambda>newRoot.
      if newRoot \<noteq> ut_NewSubRoot trace then Err ''new root does not match''
      else if vs_NextFreeNode v \<noteq> ut_NewNextFreeNode trace then Err ''inconsistent NextFreeNode''
      else Ret (v\<lparr>vs_SubTreeRoot := ut_NewSubRoot trace\<rparr>)))))"

text \<open>\<^verbatim>\<open>leaf, _ := tuple.CheckAndLeaf()\<close>: the zero value when the check fails.\<close>

definition leaf_or_zero :: "'e gnark \<Rightarrow> 'e octuplet go \<Rightarrow> 'e octuplet" where
  "leaf_or_zero G m = (case m of Ret l \<Rightarrow> l | _ \<Rightarrow> oct_zero G)"

definition update_DeferMerkleChecks ::
  "'e gnark \<Rightarrow> ('k \<Rightarrow> writes) \<Rightarrow> ('v \<Rightarrow> writes) \<Rightarrow> ('e, 'k, 'v) UpdateTrace \<Rightarrow> 'e ProvedClaim list
    \<Rightarrow> 'e ProvedClaim list go" where
  "update_DeferMerkleChecks G wk wv trace appendTo =
     (let tuple = \<lparr>Opening = ut_OldOpening trace, Key = ut_Key trace, Value = ut_OldValue trace\<rparr>;
          leaf = leaf_or_zero G (CheckAndLeaf G wk wv tuple);
          newLeaf = leaf_Hash G ((ut_OldOpening trace)\<lparr>HVal := hash G (wv (ut_NewValue trace))\<rparr>) in
      go_bind (deferCheckUpdateRoot G (ut_Proof trace) (ut_OldSubRoot trace) leaf newLeaf appendTo)
        (\<lambda>(appendTo, _). Ret appendTo))"

section \<open>Reads\<close>

definition ReadZeroVerify ::
  "'e gnark \<Rightarrow> ('k \<Rightarrow> writes) \<Rightarrow> 'e VerifierState \<Rightarrow> ('e, 'k) ReadZeroTrace \<Rightarrow> unit go" where
  "ReadZeroVerify G wk v trace =
     (if vs_Location v \<noteq> rz_Location trace then Err ''inconsistent location''
      else if vs_SubTreeRoot v \<noteq> rz_SubRoot trace then Err ''inconsistent root''
      else
      let iMinus = Path (rz_ProofMinus trace); iPlus = Path (rz_ProofPlus trace) in
      if Next (rz_OpeningMinus trace) \<noteq> iPlus \<or> Prev (rz_OpeningPlus trace) \<noteq> iMinus
      then Err ''bad sandwich prev and next do not point to each other''
      else
      let hkey = hash G (wk (rz_Key trace)) in
      if Cmp G hkey (HKey (rz_OpeningMinus trace)) < 1 \<or> Cmp G hkey (HKey (rz_OpeningPlus trace)) > -1
      then Err ''sandwich is incorrect''
      else
      go_bind (on_err ''merkle proof verification failed : minus''
        (Verify G (rz_ProofMinus trace) (leaf_Hash G (rz_OpeningMinus trace)) (rz_SubRoot trace))) (\<lambda>_.
      go_bind (on_err ''merkle proof verification failed : plus''
        (Verify G (rz_ProofPlus trace) (leaf_Hash G (rz_OpeningPlus trace)) (rz_SubRoot trace))) (\<lambda>_.
      if vs_NextFreeNode v \<noteq> rz_NextFreeNode trace then Err ''inconsistent NextFreeNode'' else Ret ())))"

definition readzero_DeferMerkleChecks ::
  "'e gnark \<Rightarrow> ('e, 'k) ReadZeroTrace \<Rightarrow> 'e ProvedClaim list \<Rightarrow> 'e ProvedClaim list" where
  "readzero_DeferMerkleChecks G trace appendTo =
     appendTo @ [\<lparr>pc_Proof = rz_ProofMinus trace, pc_Root = rz_SubRoot trace, pc_Leaf = leaf_Hash G (rz_OpeningMinus trace)\<rparr>,
                 \<lparr>pc_Proof = rz_ProofPlus trace, pc_Root = rz_SubRoot trace, pc_Leaf = leaf_Hash G (rz_OpeningPlus trace)\<rparr>]"

definition ReadNonZeroVerify ::
  "'e gnark \<Rightarrow> ('k \<Rightarrow> writes) \<Rightarrow> ('v \<Rightarrow> writes) \<Rightarrow> 'e VerifierState \<Rightarrow> ('e, 'k, 'v) ReadNonZeroTrace \<Rightarrow> unit go" where
  "ReadNonZeroVerify G wk wv v trace =
     (if vs_Location v \<noteq> rn_Location trace then Err ''inconsistent location''
      else if vs_SubTreeRoot v \<noteq> rn_SubRoot trace then Err ''inconsistent root''
      else
      let tuple = \<lparr>Opening = rn_LeafOpening trace, Key = rn_Key trace, Value = rn_Value trace\<rparr> in
      go_bind (on_err ''read non zero verifier failed'' (CheckAndLeaf G wk wv tuple)) (\<lambda>leaf.
      go_bind (on_err ''merkle proof verification failed'' (Verify G (rn_Proof trace) leaf (rn_SubRoot trace))) (\<lambda>_.
      if vs_NextFreeNode v \<noteq> rn_NextFreeNode trace then Err ''inconsistent NextFreeNode'' else Ret ())))"

definition readnonzero_DeferMerkleChecks ::
  "'e gnark \<Rightarrow> ('k \<Rightarrow> writes) \<Rightarrow> ('v \<Rightarrow> writes) \<Rightarrow> ('e, 'k, 'v) ReadNonZeroTrace \<Rightarrow> 'e ProvedClaim list
    \<Rightarrow> 'e ProvedClaim list" where
  "readnonzero_DeferMerkleChecks G wk wv trace appendTo =
     (let tuple = \<lparr>Opening = rn_LeafOpening trace, Key = rn_Key trace, Value = rn_Value trace\<rparr>
      in appendTo @ [\<lparr>pc_Proof = rn_Proof trace, pc_Root = rn_SubRoot trace,
                      pc_Leaf = leaf_or_zero G (CheckAndLeaf G wk wv tuple)\<rparr>])"

section \<open>The \<^verbatim>\<open>Trace\<close> interface\<close>

datatype ('e, 'k, 'v) Trace =
  TInsert "('e, 'k, 'v) InsertionTrace"
| TDelete "('e, 'k, 'v) DeletionTrace"
| TUpdate "('e, 'k, 'v) UpdateTrace"
| TReadZero "('e, 'k) ReadZeroTrace"
| TReadNonZero "('e, 'k, 'v) ReadNonZeroTrace"

fun trace_HKey :: "'e gnark \<Rightarrow> ('k \<Rightarrow> writes) \<Rightarrow> ('e, 'k, 'v) Trace \<Rightarrow> 'e octuplet" where
  "trace_HKey G wk (TInsert t) = hash G (wk (it_Key t))"
| "trace_HKey G wk (TDelete t) = HKey (dt_DeletedOpen t)"
| "trace_HKey G wk (TUpdate t) = hash G (wk (ut_Key t))"
| "trace_HKey G wk (TReadZero t) = hash G (wk (rz_Key t))"
| "trace_HKey G wk (TReadNonZero t) = hash G (wk (rn_Key t))"

fun RWInt :: "('e, 'k, 'v) Trace \<Rightarrow> int" where
  "RWInt (TInsert t) = 1"
| "RWInt (TDelete t) = 1"
| "RWInt (TUpdate t) = 1"
| "RWInt (TReadZero t) = 0"
| "RWInt (TReadNonZero t) = 0"

fun DeferMerkleChecks ::
  "'e gnark \<Rightarrow> ('k \<Rightarrow> writes) \<Rightarrow> ('v \<Rightarrow> writes) \<Rightarrow> ('e, 'k, 'v) Trace \<Rightarrow> 'e ProvedClaim list
    \<Rightarrow> 'e ProvedClaim list go" where
  "DeferMerkleChecks G wk wv (TInsert t) cs = insertion_DeferMerkleChecks G wk wv t cs"
| "DeferMerkleChecks G wk wv (TDelete t) cs = deletion_DeferMerkleChecks G t cs"
| "DeferMerkleChecks G wk wv (TUpdate t) cs = update_DeferMerkleChecks G wk wv t cs"
| "DeferMerkleChecks G wk wv (TReadZero t) cs = Ret (readzero_DeferMerkleChecks G t cs)"
| "DeferMerkleChecks G wk wv (TReadNonZero t) cs = Ret (readnonzero_DeferMerkleChecks G wk wv t cs)"

text \<open>
  What the decoder of a trace is expected to give: Merkle proofs of the depth of the tree, and
  positions that fit in \<^verbatim>\<open>int64\<close>.
\<close>

fun trace_wf :: "('e, 'k, 'v) Trace \<Rightarrow> bool" where
  "trace_wf (TInsert t) \<longleftrightarrow> sized (it_ProofMinus t) \<and> sized (it_ProofNew t) \<and> sized (it_ProofPlus t)
     \<and> leaf_ok (it_OldOpenMinus t) \<and> leaf_ok (it_OldOpenPlus t)"
| "trace_wf (TDelete t) \<longleftrightarrow> sized (dt_ProofMinus t) \<and> sized (dt_ProofDeleted t) \<and> sized (dt_ProofPlus t)
     \<and> leaf_ok (dt_OldOpenMinus t) \<and> leaf_ok (dt_DeletedOpen t) \<and> leaf_ok (dt_OldOpenPlus t)"
| "trace_wf (TUpdate t) \<longleftrightarrow> sized (ut_Proof t) \<and> leaf_ok (ut_OldOpening t)"
| "trace_wf (TReadZero t) \<longleftrightarrow> sized (rz_ProofMinus t) \<and> sized (rz_ProofPlus t)
     \<and> leaf_ok (rz_OpeningMinus t) \<and> leaf_ok (rz_OpeningPlus t)"
| "trace_wf (TReadNonZero t) \<longleftrightarrow> sized (rn_Proof t) \<and> leaf_ok (rn_LeafOpening t)"

end
