(* ===== verification/Acc_Complete.thy ===== *)
theory Acc_Complete
  imports Acc_Verifier
begin

text \<open>
  Completeness of the accumulator: starting from a well-formed state, every operation of the
  prover keeps the invariant, has the intended effect on the contents, and produces a trace
  that the verifier accepts, the verifier state following the prover state.
\<close>

section \<open>Shared lemmas\<close>

lemma links_upd:
  "TryGet (ps_Data p') = (TryGet (ps_Data p))(i \<mapsto> t) \<Longrightarrow> links_of p' = (links_of p)(i \<mapsto> Opening t)"
  "TryGet (ps_Data p') = (TryGet (ps_Data p))(i := None) \<Longrightarrow> links_of p' = (links_of p)(i := None)"
  by (auto simp: links_of_def)

lemma leaves_at:
  "0 \<le> i \<Longrightarrow> op i = Some l \<Longrightarrow> leaves G op (nat i) = leaf_Hash G l"
  "0 \<le> i \<Longrightarrow> op i = None \<Longrightarrow> leaves G op (nat i) = EmptyLeaf G"
  by (auto simp: leaves_def)

lemma Verify_Recover: "RecoverRoot G pf leaf = Ret root \<Longrightarrow> Verify G pf leaf root = Ret ()"
  by (simp add: Verify_def list.rel_eq)

lemma on_err_Ret [simp]: "on_err m (Ret x) = Ret x"
  by (simp add: on_err_def)

lemma updateCheckRoot_ok:
  "RecoverRoot G pf old = Ret root \<Longrightarrow> RecoverRoot G pf new = Ret root' \<Longrightarrow>
   updateCheckRoot G pf root old new = Ret root'"
  by (simp add: updateCheckRoot_def Verify_Recover)

lemma CheckAndLeaf_copy:
  assumes "CheckAndLeaf G wk wv t = Ret (leaf_Hash G (Opening t))"
  shows "CheckAndLeaf G wk wv (tuple_CopyWithNext t n) = Ret (leaf_Hash G (CopyWithNext (Opening t) n))"
    and "CheckAndLeaf G wk wv (tuple_CopyWithPrev t n) = Ret (leaf_Hash G (CopyWithPrev (Opening t) n))"
  using assms
  by (auto simp: CheckAndLeaf_cases tuple_CopyWithNext_def tuple_CopyWithPrev_def CopyWithNext_def
      CopyWithPrev_def HeadOrTail_def)

lemma Opening_copy [simp]:
  "Opening (tuple_CopyWithNext t n) = CopyWithNext (Opening t) n"
  "Opening (tuple_CopyWithPrev t n) = CopyWithPrev (Opening t) n"
  by (simp_all add: tuple_CopyWithNext_def tuple_CopyWithPrev_def CopyWithNext_def CopyWithPrev_def)

lemma upd_postD:
  assumes "upd_post G wk wv p i data (p', pf)"
  shows "acc_ok G wk wv p'" "TryGet (ps_Data p') = data" "ps_NextFreeNode p' = ps_NextFreeNode p"
    "ps_Location p' = ps_Location p" "Path pf = i"
    "RecoverRoot G pf (leaves G (links_of p) (nat i)) = Ret (SubTreeRoot p)"
    "RecoverRoot G pf (leaves G (links_of p') (nat i)) = Ret (SubTreeRoot p')" "sized pf"
  using assms by (simp_all add: upd_post_def)

lemma acc_invD:
  assumes "acc_inv G wk wv p"
  shows "acc_ok G wk wv p" "well_linked G (links_of p)" "2 \<le> ps_NextFreeNode p"
    "ps_NextFreeNode p \<le> 2 ^ DefaultDepth"
  using assms by (simp_all add: acc_inv_def)

lemma acc_inv_pos:
  assumes "acc_inv G wk wv p" and "links_of p i = Some l"
  shows "0 \<le> i" "i < ps_NextFreeNode p" "i < 2 ^ DefaultDepth"
    "\<exists>t. TryGet (ps_Data p) i = Some t \<and> Opening t = l \<and> CheckAndLeaf G wk wv t = Ret (leaf_Hash G l)"
  using assms unfolding acc_inv_def acc_ok_def links_of_Some by (auto simp: dom_links_of)

lemma i64_small: "0 \<le> x \<Longrightarrow> x \<le> 2 ^ DefaultDepth \<Longrightarrow> i64 x = x" "0 \<le> x \<Longrightarrow> x < 2 ^ DefaultDepth \<Longrightarrow> i64 (x + 1) = x + 1"
  by (auto intro!: i64_id simp: int64_ok_def DefaultDepth_def)

section \<open>Insertion\<close>

context felt
begin

lemma acc_leaf_ok:
  assumes "acc_inv G wk wv p" and "links_of p i = Some l"
  shows "leaf_ok l"
proof -
  have "links_ok (links_of p)"
    using assms(1) unfolding acc_inv_def acc_ok_def
    by (intro wl_links_ok) (auto simp: links_of_Some)
  then show ?thesis using assms(2) unfolding links_ok_def by blast
qed

text \<open>The state after the three audited changes of an insertion.\<close>

lemma insert_final:
  assumes inv: "acc_inv G wk wv p" and room: "ps_NextFreeNode p < 2 ^ DefaultDepth"
    and l: "links_of p im = Some lm" "links_of p ip = Some lp" "Next lm = ip" "Prev lp = im"
    and h: "lt (HKey lm) h" "lt h (HKey lp)"
    and p1: "upd_post G wk wv p im ((TryGet (ps_Data p))(im \<mapsto> tm)) (p1, pm)"
    and p2: "upd_post G wk wv p1 (ps_NextFreeNode p) ((TryGet (ps_Data p1))(ps_NextFreeNode p \<mapsto> tn)) (p2, pn)"
    and p3: "upd_post G wk wv p2 ip ((TryGet (ps_Data p2))(ip \<mapsto> tp)) (p3, pp)"
    and t: "Opening tm = CopyWithNext lm (ps_NextFreeNode p)" "Opening tp = CopyWithPrev lp (ps_NextFreeNode p)"
      "Opening tn = \<lparr>Prev = im, Next = ip, HKey = h, HVal = v\<rparr>"
  shows "links_of p3 = link_insert (links_of p) im (ps_NextFreeNode p) ip h v"
    and "acc_inv G wk wv (p3\<lparr>ps_NextFreeNode := ps_NextFreeNode p + 1\<rparr>)"
    and "bindings (links_of p3) = insert (h, v) (bindings (links_of p))"
    and "RecoverRoot G pm (leaf_Hash G lm) = Ret (SubTreeRoot p)"
    and "RecoverRoot G pm (leaf_Hash G (Opening tm)) = Ret (SubTreeRoot p1)"
    and "RecoverRoot G pn (EmptyLeaf G) = Ret (SubTreeRoot p1)"
    and "RecoverRoot G pn (leaf_Hash G (Opening tn)) = Ret (SubTreeRoot p2)"
    and "RecoverRoot G pp (leaf_Hash G lp) = Ret (SubTreeRoot p2)"
    and "RecoverRoot G pp (leaf_Hash G (Opening tp)) = Ret (SubTreeRoot p3)"
proof -
  let ?n = "ps_NextFreeNode p" and ?op = "links_of p"
  note wl = acc_invD(2) [OF inv]
  have pos: "0 \<le> im" "im < ?n" "0 \<le> ip" "ip < ?n" "0 \<le> ?n"
    using acc_inv_pos(1-2) [OF inv l(1)] acc_inv_pos(1-2) [OF inv l(2)] by auto
  have free: "?op ?n = None" using acc_inv_pos(2) [OF inv, of ?n] by fastforce
  have ne: "im \<noteq> ip" using adj_neq [OF sandwich_absent(1) [OF wl l(1-3) h]] .
  note d1 = upd_postD [OF p1] and d2 = upd_postD [OF p2] and d3 = upd_postD [OF p3]
  have k1: "links_of p1 = ?op(im \<mapsto> Opening tm)" using d1(2) by (rule links_upd)
  have k2: "links_of p2 = (links_of p1)(?n \<mapsto> Opening tn)" using d2(2) by (rule links_upd)
  have k3: "links_of p3 = (links_of p2)(ip \<mapsto> Opening tp)" using d3(2) by (rule links_upd)
  show k: "links_of p3 = link_insert ?op im ?n ip h v"
    using pos l(1,2) ne by (simp add: k1 k2 k3 link_insert_def t)
  have wl': "well_linked G (links_of p3)"
    unfolding k by (rule link_insert_wl [OF wl l(1-3) h free])
  have "dom (links_of p3) = insert ?n (dom ?op)" using l(1,2) by (auto simp: k link_insert_def)
  moreover have "\<forall>i \<in> dom ?op. i < ?n" using inv by (simp add: acc_inv_def)
  ultimately have "\<forall>i \<in> dom (links_of p3). i < ?n + 1" by (metis insertE less_add_one order_less_trans)
  moreover have same: "links_of (p3\<lparr>ps_NextFreeNode := x\<rparr>) = links_of p3" for x by (simp add: links_of_def)
  ultimately show "acc_inv G wk wv (p3\<lparr>ps_NextFreeNode := ?n + 1\<rparr>)"
    using d3(1) wl' room pos acc_invD(3) [OF inv]
    by (auto simp: acc_inv_def acc_ok_def same simp del: dom_def)
  have "{0, 1} \<subseteq> dom ?op" using wl by (simp add: well_linked_def)
  then show "bindings (links_of p3) = insert (h, v) (bindings ?op)"
    unfolding k by (rule link_insert_bindings [OF l(1,2) free ne])
  show "RecoverRoot G pm (leaf_Hash G lm) = Ret (SubTreeRoot p)"
    using d1(6) leaves_at(1) [OF pos(1), of "links_of p"] l(1) by simp
  show "RecoverRoot G pm (leaf_Hash G (Opening tm)) = Ret (SubTreeRoot p1)"
    using d1(7) leaves_at(1) [OF pos(1), of "links_of p1"] by (simp add: k1)
  show "RecoverRoot G pn (EmptyLeaf G) = Ret (SubTreeRoot p1)"
    using d2(6) leaves_at(2) [OF pos(5), of "links_of p1"] free pos by (simp add: k1)
  show "RecoverRoot G pn (leaf_Hash G (Opening tn)) = Ret (SubTreeRoot p2)"
    using d2(7) leaves_at(1) [OF pos(5), of "links_of p2"] by (simp add: k2)
  show "RecoverRoot G pp (leaf_Hash G lp) = Ret (SubTreeRoot p2)"
    using d3(6) leaves_at(1) [OF pos(3), of "links_of p2"] ne pos l(2) by (simp add: k2 k1)
  show "RecoverRoot G pp (leaf_Hash G (Opening tp)) = Ret (SubTreeRoot p3)"
    using d3(7) leaves_at(1) [OF pos(3), of "links_of p3"] by (simp add: k3)
qed

text \<open>The trace of an insertion is accepted, and the verifier follows the prover.\<close>

lemma insert_accepted:
  assumes inv: "acc_inv G wk wv p" and room: "ps_NextFreeNode p < 2 ^ DefaultDepth"
    and l: "links_of p im = Some lm" "links_of p ip = Some lp" "Next lm = ip" "Prev lp = im"
    and h: "lt (HKey lm) (hash G (wk key))" "lt (hash G (wk key)) (HKey lp)"
    and a: "upd_post G wk wv p im ((TryGet (ps_Data p))(im \<mapsto> tm)) (p1, pm)"
      "upd_post G wk wv p1 (ps_NextFreeNode p) ((TryGet (ps_Data p1))(ps_NextFreeNode p \<mapsto> tn)) (p2, pn)"
      "upd_post G wk wv p2 ip ((TryGet (ps_Data p2))(ip \<mapsto> tp)) (p3, pp)"
    and t: "Opening tm = CopyWithNext lm (ps_NextFreeNode p)" "Opening tp = CopyWithPrev lp (ps_NextFreeNode p)"
      "Opening tn = \<lparr>Prev = im, Next = ip, HKey = hash G (wk key), HVal = hash G (wv val)\<rparr>"
    and p': "p' = p3\<lparr>ps_NextFreeNode := i64 (ps_NextFreeNode p3 + 1)\<rparr>"
  shows "acc_inv G wk wv p'
      \<and> bindings (links_of p') = insert (hash G (wk key), hash G (wv val)) (bindings (links_of p))
      \<and> sized pm \<and> sized pn \<and> sized pp \<and> VerifyInsertion G wk wv (VerifierState_of p)
          \<lparr>it_Type = 0, it_Location = ps_Location p, it_NewNextFreeNode = i64 (ps_NextFreeNode p + 1),
           it_OldSubRoot = SubTreeRoot p, it_NewSubRoot = SubTreeRoot p3,
           it_ProofMinus = pm, it_ProofNew = pn, it_ProofPlus = pp, it_Key = key, it_Val = val,
           it_OldOpenMinus = lm, it_OldOpenPlus = lp\<rparr>
        = Ret (VerifierState_of p', None)"
proof -
  let ?n = "ps_NextFreeNode p"
  note f = insert_final [OF inv room l h a t]
  have "0 \<le> ?n" using acc_inv_pos(1,2) [OF inv l(1)] by linarith
  then have n: "i64 (?n + 1) = ?n + 1" using room by (intro i64_small)
  have p3: "ps_NextFreeNode p3 = ?n" "ps_Location p3 = ps_Location p"
    using upd_postD(3,4) [OF a(1)] upd_postD(3,4) [OF a(2)] upd_postD(3,4) [OF a(3)] by simp_all
  have path: "Path pm = im" "Path pn = ?n" "Path pp = ip"
    using upd_postD(5) [OF a(1)] upd_postD(5) [OF a(2)] upd_postD(5) [OF a(3)] by simp_all
  have cmp: "\<not> Cmp G (hash G (wk key)) (HKey lm) < 1" "\<not> -1 < Cmp G (hash G (wk key)) (HKey lp)"
    using h by (simp_all add: Cmp_less_1)
  have "links_of (p3\<lparr>ps_NextFreeNode := x\<rparr>) = links_of p3" for x by (simp add: links_of_def)
  then show ?thesis
    using f(2,3) cmp updateCheckRoot_ok [OF f(4,5)] updateCheckRoot_ok [OF f(6,7)] updateCheckRoot_ok [OF f(8,9)] t
      upd_postD(8) [OF a(1)] upd_postD(8) [OF a(2)] upd_postD(8) [OF a(3)]
    by (simp add: p' n p3 path l(3,4) VerifyInsertion_def insertion_root_def VerifierState_of_def Let_def SubTreeRoot_def)
qed

lemma insert_complete:
  assumes inv: "acc_inv G wk wv p" and ord: "go_order ord1" "go_order ord2"
    and room: "ps_NextFreeNode p < 2 ^ DefaultDepth"
    and absent: "\<forall>i l. links_of p i = Some l \<longrightarrow> HKey l \<noteq> hash G (wk key)"
  shows "ret_or (\<lambda>(p', trace). acc_inv G wk wv p'
      \<and> bindings (links_of p') = insert (hash G (wk key), hash G (wv val)) (bindings (links_of p))
      \<and> trace_wf (TInsert trace) \<and> VerifyInsertion G wk wv (VerifierState_of p) trace = Ret (VerifierState_of p', None))
    (zero_panics G) (InsertAndProve G wk wv ord1 ord2 p key val)"
proof -
  let ?op = "links_of p" and ?h = "hash G (wk key)" and ?v = "hash G (wv val)" and ?n = "ps_NextFreeNode p"
  note wl = acc_invD(2) [OF inv]
  obtain im ip lm lp where fs: "findSandwich G wk ord2 p key = Ret (im, ip)"
    and l: "?op im = Some lm" "?op ip = Some lp" and nx: "Next lm = ip" and pv: "Prev lp = im" and ne: "im \<noteq> ip"
    and h: "lt (HKey lm) ?h" "lt ?h (HKey lp)"
    using findSandwich_spec [OF wl ord(2), of wk key] absent by blast
  obtain tm tp where tm: "TryGet (ps_Data p) im = Some tm" "Opening tm = lm" "CheckAndLeaf G wk wv tm = Ret (leaf_Hash G lm)"
    and tp: "TryGet (ps_Data p) ip = Some tp" "Opening tp = lp" "CheckAndLeaf G wk wv tp = Ret (leaf_Hash G lp)"
    using acc_inv_pos(4) [OF inv] l by blast
  have pos: "0 \<le> im" "im < ?n" "im < 2 ^ DefaultDepth" "0 \<le> ip" "ip < ?n" "ip < 2 ^ DefaultDepth" "0 \<le> ?n"
    using acc_inv_pos(1-3) [OF inv l(1)] acc_inv_pos(1-3) [OF inv l(2)] by auto
  have "?op ?n = None" using acc_inv_pos(2) [OF inv, of ?n] by fastforce
  then have free: "TryGet (ps_Data p) ?n = None" by (simp add: links_of_def)
  let ?tm = "tuple_CopyWithNext tm ?n" and ?tp = "tuple_CopyWithPrev tp ?n"
  let ?new = "\<lparr>Prev = im, Next = ip, HKey = ?h, HVal = ?v\<rparr>"
  let ?tn = "\<lparr>Opening = ?new, Key = key, Value = val\<rparr>"
  have s1: "ret_or (upd_post G wk wv p im ((TryGet (ps_Data p))(im \<mapsto> ?tm))) (zero_panics G) (upsertTuple G wk wv p im ?tm)"
    using tm pos nx by (intro upsertTuple_spec acc_invD(1) [OF inv]) (auto simp: CheckAndLeaf_copy legal_change_def)
  have s2: "ret_or (upd_post G wk wv p1 ?n ((TryGet (ps_Data p1))(?n \<mapsto> ?tn))) (zero_panics G) (upsertTuple G wk wv p1 ?n ?tn)"
    if "upd_post G wk wv p im ((TryGet (ps_Data p))(im \<mapsto> ?tm)) (p1, pm)" for p1 pm
    using upd_postD [OF that] pos room free
    by (intro upsertTuple_spec) (auto simp: CheckAndLeaf_def legal_change_def)
  have s3: "ret_or (upd_post G wk wv p2 ip ((TryGet (ps_Data p2))(ip \<mapsto> ?tp))) (zero_panics G) (upsertTuple G wk wv p2 ip ?tp)"
    if "upd_post G wk wv p im ((TryGet (ps_Data p))(im \<mapsto> ?tm)) (p1, pm)"
      "upd_post G wk wv p1 ?n ((TryGet (ps_Data p1))(?n \<mapsto> ?tn)) (p2, pn)" for p1 pm p2 pn
    using upd_postD [OF that(1)] upd_postD [OF that(2)] pos ne tp pv
    by (intro upsertTuple_spec) (auto simp: CheckAndLeaf_copy legal_change_def)
  have t: "Opening ?tm = CopyWithNext lm ?n" "Opening ?tp = CopyWithPrev lp ?n" "Opening ?tn = ?new" using tm tp by simp_all
  note fin = insert_accepted [OF inv room l nx pv h _ _ _ t refl]
  have find: "FindKey G wk ord1 p key = Ret (0, False)" by (rule FindKey_absent [where wk = wk and key = key, OF ord(1)]) (use absent in blast)
  have get: "MustGet (ps_Data p) im = Ret tm" "MustGet (ps_Data p) ip = Ret tp"
    using tm tp by (simp_all add: MustGet_eq)
  show ?thesis
    unfolding InsertAndProve_def find fs get go_bind.simps prod.case if_False Let_def
    by (rule ret_or_bind2 [OF s1], rule ret_or_bind2 [OF s2], assumption, rule ret_or_bind2 [OF s3], assumption+)
      (use fin tm(2) tp(2) acc_leaf_ok [OF inv l(1)] acc_leaf_ok [OF inv l(2)] in \<open>simp add: SubTreeRoot_def\<close>)
qed

section \<open>Deletion\<close>

lemma delete_final:
  assumes inv: "acc_inv G wk wv p" and i: "links_of p i = Some l" "i \<noteq> 0" "i \<noteq> 1"
    and m: "links_of p (Prev l) = Some lm" "links_of p (Next l) = Some lp" "Prev l \<noteq> Next l" "Prev l \<noteq> i" "Next l \<noteq> i"
    and p1: "upd_post G wk wv p (Prev l) ((TryGet (ps_Data p))(Prev l \<mapsto> tm)) (p1, pm)"
    and p2: "upd_post G wk wv p1 i ((TryGet (ps_Data p1))(i := None)) (p2, pn)"
    and p3: "upd_post G wk wv p2 (Next l) ((TryGet (ps_Data p2))(Next l \<mapsto> tp)) (p3, pp)"
    and t: "Opening tm = CopyWithNext lm (Next l)" "Opening tp = CopyWithPrev lp (Prev l)"
  shows "acc_inv G wk wv p3"
    and "bindings (links_of p3) = bindings (links_of p) - {(HKey l, HVal l)}"
    and "RecoverRoot G pm (leaf_Hash G lm) = Ret (SubTreeRoot p)"
    and "RecoverRoot G pm (leaf_Hash G (Opening tm)) = Ret (SubTreeRoot p1)"
    and "RecoverRoot G pn (leaf_Hash G l) = Ret (SubTreeRoot p1)"
    and "RecoverRoot G pn (EmptyLeaf G) = Ret (SubTreeRoot p2)"
    and "RecoverRoot G pp (leaf_Hash G lp) = Ret (SubTreeRoot p2)"
    and "RecoverRoot G pp (leaf_Hash G (Opening tp)) = Ret (SubTreeRoot p3)"
proof -
  let ?op = "links_of p"
  note wl = acc_invD(2) [OF inv]
  have pos: "0 \<le> Prev l" "0 \<le> Next l" "0 \<le> i"
    using acc_inv_pos(1) [OF inv m(1)] acc_inv_pos(1) [OF inv m(2)] acc_inv_pos(1) [OF inv i(1)] by auto
  note d1 = upd_postD [OF p1] and d2 = upd_postD [OF p2] and d3 = upd_postD [OF p3]
  have k1: "links_of p1 = ?op(Prev l \<mapsto> Opening tm)" using d1(2) by (rule links_upd)
  have k2: "links_of p2 = (links_of p1)(i := None)" using d2(2) by (rule links_upd)
  have k3: "links_of p3 = (links_of p2)(Next l \<mapsto> Opening tp)" using d3(2) by (rule links_upd)
  have k: "links_of p3 = link_delete ?op (Prev l) i (Next l)"
    using m by (simp add: k1 k2 k3 link_delete_def t)
  have "dom (links_of p3) \<subseteq> dom ?op" using m by (auto simp: k link_delete_def)
  then show "acc_inv G wk wv p3"
    using d1(3) d2(3) d3(1,3) link_delete_wl [OF wl i] inv unfolding acc_inv_def by (auto simp: k simp del: dom_def)
  show "bindings (links_of p3) = bindings ?op - {(HKey l, HVal l)}"
    unfolding k by (rule link_delete_bindings [OF wl i])
  show "RecoverRoot G pm (leaf_Hash G lm) = Ret (SubTreeRoot p)"
    using d1(6) leaves_at(1) [OF pos(1), of "links_of p"] m(1) by simp
  show "RecoverRoot G pm (leaf_Hash G (Opening tm)) = Ret (SubTreeRoot p1)"
    using d1(7) leaves_at(1) [OF pos(1), of "links_of p1"] by (simp add: k1)
  show "RecoverRoot G pn (leaf_Hash G l) = Ret (SubTreeRoot p1)"
    using d2(6) leaves_at(1) [OF pos(3), of "links_of p1"] i m by (simp add: k1)
  show "RecoverRoot G pn (EmptyLeaf G) = Ret (SubTreeRoot p2)"
    using d2(7) leaves_at(2) [OF pos(3), of "links_of p2"] by (simp add: k2)
  show "RecoverRoot G pp (leaf_Hash G lp) = Ret (SubTreeRoot p2)"
    using d3(6) leaves_at(1) [OF pos(2), of "links_of p2"] m by (simp add: k2 k1)
  show "RecoverRoot G pp (leaf_Hash G (Opening tp)) = Ret (SubTreeRoot p3)"
    using d3(7) leaves_at(1) [OF pos(2), of "links_of p3"] by (simp add: k3)
qed

lemma delete_accepted:
  assumes inv: "acc_inv G wk wv p" and i: "links_of p i = Some l" "i \<noteq> 0" "i \<noteq> 1" "HKey l = hash G (wk key)" "HVal l = hash G (wv val)"
    and m: "links_of p (Prev l) = Some lm" "links_of p (Next l) = Some lp" "Next lm = i" "Prev lp = i"
    and ne: "Prev l \<noteq> Next l" "Prev l \<noteq> i" "Next l \<noteq> i"
    and a: "upd_post G wk wv p (Prev l) ((TryGet (ps_Data p))(Prev l \<mapsto> tm)) (p1, pm)"
      "upd_post G wk wv p1 i ((TryGet (ps_Data p1))(i := None)) (p2, pn)"
      "upd_post G wk wv p2 (Next l) ((TryGet (ps_Data p2))(Next l \<mapsto> tp)) (p3, pp)"
    and t: "Opening tm = CopyWithNext lm (Next l)" "Opening tp = CopyWithPrev lp (Prev l)"
  shows "acc_inv G wk wv p3 \<and> bindings (links_of p3) = bindings (links_of p) - {(HKey l, HVal l)}
      \<and> sized pm \<and> sized pn \<and> sized pp \<and> VerifyDeletion G wk wv (VerifierState_of p)
          \<lparr>dt_Type = 0, dt_Location = ps_Location p, dt_NewNextFreeNode = ps_NextFreeNode p,
           dt_OldSubRoot = SubTreeRoot p, dt_NewSubRoot = SubTreeRoot p3,
           dt_ProofMinus = pm, dt_ProofDeleted = pn, dt_ProofPlus = pp, dt_Key = key,
           dt_OldOpenMinus = lm, dt_DeletedOpen = l, dt_OldOpenPlus = lp, dt_DeletedValue = val\<rparr>
        = Ret (VerifierState_of p3)"
proof -
  note f = delete_final [OF inv i(1-3) m(1,2) ne a t]
  have p3: "ps_NextFreeNode p3 = ps_NextFreeNode p" "ps_Location p3 = ps_Location p"
    using upd_postD(3,4) [OF a(1)] upd_postD(3,4) [OF a(2)] upd_postD(3,4) [OF a(3)] by simp_all
  have path: "Path pm = Prev l" "Path pn = i" "Path pp = Next l"
    using upd_postD(5) [OF a(1)] upd_postD(5) [OF a(2)] upd_postD(5) [OF a(3)] by simp_all
  show ?thesis
    using f(1,2) updateCheckRoot_ok [OF f(3,4)] updateCheckRoot_ok [OF f(5,6)] updateCheckRoot_ok [OF f(7,8)] t i(4)
      upd_postD(8) [OF a(1)] upd_postD(8) [OF a(2)] upd_postD(8) [OF a(3)]
    by (simp add: p3 path m(3,4) i(5) VerifyDeletion_def MatchKey_def VerifierState_of_def Let_def SubTreeRoot_def)
qed

lemma delete_complete:
  assumes inv: "acc_inv G wk wv p" and ord: "go_order ord"
    and i: "links_of p i = Some l" "i \<noteq> 0" "i \<noteq> 1" "HKey l = hash G (wk key)"
  shows "ret_or (\<lambda>(p', trace). acc_inv G wk wv p'
      \<and> bindings (links_of p') = bindings (links_of p) - {(HKey l, HVal l)}
      \<and> trace_wf (TDelete trace) \<and> VerifyDeletion G wk wv (VerifierState_of p) trace = Ret (VerifierState_of p'))
    (zero_panics G) (DeleteAndProve G wk wv ord p key)"
proof -
  let ?op = "links_of p"
  note wl = acc_invD(2) [OF inv]
  obtain lm lp where m: "?op (Prev l) = Some lm" "?op (Next l) = Some lp"
    and bk: "Next lm = i" "Prev lp = i" and ne: "Prev l \<noteq> Next l" "Prev l \<noteq> i" "Next l \<noteq> i"
    using wl_neighbours [OF wl i(1-3)] by metis
  obtain t tm tp where t: "TryGet (ps_Data p) i = Some t" "Opening t = l" "CheckAndLeaf G wk wv t = Ret (leaf_Hash G l)"
    and tm: "TryGet (ps_Data p) (Prev l) = Some tm" "Opening tm = lm" "CheckAndLeaf G wk wv tm = Ret (leaf_Hash G lm)"
    and tp: "TryGet (ps_Data p) (Next l) = Some tp" "Opening tp = lp" "CheckAndLeaf G wk wv tp = Ret (leaf_Hash G lp)"
    using acc_inv_pos(4) [OF inv] m i(1) by blast
  have val: "HVal l = hash G (wv (Value t))"
    using t wl_not_HeadOrTail [OF wl i(1)] i(2,3) by (auto simp: CheckAndLeaf_cases)
  have pos: "0 \<le> Prev l" "Prev l < 2 ^ DefaultDepth" "0 \<le> Next l" "Next l < 2 ^ DefaultDepth"
    using acc_inv_pos(1,3) [OF inv m(1)] acc_inv_pos(1,3) [OF inv m(2)] by auto
  let ?tm = "tuple_CopyWithNext tm (Next l)" and ?tp = "tuple_CopyWithPrev tp (Prev l)"
  have s1: "ret_or (upd_post G wk wv p (Prev l) ((TryGet (ps_Data p))(Prev l \<mapsto> ?tm))) (zero_panics G)
      (upsertTuple G wk wv p (Prev l) ?tm)"
    using tm pos ne bk by (intro upsertTuple_spec acc_invD(1) [OF inv]) (auto simp: CheckAndLeaf_copy legal_change_def)
  have s2: "ret_or (upd_post G wk wv p1 i ((TryGet (ps_Data p1))(i := None))) (zero_panics G) (rmTuple G p1 i)"
    if "upd_post G wk wv p (Prev l) ((TryGet (ps_Data p))(Prev l \<mapsto> ?tm)) (p1, pm)" for p1 pm
    using upd_postD [OF that] t ne by (intro rmTuple_spec [where t = t]) auto
  have s3: "ret_or (upd_post G wk wv p2 (Next l) ((TryGet (ps_Data p2))(Next l \<mapsto> ?tp))) (zero_panics G)
      (upsertTuple G wk wv p2 (Next l) ?tp)"
    if "upd_post G wk wv p (Prev l) ((TryGet (ps_Data p))(Prev l \<mapsto> ?tm)) (p1, pm)"
      "upd_post G wk wv p1 i ((TryGet (ps_Data p1))(i := None)) (p2, pn)" for p1 pm p2 pn
    using upd_postD [OF that(1)] upd_postD [OF that(2)] pos ne tp bk
    by (intro upsertTuple_spec) (auto simp: CheckAndLeaf_copy legal_change_def)
  have o: "Opening ?tm = CopyWithNext lm (Next l)" "Opening ?tp = CopyWithPrev lp (Prev l)" using tm tp by simp_all
  note fin = delete_accepted [OF inv i val m bk ne _ _ _ o]
  have find: "FindKey G wk ord p key = Ret (i, True)" using FindKey_present [OF ord i(1), of G wk key] i(4) wl by simp
  have get: "MustGet (ps_Data p) i = Ret t" "MustGet (ps_Data p) (Prev l) = Ret tm" "MustGet (ps_Data p) (Next l) = Ret tp"
    using t tm tp by (simp_all add: MustGet_eq)
  show ?thesis
    unfolding DeleteAndProve_def find get go_bind.simps prod.case if_False Let_def not_True_eq_False t(2)
    by (rule ret_or_bind2 [OF s1], rule ret_or_bind2 [OF s2], assumption, rule ret_or_bind2 [OF s3], assumption+)
      (use fin tm(2) tp(2) acc_leaf_ok [OF inv m(1)] acc_leaf_ok [OF inv m(2)] acc_leaf_ok [OF inv i(1)] in simp)
qed

section \<open>Update\<close>

lemma update_accepted:
  assumes inv: "acc_inv G wk wv p" and i: "links_of p i = Some l" "i \<noteq> 0" "i \<noteq> 1"
    and tk: "HKey l = hash G (wk (Key t))" "HVal l = hash G (wv (Value t))"
    and a: "upd_post G wk wv p i ((TryGet (ps_Data p))(i \<mapsto> t\<lparr>Value := val, Opening := l\<lparr>HVal := hash G (wv val)\<rparr>\<rparr>)) (p', pf)"
  shows "acc_inv G wk wv p' \<and> bindings (links_of p') = insert (HKey l, hash G (wv val)) (bindings (links_of p) - {(HKey l, HVal l)})
      \<and> sized pf \<and> UpdateVerify G wk wv (VerifierState_of p)
          \<lparr>ut_Type = 0, ut_Location = ps_Location p, ut_Key = Key t, ut_OldValue = Value t, ut_NewValue = val,
           ut_NewNextFreeNode = ps_NextFreeNode p, ut_OldSubRoot = SubTreeRoot p, ut_NewSubRoot = SubTreeRoot p',
           ut_OldOpening = l, ut_Proof = pf\<rparr> = Ret (VerifierState_of p')"
proof -
  let ?op = "links_of p" and ?v = "hash G (wv val)"
  note wl = acc_invD(2) [OF inv] and d = upd_postD [OF a]
  have pos: "0 \<le> i" using acc_inv_pos(1) [OF inv i(1)] .
  have k: "links_of p' = link_update ?op i ?v"
    using links_upd(1) [OF d(2)] i(1) by (simp add: link_update_def)
  have "dom (links_of p') = dom ?op" using i(1) by (auto simp: k link_update_def)
  then have "acc_inv G wk wv p'"
    using d(1,3) link_update_wl [OF wl i(1), of ?v] inv unfolding acc_inv_def by (simp add: k)
  moreover have "RecoverRoot G pf (leaf_Hash G l) = Ret (SubTreeRoot p)"
    "RecoverRoot G pf (leaf_Hash G (l\<lparr>HVal := ?v\<rparr>)) = Ret (SubTreeRoot p')"
    using d(6,7) leaves_at(1) [OF pos, of ?op] leaves_at(1) [OF pos, of "links_of p'"] i(1)
    by (simp_all add: k link_update_def)
  moreover have "CheckAndLeaf G wk wv \<lparr>Opening = l, Key = Key t, Value = Value t\<rparr> = Ret (leaf_Hash G l)"
    using tk by (auto simp: CheckAndLeaf_cases)
  ultimately show ?thesis
    using link_update_bindings [OF wl i, of ?v] d(3,4,8)
    by (simp add: k UpdateVerify_def VerifierState_of_def Let_def Verify_Recover updateCheckRoot_ok SubTreeRoot_def)
qed

lemma update_complete:
  assumes inv: "acc_inv G wk wv p" and ord: "go_order ord"
    and i: "links_of p i = Some l" "i \<noteq> 0" "i \<noteq> 1" "HKey l = hash G (wk key)"
  shows "ret_or (\<lambda>(p', trace). acc_inv G wk wv p'
      \<and> bindings (links_of p') = insert (HKey l, hash G (wv val)) (bindings (links_of p) - {(HKey l, HVal l)})
      \<and> trace_wf (TUpdate trace) \<and> UpdateVerify G wk wv (VerifierState_of p) trace = Ret (VerifierState_of p'))
    (zero_panics G) (UpdateAndProve G wk wv ord p key val)"
proof -
  let ?op = "links_of p" and ?v = "hash G (wv val)"
  note wl = acc_invD(2) [OF inv] and ok = acc_invD(1) [OF inv]
  obtain t where t: "TryGet (ps_Data p) i = Some t" "Opening t = l" "CheckAndLeaf G wk wv t = Ret (leaf_Hash G l)"
    using acc_inv_pos(4) [OF inv i(1)] by blast
  have tk: "HKey l = hash G (wk (Key t))" "HVal l = hash G (wv (Value t))"
    using t wl_not_HeadOrTail [OF wl i(1)] i(2,3) by (auto simp: CheckAndLeaf_cases)
  have pos: "0 \<le> i" "i < 2 ^ DefaultDepth" using acc_inv_pos(1,3) [OF inv i(1)] by auto
  let ?l = "l\<lparr>HVal := ?v\<rparr>"
  let ?t = "t\<lparr>Value := val, Opening := ?l\<rparr>"
  let ?data = "Mapping_Update (ps_Data p) i ?t"
  have chk: "CheckAndLeaf G wk wv ?t = Ret (leaf_Hash G ?l)"
    using tk(1) by (auto simp: CheckAndLeaf_cases)
  have up: "(\<lambda>k. map_option Opening (((TryGet (ps_Data p))(i \<mapsto> ?t)) k)) = ?op(i \<mapsto> ?l)"
    by (auto simp: links_of_def)
  have s: "ret_or (upd_post G wk wv p i (TryGet ?data)) (zero_panics G)
    (go_bind (Update G (ps_Tree p) i (leaf_Hash G ?l)) (\<lambda>tree. go_bind (MustProve G tree i) (\<lambda>proof.
       Ret (p\<lparr>ps_Data := ?data, ps_Tree := tree\<rparr>, proof))))"
  proof (rule tree_step [OF ok pos])
    show "kv_inv ?data" using ok by (simp add: acc_ok_def kv_simps)
    show "\<forall>k u. TryGet ?data k = Some u \<longrightarrow>
      0 \<le> k \<and> k < 2 ^ DefaultDepth \<and> CheckAndLeaf G wk wv u = Ret (leaf_Hash G (Opening u))"
      using ok pos chk by (simp add: acc_ok_def kv_simps)
    show "leaves G (\<lambda>k. map_option Opening (TryGet ?data k)) = (leaves G ?op)(nat i := leaf_Hash G ?l)"
      using pos by (simp only: kv_simps up leaves_upd)
  qed
  note fin = update_accepted [OF inv i(1-3) tk, of val]
  have find: "FindKey G wk ord p key = Ret (i, True)" using FindKey_present [OF ord i(1), of G wk key] i(4) wl by simp
  have get: "MustGet (ps_Data p) i = Ret t" using t by (simp add: MustGet_eq)
  have "UpdateAndProve G wk wv ord p key val =
    go_bind (go_bind (Update G (ps_Tree p) i (leaf_Hash G ?l)) (\<lambda>tree. go_bind (MustProve G tree i) (\<lambda>proof.
       Ret (p\<lparr>ps_Data := ?data, ps_Tree := tree\<rparr>, proof))))
     (\<lambda>(p', pf). Ret (p', \<lparr>ut_Type = 0, ut_Location = ps_Location p, ut_Key = Key t, ut_OldValue = Value t, ut_NewValue = val,
           ut_NewNextFreeNode = ps_NextFreeNode p, ut_OldSubRoot = SubTreeRoot p, ut_NewSubRoot = SubTreeRoot p',
           ut_OldOpening = l, ut_Proof = pf\<rparr>))"
    using tk i(4) by (simp add: UpdateAndProve_def find get t(2) Let_def go_bind_assoc SubTreeRoot_def)
  then show ?thesis by (simp only:) (rule ret_or_bind2 [OF s], use fin acc_leaf_ok [OF inv i(1)] in \<open>simp add: kv_simps\<close>)
qed

section \<open>Reads\<close>

lemma prove_at:
  assumes inv: "acc_inv G wk wv p" and i: "links_of p i = Some l"
  shows "ret_or (\<lambda>pf. Path pf = i \<and> sized pf \<and> RecoverRoot G pf (leaf_Hash G l) = Ret (SubTreeRoot p)) (zero_panics G)
    (MustProve G (ps_Tree p) i)"
proof -
  have ok: "tree_inv G (ps_Tree p)" "leaf_at G (ps_Tree p) = leaves G (links_of p)" "Depth (ps_Tree p) = DefaultDepth"
    using inv by (auto simp: acc_inv_def acc_ok_def)
  have pos: "0 \<le> i" "i < 2 ^ DefaultDepth" using acc_inv_pos(1,3) [OF inv i] by auto
  then have "nat i < 2 ^ Depth (ps_Tree p)" by (simp add: ok nat_less_iff)
  from smt.open_current [OF ok(1) this] show ?thesis
    using leaves_at(1) [OF pos(1), of "links_of p"] i pos by (simp add: ok SubTreeRoot_def sized_def)
qed

lemma read_zero_complete:
  assumes inv: "acc_inv G wk wv p" and ord: "go_order ord1" "go_order ord2"
    and absent: "\<forall>i l. links_of p i = Some l \<longrightarrow> HKey l \<noteq> hash G (wk key)"
  shows "ret_or (\<lambda>trace. trace_wf (TReadZero trace) \<and> ReadZeroVerify G wk (VerifierState_of p) trace = Ret ()) (zero_panics G)
    (ReadZeroAndProve G wk ord1 ord2 p key)"
proof -
  let ?op = "links_of p" and ?h = "hash G (wk key)"
  note wl = acc_invD(2) [OF inv]
  obtain im ip lm lp where fs: "findSandwich G wk ord2 p key = Ret (im, ip)"
    and l: "?op im = Some lm" "?op ip = Some lp" and nx: "Next lm = ip" and pv: "Prev lp = im"
    and h: "lt (HKey lm) ?h" "lt ?h (HKey lp)"
    using findSandwich_spec [OF wl ord(2), of wk key] absent by blast
  obtain tm tp where tm: "TryGet (ps_Data p) im = Some tm" "Opening tm = lm"
    and tp: "TryGet (ps_Data p) ip = Some tp" "Opening tp = lp"
    using l by (auto simp: links_of_Some)
  have find: "FindKey G wk ord1 p key = Ret (0, False)"
    by (rule FindKey_absent [where wk = wk and key = key, OF ord(1)]) (use absent in blast)
  have cmp: "\<not> Cmp G ?h (HKey lm) < 1" "\<not> -1 < Cmp G ?h (HKey lp)"
    using h by (simp_all add: Cmp_less_1)
  show ?thesis
    unfolding ReadZeroAndProve_def find fs MustGet_eq tm tp go_bind.simps prod.case if_False option.case
    by (rule ret_or_bind [OF prove_at [OF inv l(1)]], rule ret_or_bind [OF prove_at [OF inv l(2)]])
      (use acc_leaf_ok [OF inv l(1)] acc_leaf_ok [OF inv l(2)] in
        \<open>simp add: ReadZeroVerify_def VerifierState_of_def Let_def nx pv cmp Verify_Recover SubTreeRoot_def\<close>)
qed

lemma read_nonzero_complete:
  assumes inv: "acc_inv G wk wv p" and ord: "go_order ord"
    and i: "links_of p i = Some l" "i \<noteq> 0" "i \<noteq> 1" "HKey l = hash G (wk key)"
  shows "ret_or (\<lambda>trace. trace_wf (TReadNonZero trace) \<and> ReadNonZeroVerify G wk wv (VerifierState_of p) trace = Ret ()
      \<and> hash G (wk (rn_Key trace)) = hash G (wk key) \<and> hash G (wv (rn_Value trace)) = HVal l) (zero_panics G)
    (ReadNonZeroAndProve G wk ord p key)"
proof -
  note wl = acc_invD(2) [OF inv]
  obtain t where t: "TryGet (ps_Data p) i = Some t" "Opening t = l" "CheckAndLeaf G wk wv t = Ret (leaf_Hash G l)"
    using acc_inv_pos(4) [OF inv i(1)] by blast
  have tk: "HKey l = hash G (wk (Key t))" "HVal l = hash G (wv (Value t))"
    using t wl_not_HeadOrTail [OF wl i(1)] i(2,3) by (auto simp: CheckAndLeaf_cases)
  have chk: "CheckAndLeaf G wk wv \<lparr>Opening = l, Key = Key t, Value = Value t\<rparr> = Ret (leaf_Hash G l)"
    using tk by (auto simp: CheckAndLeaf_cases)
  have find: "FindKey G wk ord p key = Ret (i, True)" using FindKey_present [OF ord i(1), of G wk key] i(4) wl by simp
  have run: "ReadNonZeroAndProve G wk ord p key = go_bind (MustProve G (ps_Tree p) i) (\<lambda>proof.
       Ret \<lparr>rn_Type = 0, rn_Location = ps_Location p, rn_NextFreeNode = ps_NextFreeNode p,
            rn_Key = Key t, rn_Value = Value t, rn_SubRoot = SubTreeRoot p,
            rn_LeafOpening = l, rn_Proof = proof\<rparr>)"
    using tk i(4) by (simp add: ReadNonZeroAndProve_def find MustGet_eq t)
  show ?thesis
    unfolding run
    by (rule ret_or_bind [OF prove_at [OF inv i(1)]])
      (use tk i(4) acc_leaf_ok [OF inv i(1)] in \<open>simp add: ReadNonZeroVerify_def VerifierState_of_def Let_def chk Verify_Recover SubTreeRoot_def\<close>)
qed

section \<open>The initial state\<close>

lemma zero_lt_max: "lt (oct_zero G) (MaxKoalaOctuplet G)"
  using Cmp_zero_least [of "MaxKoalaOctuplet G"] ord.le_less [of "oct_zero G" "MaxKoalaOctuplet G"] by simp

lemma head_tail_wl: "well_linked G [0 \<mapsto> Head G, 1 \<mapsto> Tail G]"
proof -
  let ?op = "[0 \<mapsto> Head G, 1 \<mapsto> Tail G] :: 'e links"
  have d: "dom ?op = {0, 1}" and h: "hk ?op 0 = oct_zero G" "hk ?op 1 = MaxKoalaOctuplet G"
    by (auto simp: hk_def Head_def Tail_def)
  have "\<not> lt (MaxKoalaOctuplet G) (oct_zero G)" using zero_lt_max ord.less_asym by blast
  then have ad: "adj G (hk ?op) {0, 1} 0 1" using zero_lt_max by (auto simp: adj_def h)
  have nx: "Next (Head G) = 1" "Prev (Head G) = 0" "Next (Tail G) = 1" "Prev (Tail G) = 0"
    by (simp_all add: Head_def Tail_def)
  show ?thesis
  proof (rule wl_intro)
    show "inj_on (hk ?op) (dom ?op)" unfolding d by (simp add: h)
    show "(if i = 1 then Next l = 1 else adj G (hk ?op) (dom ?op) i (Next l))
        \<and> (if i = 0 then Prev l = 0 else adj G (hk ?op) (dom ?op) (Prev l) i)" if "?op i = Some l" for i l
      using that ad unfolding d by (cases "i = 0"; cases "i = 1") (auto simp: nx)
  qed (simp_all add: d h)
qed

lemma init_complete:
  "ret_or (\<lambda>p. acc_inv G wk wv p \<and> bindings (links_of p) = {} \<and> ps_Location p = location \<and> ps_NextFreeNode p = 2)
    (zero_panics G) (InitializeProverState G zk zv location)"
proof -
  let ?t = "NewEmptyTree G []" and ?h = "leaf_Hash G (Head G)" and ?l = "leaf_Hash G (Tail G)"
  let ?f = "\<lambda>_. EmptyLeaf G"
  have t: "tree_inv G ?t" "Depth ?t = DefaultDepth" "leaf_at G ?t = ?f"
    using NewEmptyTree_spec [of "[]" G] by (simp_all add: chosen_depth_def DefaultDepth_def)
  have s1: "ret_or (\<lambda>t'. tree_inv G t' \<and> Depth t' = DefaultDepth \<and> leaf_at G t' = ?f(0 := ?h)) (zero_panics G) (Update G ?t 0 ?h)"
    using smt.upd_spec [OF t(1), of 0 ?h] t by simp
  have s2: "ret_or (\<lambda>t''. tree_inv G t'' \<and> Depth t'' = DefaultDepth \<and> leaf_at G t'' = ?f(0 := ?h, 1 := ?l)) (zero_panics G) (Update G t' 1 ?l)"
    if "tree_inv G t' \<and> Depth t' = DefaultDepth \<and> leaf_at G t' = ?f(0 := ?h)" for t'
    using smt.upd_spec [of G t' 1 ?l] that by (simp add: DefaultDepth_def del: fun_upd_apply)
  let ?th = "\<lparr>Opening = Head G, Key = zk, Value = zv\<rparr>" and ?tt = "\<lparr>Opening = Tail G, Key = zk, Value = zv\<rparr>"
  define data where "data = Mapping_Update (Mapping_Update NewMapping 0 ?th) (1 :: int) ?tt"
  have d: "TryGet data = [0 \<mapsto> ?th, 1 \<mapsto> ?tt]" "kv_inv data"
    by (auto simp: data_def kv_simps fun_eq_iff)
  have ins: "go_bind (InsertNew NewMapping 0 ?th) (\<lambda>dt. go_bind (InsertNew dt 1 ?tt) k) = k data" for k
    by (simp add: InsertNew_eq kv_simps data_def)
  have fin: "acc_inv G wk wv p \<and> bindings (links_of p) = {} \<and> ps_Location p = location \<and> ps_NextFreeNode p = 2"
    if t2: "tree_inv G t2 \<and> Depth t2 = DefaultDepth \<and> leaf_at G t2 = ?f(0 := ?h, 1 := ?l)"
      and p: "p = \<lparr>ps_Location = location, ps_NextFreeNode = 2, ps_Tree = t2, ps_Data = data\<rparr>" for t2 p
  proof -
    have k: "links_of p = [0 \<mapsto> Head G, 1 \<mapsto> Tail G]"
      by (auto simp: links_of_def p d)
    have "leaves G (links_of p) = ?f(0 := ?h, 1 := ?l)"
      unfolding k by (auto simp: leaves_def fun_eq_iff)
    moreover have "HeadOrTail G (Head G)" "HeadOrTail G (Tail G)"
      by (simp_all add: HeadOrTail_iff Head_def Tail_def)
    ultimately have "acc_ok G wk wv p"
      using t2 d by (auto simp: acc_ok_def p CheckAndLeaf_def DefaultDepth_def split: if_splits)
    moreover have "ps_NextFreeNode p = 2" by (simp add: p)
    ultimately have "acc_inv G wk wv p"
      using head_tail_wl unfolding acc_inv_def k by (auto simp: DefaultDepth_def)
    moreover have "bindings (links_of p) = {}" by (auto simp: k bindings_def)
    ultimately show ?thesis by (simp add: p)
  qed
  show ?thesis
    unfolding InitializeProverState_def Let_def ins
    by (rule ret_or_bind [OF s1], rule ret_or_bind [OF s2], assumption) (simp only: ret_or_simps fin)
qed

end

end
