(* ===== verification/Acc_Sound.thy ===== *)
theory Acc_Sound
  imports Acc_Complete
begin

text \<open>
  Soundness of the accumulator: what a verifier that tracks an accumulator may conclude from
  a trace that it accepts, whoever made the trace. The code cannot exclude collisions of the
  compression function, so each statement has a second alternative that names a collision
  explicitly, between pairs hashed by the verifier and pairs hashed in the tree, or a leaf
  opening that hashes to the empty leaf.

  The verifier never compares the length of a Merkle proof with the depth of the tree: that
  the proofs have \<open>DefaultDepth\<close> siblings is a hypothesis, as it is that the decoded positions
  fit in \<^verbatim>\<open>int64\<close>.
\<close>

section \<open>The accumulator a verifier state represents\<close>

definition vrep :: "'e gnark \<Rightarrow> 'e VerifierState \<Rightarrow> 'e links \<Rightarrow> bool" where
  "vrep G v op \<longleftrightarrow> vs_SubTreeRoot v = aroot G op \<and> well_linked G op
     \<and> (\<forall>i \<in> dom op. 0 \<le> i \<and> i < vs_NextFreeNode v) \<and> vs_NextFreeNode v \<le> 2 ^ DefaultDepth"

lemma acc_inv_vrep: "acc_inv G wk wv p \<Longrightarrow> vrep G (VerifierState_of p) (links_of p)"
  using acc_ok_root [of G wk wv p]
  by (auto simp: vrep_def acc_inv_def acc_ok_def VerifierState_of_def SubTreeRoot_def links_of_Some)

text \<open>Breaking the binding of a Merkle opening, and that of a leaf opening.\<close>

definition path_break :: "'e gnark \<Rightarrow> 'e links \<Rightarrow> 'e Proof \<Rightarrow> 'e octuplet \<Rightarrow> bool" where
  "path_break G op pf leaf \<longleftrightarrow> collide_at (hashLR G) (proof_inputs G pf leaf)
     (leaves_path_inputs G (leaves G op) DefaultDepth (nat (Path pf)))"

definition open_break :: "'e gnark \<Rightarrow> 'e links \<Rightarrow> 'e Proof \<Rightarrow> 'e LeafOpening \<Rightarrow> bool" where
  "open_break G op pf l \<longleftrightarrow> path_break G op pf (leaf_Hash G l)
     \<or> (case op (Path pf) of
          None \<Rightarrow> leaf_Hash G l = EmptyLeaf G
        | Some l' \<Rightarrow> collide_at (compress_p2 G) (leaf_inputs G l) (leaf_inputs G l'))"

lemma verify_sound:
  assumes "Verify G pf leaf (aroot G op) = Ret ()" and "sized pf"
  shows "0 \<le> Path pf" "Path pf < 2 ^ DefaultDepth"
    and "leaf = leaves G op (nat (Path pf))
         \<and> (\<forall>w. RecoverRoot G pf w = Ret (mnode (hashLR G) ((leaves G op)(nat (Path pf) := w)) DefaultDepth 0))
       \<or> path_break G op pf leaf"
proof -
  note b = Verify_binding_leaves [OF aroot_def assms(1) assms(2) [unfolded sized_def]]
  show "0 \<le> Path pf" "Path pf < 2 ^ DefaultDepth" using b by auto
  then have p: "nat (Path pf) < 2 ^ DefaultDepth" "path_ok pf"
    using assms(2) by (simp_all add: nat_less_iff path_ok_def sized_def)
  show "leaf = leaves G op (nat (Path pf))
         \<and> (\<forall>w. RecoverRoot G pf w = Ret (mnode (hashLR G) ((leaves G op)(nat (Path pf) := w)) DefaultDepth 0))
       \<or> path_break G op pf leaf"
    using b p by (auto simp: path_break_def RecoverRoot_eq climb_msibs)
qed

lemma on_err_Ret_iff: "on_err m x = Ret y \<longleftrightarrow> x = Ret y"
  by (cases x) (simp_all add: on_err_def)

lemma audit_Verify: "updateCheckRoot G pf root old new = Ret r \<Longrightarrow>
    Verify G pf old root = Ret () \<and> RecoverRoot G pf new = Ret r"
  by (auto simp: updateCheckRoot_def go_simps on_err_Ret_iff)

lemma leaves_Some:
  "0 \<le> i \<Longrightarrow> leaves G op (nat i) = (case op i of None \<Rightarrow> EmptyLeaf G | Some l \<Rightarrow> leaf_Hash G l)"
  by (simp add: leaves_def)

context felt
begin

lemma vrep_links_ok: "vrep G v op \<Longrightarrow> links_ok op"
  unfolding vrep_def by (intro wl_links_ok) (auto intro: order_less_le_trans)

lemma open_sound:
  assumes v: "Verify G pf (leaf_Hash G l) (aroot G op) = Ret ()" "sized pf" and l: "leaf_ok l" "links_ok op"
  shows "op (Path pf) = Some l \<or> open_break G op pf l"
proof -
  have pos: "0 \<le> Path pf" by (rule verify_sound(1) [OF v])
  from verify_sound(3) [OF v] show ?thesis
  proof
    assume "leaf_Hash G l = leaves G op (nat (Path pf))
      \<and> (\<forall>w. RecoverRoot G pf w = Ret (mnode (hashLR G) ((leaves G op)(nat (Path pf) := w)) DefaultDepth 0))"
    then have eq: "leaf_Hash G l = (case op (Path pf) of None \<Rightarrow> EmptyLeaf G | Some l' \<Rightarrow> leaf_Hash G l')"
      using leaves_Some [OF pos] by simp
    show ?thesis
    proof (cases "op (Path pf)")
      case None
      then show ?thesis using eq by (simp add: open_break_def)
    next
      case (Some l')
      then have "leaf_ok l'" using l(2) unfolding links_ok_def by blast
      then show ?thesis using leaf_Hash_binding [of l l'] eq l(1) Some by (auto simp: open_break_def)
    qed
  qed (simp add: open_break_def)
qed

lemma audit_sound:
  assumes u: "updateCheckRoot G pf (aroot G op) (leaf_Hash G l) (leaf_Hash G l') = Ret r" and "sized pf"
    and l: "leaf_ok l" "links_ok op"
  shows "0 \<le> Path pf \<and> Path pf < 2 ^ DefaultDepth \<and> op (Path pf) = Some l \<and> r = aroot G (op(Path pf \<mapsto> l'))
    \<or> open_break G op pf l"
proof -
  have v: "Verify G pf (leaf_Hash G l) (aroot G op) = Ret ()" and r: "RecoverRoot G pf (leaf_Hash G l') = Ret r"
    using audit_Verify [OF u] by auto
  note s = verify_sound [OF v assms(2)]
  from s(3) open_sound [OF v assms(2) l] show ?thesis
    using r s(1,2) leaves_upd(1) [OF s(1), of G op l'] by (auto simp: aroot_def open_break_def)
qed

section \<open>Reads\<close>

lemma read_zero_sound:
  assumes v: "vrep G v op" and ok: "ReadZeroVerify G wk v trace = Ret ()"
    and sz: "sized (rz_ProofMinus trace)" "sized (rz_ProofPlus trace)"
    and lk: "leaf_ok (rz_OpeningMinus trace)" "leaf_ok (rz_OpeningPlus trace)"
  shows "(\<forall>i l. op i = Some l \<longrightarrow> HKey l \<noteq> hash G (wk (rz_Key trace)))
    \<or> open_break G op (rz_ProofMinus trace) (rz_OpeningMinus trace)
    \<or> open_break G op (rz_ProofPlus trace) (rz_OpeningPlus trace)"
proof -
  let ?pm = "rz_ProofMinus trace" and ?pp = "rz_ProofPlus trace"
  let ?lm = "rz_OpeningMinus trace" and ?lp = "rz_OpeningPlus trace" and ?h = "hash G (wk (rz_Key trace))"
  have wl: "well_linked G op" and root: "vs_SubTreeRoot v = aroot G op" using v by (auto simp: vrep_def)
  from ok have c: "Next ?lm = Path ?pp" "lt (HKey ?lm) ?h" "lt ?h (HKey ?lp)"
    "Verify G ?pm (leaf_Hash G ?lm) (aroot G op) = Ret ()" "Verify G ?pp (leaf_Hash G ?lp) (aroot G op) = Ret ()"
    by (auto simp: ReadZeroVerify_def Let_def go_simps on_err_Ret_iff root Cmp_less_1 Cmp_greater_neg1 split: if_splits)
  from open_sound [OF c(4) sz(1) lk(1) vrep_links_ok [OF v]] open_sound [OF c(5) sz(2) lk(2) vrep_links_ok [OF v]]
  show ?thesis using sandwich_absent(2) [OF wl _ _ c(1) c(2,3)] by auto
qed

lemma read_nonzero_sound:
  assumes v: "vrep G v op" and ok: "ReadNonZeroVerify G wk wv v trace = Ret ()"
    and sz: "sized (rn_Proof trace)" and lk: "leaf_ok (rn_LeafOpening trace)"
    and inner: "\<not> HeadOrTail G (rn_LeafOpening trace)"
  shows "(hash G (wk (rn_Key trace)), hash G (wv (rn_Value trace))) \<in> bindings op
    \<or> open_break G op (rn_Proof trace) (rn_LeafOpening trace)"
proof -
  let ?l = "rn_LeafOpening trace" and ?pf = "rn_Proof trace"
  have wl: "well_linked G op" and root: "vs_SubTreeRoot v = aroot G op" using v by (auto simp: vrep_def)
  from ok inner have c: "HKey ?l = hash G (wk (rn_Key trace))" "HVal ?l = hash G (wv (rn_Value trace))"
    "Verify G ?pf (leaf_Hash G ?l) (aroot G op) = Ret ()"
    by (auto simp: ReadNonZeroVerify_def Let_def go_simps on_err_Ret_iff root CheckAndLeaf_cases split: if_splits)
  from open_sound [OF c(3) sz lk vrep_links_ok [OF v]] show ?thesis
  proof
    assume l: "op (Path ?pf) = Some ?l"
    then have "Path ?pf \<in> dom op - {0, 1}" using wl_not_HeadOrTail [OF wl l] inner by auto
    then show ?thesis using l c by (force simp: bindings_def)
  qed simp
qed

section \<open>Update\<close>

lemma update_sound:
  assumes v: "vrep G v op" and ok: "UpdateVerify G wk wv v trace = Ret v'"
    and sz: "sized (ut_Proof trace)" and lk: "leaf_ok (ut_OldOpening trace)"
    and inner: "\<not> HeadOrTail G (ut_OldOpening trace)"
  shows "(let op' = link_update op (Path (ut_Proof trace)) (hash G (wv (ut_NewValue trace))) in
        vrep G v' op' \<and> vs_NextFreeNode v' = vs_NextFreeNode v
        \<and> (hash G (wk (ut_Key trace)), hash G (wv (ut_OldValue trace))) \<in> bindings op
        \<and> bindings op' = insert (hash G (wk (ut_Key trace)), hash G (wv (ut_NewValue trace)))
            (bindings op - {(hash G (wk (ut_Key trace)), hash G (wv (ut_OldValue trace)))}))
    \<or> open_break G op (ut_Proof trace) (ut_OldOpening trace)"
proof -
  let ?l = "ut_OldOpening trace" and ?pf = "ut_Proof trace" and ?v = "hash G (wv (ut_NewValue trace))"
  have wl: "well_linked G op" and root: "vs_SubTreeRoot v = aroot G op" using v by (auto simp: vrep_def)
  from ok inner have c: "HKey ?l = hash G (wk (ut_Key trace))" "HVal ?l = hash G (wv (ut_OldValue trace))"
    "updateCheckRoot G ?pf (aroot G op) (leaf_Hash G ?l) (leaf_Hash G (?l\<lparr>HVal := ?v\<rparr>)) = Ret (ut_NewSubRoot trace)"
    and v': "v' = v\<lparr>vs_SubTreeRoot := ut_NewSubRoot trace\<rparr>"
    by (auto simp: UpdateVerify_def Let_def go_simps on_err_Ret_iff root CheckAndLeaf_cases split: if_splits)
  from audit_sound [OF c(3) sz lk vrep_links_ok [OF v]] show ?thesis
  proof
    assume a: "0 \<le> Path ?pf \<and> Path ?pf < 2 ^ DefaultDepth \<and> op (Path ?pf) = Some ?l
      \<and> ut_NewSubRoot trace = aroot G (op(Path ?pf \<mapsto> ?l\<lparr>HVal := ?v\<rparr>))"
    then have l: "op (Path ?pf) = Some ?l" and eq: "op(Path ?pf \<mapsto> ?l\<lparr>HVal := ?v\<rparr>) = link_update op (Path ?pf) ?v"
      by (simp_all add: link_update_def)
    have ne: "Path ?pf \<noteq> 0" "Path ?pf \<noteq> 1" using wl_not_HeadOrTail [OF wl l] inner by auto
    have "dom (link_update op (Path ?pf) ?v) = dom op" using l by (auto simp: link_update_def)
    then have "vrep G v' (link_update op (Path ?pf) ?v)"
      using v a eq link_update_wl [OF wl l, of ?v] by (simp add: vrep_def v')
    moreover have "(HKey ?l, HVal ?l) \<in> bindings op" using l ne by (force simp: bindings_def)
    ultimately show ?thesis
      using link_update_bindings [OF wl l ne, of ?v] c(1,2) v' by (simp add: Let_def)
  qed simp
qed

end

section \<open>Insertion\<close>

text \<open>The intermediate accumulators of an insertion and of a deletion, and where they may break.\<close>

definition insertion_break ::
  "'e gnark \<Rightarrow> ('k \<Rightarrow> writes) \<Rightarrow> ('v \<Rightarrow> writes) \<Rightarrow> 'e links \<Rightarrow> ('e, 'k, 'v) InsertionTrace \<Rightarrow> bool" where
  "insertion_break G wk wv op trace \<longleftrightarrow>
     (let im = Path (it_ProofMinus trace); n = Path (it_ProofNew trace); ip = Path (it_ProofPlus trace);
          op1 = op(im \<mapsto> CopyWithNext (it_OldOpenMinus trace) n);
          op2 = op1(n \<mapsto> \<lparr>Prev = im, Next = ip, HKey = hash G (wk (it_Key trace)), HVal = hash G (wv (it_Val trace))\<rparr>)
      in open_break G op (it_ProofMinus trace) (it_OldOpenMinus trace)
       \<or> path_break G op1 (it_ProofNew trace) (EmptyLeaf G)
       \<or> open_break G op2 (it_ProofPlus trace) (it_OldOpenPlus trace))"

definition deletion_break :: "'e gnark \<Rightarrow> 'e links \<Rightarrow> ('e, 'k, 'v) DeletionTrace \<Rightarrow> bool" where
  "deletion_break G op trace \<longleftrightarrow>
     (let im = Path (dt_ProofMinus trace); i = Path (dt_ProofDeleted trace); ip = Path (dt_ProofPlus trace);
          op1 = op(im \<mapsto> CopyWithNext (dt_OldOpenMinus trace) ip); op2 = op1(i := None)
      in open_break G op (dt_ProofMinus trace) (dt_OldOpenMinus trace)
       \<or> open_break G op1 (dt_ProofDeleted trace) (dt_DeletedOpen trace)
       \<or> open_break G op2 (dt_ProofPlus trace) (dt_OldOpenPlus trace))"

lemma links_ok_upd: "links_ok op \<Longrightarrow> leaf_ok l \<Longrightarrow> links_ok (op(i \<mapsto> l))" "links_ok op \<Longrightarrow> links_ok (op(i := None))"
  by (auto simp: links_ok_def)

lemma leaf_ok_copy: "leaf_ok l \<Longrightarrow> int64_ok n \<Longrightarrow> leaf_ok (CopyWithNext l n)" "leaf_ok l \<Longrightarrow> int64_ok n \<Longrightarrow> leaf_ok (CopyWithPrev l n)"
  by (simp_all add: leaf_ok_def CopyWithNext_def CopyWithPrev_def)

lemma int64_ok_pos: "0 \<le> i \<Longrightarrow> i \<le> 2 ^ DefaultDepth \<Longrightarrow> int64_ok i"
  by (simp add: int64_ok_def DefaultDepth_def)

context felt
begin

lemma audit_empty_sound:
  assumes u: "updateCheckRoot G pf (aroot G op) (EmptyLeaf G) (leaf_Hash G l) = Ret r" and sz: "sized pf"
  shows "0 \<le> Path pf \<and> Path pf < 2 ^ DefaultDepth \<and> r = aroot G (op(Path pf \<mapsto> l)) \<or> path_break G op pf (EmptyLeaf G)"
proof -
  have v: "Verify G pf (EmptyLeaf G) (aroot G op) = Ret ()" and r: "RecoverRoot G pf (leaf_Hash G l) = Ret r"
    using audit_Verify [OF u] by auto
  note s = verify_sound [OF v sz]
  from s(3) show ?thesis using r s(1,2) leaves_upd(1) [OF s(1), of G op l] by (auto simp: aroot_def)
qed

lemma audit_delete_sound:
  assumes u: "updateCheckRoot G pf (aroot G op) (leaf_Hash G l) (EmptyLeaf G) = Ret r" and "sized pf"
    and l: "leaf_ok l" "links_ok op"
  shows "0 \<le> Path pf \<and> Path pf < 2 ^ DefaultDepth \<and> op (Path pf) = Some l \<and> r = aroot G (op(Path pf := None))
    \<or> open_break G op pf l"
proof -
  have v: "Verify G pf (leaf_Hash G l) (aroot G op) = Ret ()" and r: "RecoverRoot G pf (EmptyLeaf G) = Ret r"
    using audit_Verify [OF u] by auto
  note s = verify_sound [OF v assms(2)]
  from s(3) open_sound [OF v assms(2) l] show ?thesis
    using r s(1,2) leaves_upd(2) [OF s(1), of G op] by (auto simp: aroot_def open_break_def)
qed

text \<open>An insertion between two neighbours keeps the representation.\<close>

lemma vrep_insert:
  assumes v: "vrep G v op" and n: "n = vs_NextFreeNode v" "n < 2 ^ DefaultDepth"
    and m: "op im = Some lm" "op ip = Some lp" "Next lm = ip" and h: "lt (HKey lm) h" "lt h (HKey lp)"
    and v': "v' = v\<lparr>vs_SubTreeRoot := aroot G (link_insert op im n ip h hv), vs_NextFreeNode := i64 (vs_NextFreeNode v + 1)\<rparr>"
  shows "vrep G v' (link_insert op im n ip h hv) \<and> vs_NextFreeNode v' = n + 1
    \<and> bindings (link_insert op im n ip h hv) = insert (h, hv) (bindings op)"
proof -
  let ?op' = "link_insert op im n ip h hv"
  have wl: "well_linked G op" using v by (simp add: vrep_def)
  have base: "{0, 1} \<subseteq> dom op" using wl by (simp add: well_linked_def)
  have bnd: "\<forall>i \<in> dom op. 0 \<le> i \<and> i < n" using v n by (simp add: vrep_def)
  have "0 \<in> dom op" using base by blast
  then have n0: "0 \<le> n" using bnd by (meson less_imp_le)
  have free: "op n = None" using bnd by (meson domIff less_irrefl)
  have ne: "im \<noteq> ip" using m h ord.less_asym by auto
  have "dom ?op' = insert n (dom op)" using m by (auto simp: link_insert_def)
  with bnd have "\<forall>i \<in> dom ?op'. 0 \<le> i \<and> i < n + 1" using n0 by (metis insertE less_add_one order_less_trans)
  moreover have nxt: "vs_NextFreeNode v' = n + 1" using i64_small(2) [OF n0 n(2)] n(1) by (simp add: v')
  ultimately have "vrep G v' ?op'"
    unfolding vrep_def nxt using link_insert_wl [OF wl m h free] n(2) v' by simp
  then show ?thesis using link_insert_bindings [OF m(1,2) free ne base] nxt by simp
qed

lemma insertion_sound:
  assumes v: "vrep G v op" and ok: "VerifyInsertion G wk wv v trace = Ret (v', None)"
    and sz: "sized (it_ProofMinus trace)" "sized (it_ProofNew trace)" "sized (it_ProofPlus trace)"
    and lk: "leaf_ok (it_OldOpenMinus trace)" "leaf_ok (it_OldOpenPlus trace)"
  shows "(let op' = link_insert op (Path (it_ProofMinus trace)) (Path (it_ProofNew trace)) (Path (it_ProofPlus trace))
              (hash G (wk (it_Key trace))) (hash G (wv (it_Val trace))) in
        vrep G v' op' \<and> (\<forall>i l. op i = Some l \<longrightarrow> HKey l \<noteq> hash G (wk (it_Key trace)))
        \<and> vs_NextFreeNode v' = vs_NextFreeNode v + 1
        \<and> bindings op' = insert (hash G (wk (it_Key trace)), hash G (wv (it_Val trace))) (bindings op))
    \<or> insertion_break G wk wv op trace"
proof (cases "insertion_break G wk wv op trace")
  case False
  let ?pm = "it_ProofMinus trace" and ?pn = "it_ProofNew trace" and ?pp = "it_ProofPlus trace"
  let ?lm = "it_OldOpenMinus trace" and ?lp = "it_OldOpenPlus trace"
  let ?h = "hash G (wk (it_Key trace))" and ?hv = "hash G (wv (it_Val trace))"
  let ?im = "Path ?pm" and ?n = "Path ?pn" and ?ip = "Path ?pp"
  let ?new = "\<lparr>Prev = ?im, Next = ?ip, HKey = ?h, HVal = ?hv\<rparr>"
  let ?op1 = "op(?im \<mapsto> CopyWithNext ?lm ?n)"
  let ?op2 = "?op1(?n \<mapsto> ?new)"
  have wl: "well_linked G op" and root: "vs_SubTreeRoot v = aroot G op" using v by (auto simp: vrep_def)
  have lo: "links_ok op" by (rule vrep_links_ok [OF v])
  from ok obtain r where ir: "insertion_root G wk wv v trace = Ret r"
    and v': "v' = v\<lparr>vs_SubTreeRoot := r, vs_NextFreeNode := i64 (vs_NextFreeNode v + 1)\<rparr>"
    by (auto simp: VerifyInsertion_def Let_def split: go.splits if_splits)
  from ir obtain r1 r2 where n: "?n = vs_NextFreeNode v" and nx: "Next ?lm = ?ip"
    and h: "lt (HKey ?lm) ?h" "lt ?h (HKey ?lp)"
    and a1: "updateCheckRoot G ?pm (aroot G op) (leaf_Hash G ?lm) (leaf_Hash G (CopyWithNext ?lm ?n)) = Ret r1"
    and a2: "updateCheckRoot G ?pn r1 (EmptyLeaf G) (leaf_Hash G ?new) = Ret r2"
    and a3: "updateCheckRoot G ?pp r2 (leaf_Hash G ?lp) (leaf_Hash G (CopyWithPrev ?lp ?n)) = Ret r"
    by (auto simp: insertion_root_def Let_def go_simps on_err_Ret_iff root Cmp_less_1 Cmp_greater_neg1 split: if_splits)
  have 1: "0 \<le> ?im" "?im < 2 ^ DefaultDepth" "op ?im = Some ?lm" "r1 = aroot G ?op1"
    using audit_sound [OF a1 sz(1) lk(1) lo] False by (auto simp: insertion_break_def Let_def)
  have 2: "0 \<le> ?n" "?n < 2 ^ DefaultDepth" "r2 = aroot G ?op2"
    using audit_empty_sound [OF a2 [unfolded 1(4)] sz(2)] False by (auto simp: insertion_break_def Let_def)
  have ip: "0 \<le> ?ip" "?ip < 2 ^ DefaultDepth"
    using audit_Verify [OF a3] verify_sound(1,2) [OF _ sz(3), of G "leaf_Hash G ?lp" ?op2] by (simp_all add: 2(3))
  have "leaf_ok ?new" using 1 2 ip int64_ok_pos by (simp add: leaf_ok_def)
  then have "links_ok ?op2" using lo lk 2 int64_ok_pos by (intro links_ok_upd leaf_ok_copy) auto
  from audit_sound [OF a3 [unfolded 2(3)] sz(3) lk(2) this] False
  have 3: "?op2 ?ip = Some ?lp" "r = aroot G (?op2(?ip \<mapsto> CopyWithPrev ?lp ?n))"
    by (auto simp: insertion_break_def Let_def)
  have k: "HKey (the (?op2 ?ip)) = HKey ?lp" using 3(1) by simp
  have "?ip \<noteq> ?n" using k h(2) by auto
  moreover have "?ip \<noteq> ?im" using k h \<open>?ip \<noteq> ?n\<close> ord.less_asym by auto
  ultimately have lp: "op ?ip = Some ?lp" using 3(1) by simp
  then have "?op2(?ip \<mapsto> CopyWithPrev ?lp ?n) = link_insert op ?im ?n ?ip ?h ?hv"
    using 1(3) by (simp add: link_insert_def)
  then have "v' = v\<lparr>vs_SubTreeRoot := aroot G (link_insert op ?im ?n ?ip ?h ?hv), vs_NextFreeNode := i64 (vs_NextFreeNode v + 1)\<rparr>"
    using v' 3(2) by simp
  from vrep_insert [OF v n 2(2) 1(3) lp nx h this] show ?thesis
    using sandwich_absent(2) [OF wl 1(3) lp nx h] n by (auto simp: Let_def)
qed simp

section \<open>Deletion\<close>

text \<open>The three openings of an accepted deletion are consecutive.\<close>

lemma deletion_consecutive:
  assumes wl: "well_linked G op" and m: "op im = Some lm" "Next lm = i" "Prev l = im" "Next l = ip" "Prev lp = i"
    and i: "(op(im \<mapsto> CopyWithNext lm ip)) i = Some l"
    and p: "((op(im \<mapsto> CopyWithNext lm ip))(i := None)) ip = Some lp"
  shows "op i = Some l \<and> op ip = Some lp \<and> i \<noteq> 0 \<and> i \<noteq> 1"
proof -
  let ?A = "adj G (hk op) (dom op)"
  have irr: "\<not> ?A x x" for x by (auto simp: adj_def)
  have asym: "\<not> (?A x y \<and> ?A y x)" for x y
    using ord.less_asym [of "hk op x" "hk op y"] by (auto simp: adj_def)
  have tail: "im = 1 \<Longrightarrow> i = 1" using wl m(1,2) by (auto simp: well_linked_def)
  have nxt: "im \<noteq> 1 \<Longrightarrow> ?A im i" using wl_next [OF wl m(1)] m(2) by simp
  have ne: "i \<noteq> im"
  proof
    assume e: "i = im"
    then have "im = 1" using nxt irr by blast
    moreover have "Prev lm = im" using i e m(3) by (auto simp: CopyWithNext_def)
    ultimately show False using wl_prev [OF wl m(1)] irr by auto
  qed
  then have li: "op i = Some l" using i by simp
  have im1: "im \<noteq> 1" using tail ne by auto
  have "?A im i" by (rule nxt [OF im1])
  moreover have "\<not> ?A x 0" for x
    using wl Cmp_zero_least [of "hk op x"] Cmp_swap [of "oct_zero G" "hk op x"] by (auto simp: adj_def well_linked_def)
  ultimately have i0: "i \<noteq> 0" by blast
  have pi: "ip \<noteq> i" using p by auto
  have i1: "i \<noteq> 1" using wl li m(4) pi by (auto simp: well_linked_def)
  have "ip \<noteq> im"
  proof
    assume e: "ip = im"
    then have "?A i im" using wl_next [OF wl li i1] m(4) by simp
    then show False using asym nxt [OF im1] by blast
  qed
  then show ?thesis using p pi li i0 i1 by simp
qed

lemma deletion_sound:
  assumes v: "vrep G v op" and ok: "VerifyDeletion G wk wv v trace = Ret v'"
    and sz: "sized (dt_ProofMinus trace)" "sized (dt_ProofDeleted trace)" "sized (dt_ProofPlus trace)"
    and lk: "leaf_ok (dt_OldOpenMinus trace)" "leaf_ok (dt_DeletedOpen trace)" "leaf_ok (dt_OldOpenPlus trace)"
  shows "(let op' = link_delete op (Prev (dt_DeletedOpen trace)) (Path (dt_ProofDeleted trace)) (Next (dt_DeletedOpen trace)) in
        vrep G v' op' \<and> vs_NextFreeNode v' = vs_NextFreeNode v
        \<and> (hash G (wk (dt_Key trace)), hash G (wv (dt_DeletedValue trace))) \<in> bindings op
        \<and> bindings op' = bindings op - {(hash G (wk (dt_Key trace)), hash G (wv (dt_DeletedValue trace)))})
    \<or> deletion_break G op trace"
proof (cases "deletion_break G op trace")
  case False
  let ?pm = "dt_ProofMinus trace" and ?pn = "dt_ProofDeleted trace" and ?pp = "dt_ProofPlus trace"
  let ?lm = "dt_OldOpenMinus trace" and ?l = "dt_DeletedOpen trace" and ?lp = "dt_OldOpenPlus trace"
  let ?im = "Path ?pm" and ?i = "Path ?pn" and ?ip = "Path ?pp"
  let ?op1 = "op(?im \<mapsto> CopyWithNext ?lm ?ip)"
  let ?op2 = "?op1(?i := None)"
  have wl: "well_linked G op" and root: "vs_SubTreeRoot v = aroot G op" using v by (auto simp: vrep_def)
  have lo: "links_ok op" by (rule vrep_links_ok [OF v])
  from ok obtain r r1 r2 where kv: "HKey ?l = hash G (wk (dt_Key trace))" "HVal ?l = hash G (wv (dt_DeletedValue trace))"
    and ptr: "Next ?lm = ?i" "Prev ?l = ?im" "Next ?l = ?ip" "Prev ?lp = ?i"
    and a1: "updateCheckRoot G ?pm (aroot G op) (leaf_Hash G ?lm) (leaf_Hash G (CopyWithNext ?lm ?ip)) = Ret r1"
    and a2: "updateCheckRoot G ?pn r1 (leaf_Hash G ?l) (EmptyLeaf G) = Ret r2"
    and a3: "updateCheckRoot G ?pp r2 (leaf_Hash G ?lp) (leaf_Hash G (CopyWithPrev ?lp ?im)) = Ret r"
    and v': "v' = v\<lparr>vs_SubTreeRoot := r\<rparr>"
    by (auto simp: VerifyDeletion_def Let_def go_simps on_err_Ret_iff root MatchKey_def split: if_splits)
  have 1: "op ?im = Some ?lm" "r1 = aroot G ?op1"
    using audit_sound [OF a1 sz(1) lk(1) lo] False by (auto simp: deletion_break_def Let_def)
  have ipok: "int64_ok ?ip" using lk(2) ptr(3) by (simp add: leaf_ok_def)
  have lo1: "links_ok ?op1" using lo lk(1) ipok by (intro links_ok_upd leaf_ok_copy)
  have 2: "?op1 ?i = Some ?l" "r2 = aroot G ?op2"
    using audit_delete_sound [OF a2 [unfolded 1(2)] sz(2) lk(2) lo1] False by (auto simp: deletion_break_def Let_def)
  have 3: "?op2 ?ip = Some ?lp" "r = aroot G (?op2(?ip \<mapsto> CopyWithPrev ?lp ?im))"
    using audit_sound [OF a3 [unfolded 2(2)] sz(3) lk(3) links_ok_upd(2) [OF lo1]] False
    by (auto simp: deletion_break_def Let_def)
  have c: "op ?i = Some ?l" "op ?ip = Some ?lp" "?i \<noteq> 0" "?i \<noteq> 1"
    using deletion_consecutive [OF wl 1(1) ptr 2(1) 3(1)] by auto
  let ?op' = "link_delete op (Prev ?l) ?i (Next ?l)"
  have eq: "?op2(?ip \<mapsto> CopyWithPrev ?lp ?im) = ?op'"
    using 1(1) c ptr by (simp add: link_delete_def)
  have "dom ?op' \<subseteq> dom op" using 1(1) c ptr by (auto simp: link_delete_def)
  then have "vrep G v' ?op'"
    using v v' 3(2) link_delete_wl [OF wl c(1,3,4)] unfolding eq by (auto simp: vrep_def simp del: dom_def)
  moreover have "(HKey ?l, HVal ?l) \<in> bindings op" using c by (force simp: bindings_def)
  ultimately show ?thesis
    using link_delete_bindings [OF wl c(1,3,4)] kv v' by (simp add: Let_def)
qed simp

section \<open>What the reads do not check\<close>

text \<open>
  \<^verbatim>\<open>CheckAndLeaf\<close> skips the comparison of the key and of the value with the opening when the
  opening is that of the head or of the tail. A read (or an update) that opens the head is
  therefore accepted for any key and any value.
\<close>

lemma head_read_accepted:
  assumes inv: "acc_inv G wk wv p" and l: "links_of p 0 = Some l"
  shows "ret_or (\<lambda>pf. ReadNonZeroVerify G wk wv (VerifierState_of p)
      \<lparr>rn_Type = 0, rn_Location = ps_Location p, rn_NextFreeNode = ps_NextFreeNode p, rn_Key = key,
       rn_Value = val, rn_SubRoot = SubTreeRoot p, rn_LeafOpening = l, rn_Proof = pf\<rparr> = Ret ())
    (zero_panics G) (MustProve G (ps_Tree p) 0)"
proof (rule ret_or_mono [OF prove_at [OF inv l]])
  have "HeadOrTail G l" using wl_not_HeadOrTail [OF acc_invD(2) [OF inv] l] by simp
  then show "ReadNonZeroVerify G wk wv (VerifierState_of p)
      \<lparr>rn_Type = 0, rn_Location = ps_Location p, rn_NextFreeNode = ps_NextFreeNode p, rn_Key = key,
       rn_Value = val, rn_SubRoot = SubTreeRoot p, rn_LeafOpening = l, rn_Proof = pf\<rparr> = Ret ()"
    if "Path pf = 0 \<and> sized pf \<and> RecoverRoot G pf (leaf_Hash G l) = Ret (SubTreeRoot p)" for pf
    using that by (simp add: ReadNonZeroVerify_def VerifierState_of_def CheckAndLeaf_def Let_def
        Verify_Recover SubTreeRoot_def)
qed simp

end

section \<open>Deferred Merkle checks\<close>

definition claims_ok :: "'e gnark \<Rightarrow> 'e ProvedClaim list \<Rightarrow> bool" where
  "claims_ok G cs = list_all (\<lambda>c. Verify G (pc_Proof c) (pc_Leaf c) (pc_Root c) = Ret ()) cs"

fun verify_trace ::
  "'e gnark \<Rightarrow> ('k \<Rightarrow> writes) \<Rightarrow> ('v \<Rightarrow> writes) \<Rightarrow> 'e VerifierState \<Rightarrow> ('e, 'k, 'v) Trace \<Rightarrow> bool" where
  "verify_trace G wk wv v (TInsert t) = (\<exists>v'. VerifyInsertion G wk wv v t = Ret (v', None))"
| "verify_trace G wk wv v (TDelete t) = (\<exists>v'. VerifyDeletion G wk wv v t = Ret v')"
| "verify_trace G wk wv v (TUpdate t) = (\<exists>v'. UpdateVerify G wk wv v t = Ret v')"
| "verify_trace G wk wv v (TReadZero t) = (ReadZeroVerify G wk v t = Ret ())"
| "verify_trace G wk wv v (TReadNonZero t) = (ReadNonZeroVerify G wk wv v t = Ret ())"

text \<open>
  The checks of the verifier that are no Merkle proofs, and the root that a trace announces: they
  are what is left to check besides the deferred claims.
\<close>

definition opening_of :: "'e gnark \<Rightarrow> 'e octuplet \<Rightarrow> 'e octuplet \<Rightarrow> 'e LeafOpening \<Rightarrow> bool" where
  "opening_of G h hv l \<longleftrightarrow> HKey l = h \<and> HVal l = hv \<or> HKey l = oct_zero G \<or> HKey l = MaxKoalaOctuplet G"

fun plain_checks ::
  "'e gnark \<Rightarrow> ('k \<Rightarrow> writes) \<Rightarrow> ('v \<Rightarrow> writes) \<Rightarrow> 'e VerifierState \<Rightarrow> ('e, 'k, 'v) Trace \<Rightarrow> bool" where
  "plain_checks G wk wv v (TInsert t) =
     (it_Location t = vs_Location v \<and> it_OldSubRoot t = vs_SubTreeRoot v \<and> Path (it_ProofNew t) = vs_NextFreeNode v
      \<and> Next (it_OldOpenMinus t) = Path (it_ProofPlus t) \<and> Prev (it_OldOpenPlus t) = Path (it_ProofMinus t)
      \<and> 1 \<le> Cmp G (hash G (wk (it_Key t))) (HKey (it_OldOpenMinus t))
      \<and> Cmp G (hash G (wk (it_Key t))) (HKey (it_OldOpenPlus t)) \<le> -1
      \<and> it_NewNextFreeNode t = i64 (vs_NextFreeNode v + 1))"
| "plain_checks G wk wv v (TDelete t) =
     (dt_Location t = vs_Location v \<and> dt_OldSubRoot t = vs_SubTreeRoot v
      \<and> Next (dt_OldOpenMinus t) = Path (dt_ProofDeleted t) \<and> Prev (dt_DeletedOpen t) = Path (dt_ProofMinus t)
      \<and> Next (dt_DeletedOpen t) = Path (dt_ProofPlus t) \<and> Prev (dt_OldOpenPlus t) = Path (dt_ProofDeleted t)
      \<and> HKey (dt_DeletedOpen t) = hash G (wk (dt_Key t)) \<and> HVal (dt_DeletedOpen t) = hash G (wv (dt_DeletedValue t))
      \<and> dt_NewNextFreeNode t = vs_NextFreeNode v)"
| "plain_checks G wk wv v (TUpdate t) =
     (ut_Location t = vs_Location v \<and> ut_OldSubRoot t = vs_SubTreeRoot v \<and> ut_NewNextFreeNode t = vs_NextFreeNode v
      \<and> opening_of G (hash G (wk (ut_Key t))) (hash G (wv (ut_OldValue t))) (ut_OldOpening t))"
| "plain_checks G wk wv v (TReadZero t) =
     (rz_Location t = vs_Location v \<and> rz_SubRoot t = vs_SubTreeRoot v \<and> rz_NextFreeNode t = vs_NextFreeNode v
      \<and> Next (rz_OpeningMinus t) = Path (rz_ProofPlus t) \<and> Prev (rz_OpeningPlus t) = Path (rz_ProofMinus t)
      \<and> 1 \<le> Cmp G (hash G (wk (rz_Key t))) (HKey (rz_OpeningMinus t))
      \<and> Cmp G (hash G (wk (rz_Key t))) (HKey (rz_OpeningPlus t)) \<le> -1)"
| "plain_checks G wk wv v (TReadNonZero t) =
     (rn_Location t = vs_Location v \<and> rn_SubRoot t = vs_SubTreeRoot v \<and> rn_NextFreeNode t = vs_NextFreeNode v
      \<and> opening_of G (hash G (wk (rn_Key t))) (hash G (wv (rn_Value t))) (rn_LeafOpening t))"

fun announced_root :: "('e, 'k, 'v) Trace \<Rightarrow> 'e octuplet option" where
  "announced_root (TInsert t) = Some (it_NewSubRoot t)"
| "announced_root (TDelete t) = Some (dt_NewSubRoot t)"
| "announced_root (TUpdate t) = Some (ut_NewSubRoot t)"
| "announced_root (TReadZero t) = None"
| "announced_root (TReadNonZero t) = None"

definition ends_at :: "'e octuplet option \<Rightarrow> 'e ProvedClaim list \<Rightarrow> bool" where
  "ends_at r cs = (case r of None \<Rightarrow> True | Some r \<Rightarrow> pc_Root (last cs) = r)"

lemma updateCheckRoot_iff:
  "updateCheckRoot G pf root old new = Ret r \<longleftrightarrow> Verify G pf old root = Ret () \<and> RecoverRoot G pf new = Ret r"
  by (auto simp: updateCheckRoot_def go_simps on_err_Ret_iff)

lemma defer_iff:
  "deferCheckUpdateRoot G pf root old new as = Ret (cs, r) \<longleftrightarrow> RecoverRoot G pf new = Ret r
     \<and> cs = as @ [\<lparr>pc_Proof = pf, pc_Root = root, pc_Leaf = old\<rparr>, \<lparr>pc_Proof = pf, pc_Root = r, pc_Leaf = new\<rparr>]"
  by (cases "RecoverRoot G pf new") (auto simp: deferCheckUpdateRoot_def)

lemmas defer_simps = go_simps on_err_Ret_iff updateCheckRoot_iff defer_iff Verify_Recover claims_ok_def ends_at_def Let_def

lemma CheckAndLeaf_Ret_iff:
  "CheckAndLeaf G wk wv t = Ret l \<longleftrightarrow> l = leaf_Hash G (Opening t) \<and> opening_of G (hash G (wk (Key t))) (hash G (wv (Value t))) (Opening t)"
  by (auto simp: CheckAndLeaf_cases HeadOrTail_iff opening_of_def)

lemma leaf_or_zero_opening:
  "opening_of G (hash G (wk (Key t))) (hash G (wv (Value t))) (Opening t) \<Longrightarrow>
    leaf_or_zero G (CheckAndLeaf G wk wv t) = leaf_Hash G (Opening t)"
  using CheckAndLeaf_Ret_iff [of G wk wv t "leaf_Hash G (Opening t)"] by (simp add: leaf_or_zero_def)

lemma VerifyInsertion_accepts:
  "VerifyInsertion G wk wv v t = Ret (v', None) \<longleftrightarrow> (\<exists>r. insertion_root G wk wv v t = Ret r
     \<and> v' = v\<lparr>vs_SubTreeRoot := r, vs_NextFreeNode := i64 (vs_NextFreeNode v + 1)\<rparr>
     \<and> i64 (vs_NextFreeNode v + 1) = it_NewNextFreeNode t)"
  by (auto simp: VerifyInsertion_def Let_def split: go.splits)

lemma defer_insert:
  "verify_trace G wk wv v (TInsert t) \<longleftrightarrow> plain_checks G wk wv v (TInsert t)
    \<and> (\<exists>cs. DeferMerkleChecks G wk wv (TInsert t) as = Ret (as @ cs) \<and> claims_ok G cs
        \<and> ends_at (announced_root (TInsert t)) cs)"
  by (auto simp: VerifyInsertion_accepts insertion_root_def insertion_DeferMerkleChecks_def defer_simps split: if_splits)

lemma defer_delete:
  "verify_trace G wk wv v (TDelete t) \<longleftrightarrow> plain_checks G wk wv v (TDelete t)
    \<and> (\<exists>cs. DeferMerkleChecks G wk wv (TDelete t) as = Ret (as @ cs) \<and> claims_ok G cs
        \<and> ends_at (announced_root (TDelete t)) cs)"
  by (auto simp: VerifyDeletion_def deletion_DeferMerkleChecks_def defer_simps MatchKey_def split: if_splits)

lemma defer_update:
  "verify_trace G wk wv v (TUpdate t) \<longleftrightarrow> plain_checks G wk wv v (TUpdate t)
    \<and> (\<exists>cs. DeferMerkleChecks G wk wv (TUpdate t) as = Ret (as @ cs) \<and> claims_ok G cs
        \<and> ends_at (announced_root (TUpdate t)) cs)"
  by (auto simp: UpdateVerify_def update_DeferMerkleChecks_def defer_simps CheckAndLeaf_Ret_iff leaf_or_zero_opening split: if_splits)

lemma defer_reads:
  "verify_trace G wk wv v (TReadZero t) \<longleftrightarrow> plain_checks G wk wv v (TReadZero t)
    \<and> (\<exists>cs. DeferMerkleChecks G wk wv (TReadZero t) as = Ret (as @ cs) \<and> claims_ok G cs)"
  "verify_trace G wk wv v (TReadNonZero u) \<longleftrightarrow> plain_checks G wk wv v (TReadNonZero u)
    \<and> (\<exists>cs. DeferMerkleChecks G wk wv (TReadNonZero u) as = Ret (as @ cs) \<and> claims_ok G cs)"
  by (auto simp: ReadZeroVerify_def readzero_DeferMerkleChecks_def ReadNonZeroVerify_def readnonzero_DeferMerkleChecks_def
      defer_simps CheckAndLeaf_Ret_iff leaf_or_zero_opening split: if_splits)

lemma defer_exact:
  "verify_trace G wk wv v t \<longleftrightarrow> plain_checks G wk wv v t
    \<and> (\<exists>cs. DeferMerkleChecks G wk wv t as = Ret (as @ cs) \<and> claims_ok G cs \<and> ends_at (announced_root t) cs)"
  using defer_reads [of G wk wv v] by (cases t) (simp_all only: defer_insert defer_delete defer_update, simp_all add: ends_at_def)

end
