(* ===== verification/Acc_Run.thy ===== *)
theory Acc_Run
  imports Acc_Sound
begin

text \<open>
  Sessions: a prover that starts from the empty accumulator and processes any sequence of
  operations, as long as none of them panics. The verifier that checks the traces of the session
  and the abstract map that executes its operations are compared with it.
\<close>

datatype ('k, 'v) operation = OInsert 'k 'v | ODelete 'k | OUpdate 'k 'v | OReadZero 'k | OReadNonZero 'k

fun op_key :: "('k, 'v) operation \<Rightarrow> 'k" where
  "op_key (OInsert k v) = k"
| "op_key (ODelete k) = k"
| "op_key (OUpdate k v) = k"
| "op_key (OReadZero k) = k"
| "op_key (OReadNonZero k) = k"

fun prover_step ::
  "'e gnark \<Rightarrow> ('k \<Rightarrow> writes) \<Rightarrow> ('v \<Rightarrow> writes) \<Rightarrow> int range_order \<Rightarrow> int range_order
    \<Rightarrow> ('e, 'k, 'v) ProverState \<Rightarrow> ('k, 'v) operation \<Rightarrow> (('e, 'k, 'v) ProverState \<times> ('e, 'k, 'v) Trace) go" where
  "prover_step G wk wv o1 o2 p (OInsert k v) =
     go_bind (InsertAndProve G wk wv o1 o2 p k v) (\<lambda>(p', t). Ret (p', TInsert t))"
| "prover_step G wk wv o1 o2 p (ODelete k) =
     go_bind (DeleteAndProve G wk wv o1 p k) (\<lambda>(p', t). Ret (p', TDelete t))"
| "prover_step G wk wv o1 o2 p (OUpdate k v) =
     go_bind (UpdateAndProve G wk wv o1 p k v) (\<lambda>(p', t). Ret (p', TUpdate t))"
| "prover_step G wk wv o1 o2 p (OReadZero k) =
     go_bind (ReadZeroAndProve G wk o1 o2 p k) (\<lambda>t. Ret (p, TReadZero t))"
| "prover_step G wk wv o1 o2 p (OReadNonZero k) =
     go_bind (ReadNonZeroAndProve G wk o1 p k) (\<lambda>t. Ret (p, TReadNonZero t))"

fun verifier_step ::
  "'e gnark \<Rightarrow> ('k \<Rightarrow> writes) \<Rightarrow> ('v \<Rightarrow> writes) \<Rightarrow> 'e VerifierState \<Rightarrow> ('e, 'k, 'v) Trace \<Rightarrow> 'e VerifierState go" where
  "verifier_step G wk wv v (TInsert t) =
     go_bind (VerifyInsertion G wk wv v t) (\<lambda>(v', e). case e of None \<Rightarrow> Ret v' | Some m \<Rightarrow> Err m)"
| "verifier_step G wk wv v (TDelete t) = VerifyDeletion G wk wv v t"
| "verifier_step G wk wv v (TUpdate t) = UpdateVerify G wk wv v t"
| "verifier_step G wk wv v (TReadZero t) = go_bind (ReadZeroVerify G wk v t) (\<lambda>_. Ret v)"
| "verifier_step G wk wv v (TReadNonZero t) = go_bind (ReadNonZeroVerify G wk wv v t) (\<lambda>_. Ret v)"

text \<open>
  What an operation does to the bindings; an operation that is not possible (inserting a
  present key, reading an absent one) has no result.
\<close>

definition has_key :: "('h \<times> 'd) set \<Rightarrow> 'h \<Rightarrow> bool" where
  "has_key B h \<longleftrightarrow> h \<in> fst ` B"

definition spec_step ::
  "'e gnark \<Rightarrow> ('k \<Rightarrow> writes) \<Rightarrow> ('v \<Rightarrow> writes) \<Rightarrow> ('e octuplet \<times> 'e octuplet) set \<Rightarrow> ('k, 'v) operation
    \<Rightarrow> ('e octuplet \<times> 'e octuplet) set option" where
  "spec_step G wk wv B x =
     (let h = hash G (wk (op_key x)); rest = {b \<in> B. fst b \<noteq> h} in
      case x of
        OInsert k v \<Rightarrow> if has_key B h then None else Some (insert (h, hash G (wv v)) B)
      | ODelete k \<Rightarrow> if has_key B h then Some rest else None
      | OUpdate k v \<Rightarrow> if has_key B h then Some (insert (h, hash G (wv v)) rest) else None
      | OReadZero k \<Rightarrow> if has_key B h then None else Some B
      | OReadNonZero k \<Rightarrow> if has_key B h then Some B else None)"

fun verifier_run ::
  "'e gnark \<Rightarrow> ('k \<Rightarrow> writes) \<Rightarrow> ('v \<Rightarrow> writes) \<Rightarrow> 'e VerifierState \<Rightarrow> ('e, 'k, 'v) Trace list \<Rightarrow> 'e VerifierState go" where
  "verifier_run G wk wv v [] = Ret v"
| "verifier_run G wk wv v (t # ts) = go_bind (verifier_step G wk wv v t) (\<lambda>v'. verifier_run G wk wv v' ts)"

fun spec_run ::
  "'e gnark \<Rightarrow> ('k \<Rightarrow> writes) \<Rightarrow> ('v \<Rightarrow> writes) \<Rightarrow> ('e octuplet \<times> 'e octuplet) set \<Rightarrow> ('k, 'v) operation list
    \<Rightarrow> ('e octuplet \<times> 'e octuplet) set option" where
  "spec_run G wk wv B [] = Some B"
| "spec_run G wk wv B (x # xs) = Option.bind (spec_step G wk wv B x) (\<lambda>B'. spec_run G wk wv B' xs)"

text \<open>The keys of the head and of the tail are reserved: no operation may use a key that hashes to them.\<close>

definition inner_key :: "'e gnark \<Rightarrow> ('k \<Rightarrow> writes) \<Rightarrow> 'k \<Rightarrow> bool" where
  "inner_key G wk k \<longleftrightarrow> hash G (wk k) \<noteq> oct_zero G \<and> hash G (wk k) \<noteq> MaxKoalaOctuplet G"

text \<open>
  \<open>session p0 xs ts p\<close>: the prover initialised as \<open>p0\<close> executed the operations \<open>xs\<close>, produced the
  traces \<open>ts\<close> and is now in the state \<open>p\<close>. A step has no condition besides the reserved keys: the
  call returns.
\<close>

inductive session ::
  "'e gnark \<Rightarrow> ('k \<Rightarrow> writes) \<Rightarrow> ('v \<Rightarrow> writes) \<Rightarrow> ('e, 'k, 'v) ProverState \<Rightarrow> ('k, 'v) operation list
    \<Rightarrow> ('e, 'k, 'v) Trace list \<Rightarrow> ('e, 'k, 'v) ProverState \<Rightarrow> bool"
  for G wk wv where
  start: "InitializeProverState G zk zv loc = Ret p \<Longrightarrow> session G wk wv p [] [] p"
| step: "session G wk wv p0 xs ts p \<Longrightarrow> inner_key G wk (op_key x) \<Longrightarrow> go_order o1 \<Longrightarrow> go_order o2 \<Longrightarrow>
    prover_step G wk wv o1 o2 p x = Ret (p', t) \<Longrightarrow> session G wk wv p0 (xs @ [x]) (ts @ [t]) p'"

lemma verifier_run_snoc:
  "verifier_run G wk wv v ts = Ret w \<Longrightarrow> verifier_run G wk wv v (ts @ [t]) = verifier_step G wk wv w t"
proof (induction ts arbitrary: v)
  case Nil
  then show ?case by (cases "verifier_step G wk wv w t") simp_all
qed (auto simp: go_simps)

lemma spec_run_snoc:
  "spec_run G wk wv B xs = Some B' \<Longrightarrow> spec_run G wk wv B (xs @ [x]) = spec_step G wk wv B' x"
  by (induction xs arbitrary: B) (auto simp: bind_eq_Some_conv)

lemma bindings_iff: "b \<in> bindings op \<longleftrightarrow> (\<exists>i l. op i = Some l \<and> i \<noteq> 0 \<and> i \<noteq> 1 \<and> b = (HKey l, HVal l))"
proof
  assume "b \<in> bindings op"
  then obtain i where "i \<in> dom op - {0, 1}" "b = (HKey (the (op i)), HVal (the (op i)))"
    unfolding bindings_def by blast
  then show "\<exists>i l. op i = Some l \<and> i \<noteq> 0 \<and> i \<noteq> 1 \<and> b = (HKey l, HVal l)" by force
next
  assume "\<exists>i l. op i = Some l \<and> i \<noteq> 0 \<and> i \<noteq> 1 \<and> b = (HKey l, HVal l)"
  then obtain i l where "op i = Some l" "i \<noteq> 0" "i \<noteq> 1" "b = (HKey l, HVal l)" by blast
  then show "b \<in> bindings op" unfolding bindings_def by (intro image_eqI [of _ _ i]) auto
qed

text \<open>Writing to the tree keeps its depth, and a write that returns is in range.\<close>

lemma updateNode_depth: "updateNode G t l i v = Ret t' \<Longrightarrow> Depth t' = Depth t"
  by (auto simp: updateNode_def reserveLevel_def go_simps Let_def split: if_splits)

lemma update_loop_depth: "update_loop G n l i v t = Ret (t', j, c) \<Longrightarrow> Depth t' = Depth t"
  by (induction n arbitrary: l i v t) (auto simp: go_simps Let_def dest!: updateNode_depth split: if_splits)

lemma Update_depth: "Update G t i v = Ret t' \<Longrightarrow> Depth t' = Depth t" "Update G t i v = Ret t' \<Longrightarrow> i < shl1 (Depth t)"
  by (auto simp: Update_def go_simps dest: update_loop_depth split: if_splits)

lemma upsertTuple_depth:
  "upsertTuple G wk wv p i u = Ret (p', pf) \<Longrightarrow> Depth (ps_Tree p') = Depth (ps_Tree p)"
  "upsertTuple G wk wv p i u = Ret r \<Longrightarrow> i < shl1 (Depth (ps_Tree p))"
  by (auto simp: upsertTuple_def go_simps Let_def dest: Update_depth split: go.splits)

context felt
begin

lemma has_key_iff:
  assumes wl: "well_linked G op" and h: "h \<noteq> oct_zero G" "h \<noteq> MaxKoalaOctuplet G"
  shows "has_key (bindings op) h \<longleftrightarrow> (\<exists>i l. op i = Some l \<and> HKey l = h)"
proof
  assume "\<exists>i l. op i = Some l \<and> HKey l = h"
  then obtain i l where l: "op i = Some l" "HKey l = h" by blast
  then have "i \<noteq> 0" "i \<noteq> 1" using wl_not_HeadOrTail [OF wl l(1)] h by (auto simp: HeadOrTail_iff)
  then have "(HKey l, HVal l) \<in> bindings op" using l bindings_iff by blast
  then show "has_key (bindings op) h" using l(2) unfolding has_key_def by (metis fst_conv image_eqI)
next
  assume "has_key (bindings op) h"
  then obtain b where "b \<in> bindings op" "fst b = h" unfolding has_key_def by blast
  then obtain i l where "op i = Some l" "HKey l = h" unfolding bindings_iff by (metis fst_conv)
  then show "\<exists>i l. op i = Some l \<and> HKey l = h" by blast
qed

lemma bindings_rest:
  assumes wl: "well_linked G op" and l: "op i = Some l" "i \<noteq> 0" "i \<noteq> 1"
  shows "{b \<in> bindings op. fst b \<noteq> HKey l} = bindings op - {(HKey l, HVal l)}"
proof -
  have "fst b \<noteq> HKey l \<longleftrightarrow> b \<noteq> (HKey l, HVal l)" if b: "b \<in> bindings op" for b
  proof -
    obtain j l' where j: "op j = Some l'" "b = (HKey l', HVal l')" using b unfolding bindings_iff by blast
    have "l' = l" if "HKey l' = HKey l"
    proof -
      have "j = i" using wl l(1) j(1) that unfolding well_linked_def by (metis domI hk_Some inj_onD)
      then show ?thesis using j(1) l(1) by simp
    qed
    then show ?thesis unfolding j(2) by (metis fst_conv)
  qed
  then show ?thesis by blast
qed

text \<open>An operation that returns is one that the abstract map allows, and an insertion has room.\<close>

lemma prover_step_allowed:
  assumes inv: "acc_inv G wk wv p" and h: "hash G (wk (op_key x)) \<noteq> oct_zero G" "hash G (wk (op_key x)) \<noteq> MaxKoalaOctuplet G"
    and ord: "go_order o1" "go_order o2" and ret: "prover_step G wk wv o1 o2 p x = Ret (p', t)"
  shows "\<exists>B'. spec_step G wk wv (bindings (links_of p)) x = Some B'"
proof -
  let ?h = "hash G (wk (op_key x))"
  have key: "has_key (bindings (links_of p)) ?h \<longleftrightarrow> (\<exists>i l. links_of p i = Some l \<and> HKey l = ?h)"
    by (rule has_key_iff [OF acc_invD(2) [OF inv] h])
  obtain i b where fk: "FindKey G wk o1 p (op_key x) = Ret (i, b)" "b \<longleftrightarrow> has_key (bindings (links_of p)) ?h"
    using FindKey_spec [OF ord(1), of G wk p "op_key x"] key by blast
  show ?thesis
    using ret fk by (cases x) (auto simp: spec_step_def Let_def InsertAndProve_def DeleteAndProve_def UpdateAndProve_def
        ReadZeroAndProve_def ReadNonZeroAndProve_def split: if_splits)
qed

lemma prover_step_room:
  assumes inv: "acc_inv G wk wv p" and ret: "prover_step G wk wv o1 o2 p x = Ret (p', t)" and x: "\<exists>k v. x = OInsert k v"
  shows "ps_NextFreeNode p < 2 ^ DefaultDepth"
proof -
  let ?n = "ps_NextFreeNode p"
  from ret x obtain k v t' where "InsertAndProve G wk wv o1 o2 p k v = Ret (p', t')" by (auto simp: go_simps)
  then have "\<exists>i u p1 pf w r. upsertTuple G wk wv p i u = Ret (p1, pf) \<and> upsertTuple G wk wv p1 ?n w = Ret r"
    by (auto simp: InsertAndProve_def go_simps Let_def split: if_splits) blast
  then obtain i u p1 pf w r where u: "upsertTuple G wk wv p i u = Ret (p1, pf)"
    and n: "upsertTuple G wk wv p1 ?n w = Ret r" by blast
  have "?n < shl1 (Depth (ps_Tree p1))" by (rule upsertTuple_depth(2) [OF n])
  moreover have "Depth (ps_Tree p1) = Depth (ps_Tree p)" by (rule upsertTuple_depth(1) [OF u])
  moreover have "Depth (ps_Tree p) = DefaultDepth" using acc_invD(1) [OF inv] by (simp add: acc_ok_def)
  ultimately show ?thesis by (simp add: shl1_small DefaultDepth_def)
qed

text \<open>One step of the prover from a well-formed state simulates the abstract operation.\<close>

lemma step_complete:
  assumes inv: "acc_inv G wk wv p" and room: "\<exists>k v. x = OInsert k v \<Longrightarrow> ps_NextFreeNode p < 2 ^ DefaultDepth"
    and h: "hash G (wk (op_key x)) \<noteq> oct_zero G" "hash G (wk (op_key x)) \<noteq> MaxKoalaOctuplet G"
    and ord: "go_order o1" "go_order o2"
    and sp: "spec_step G wk wv (bindings (links_of p)) x = Some B'"
  shows "ret_or (\<lambda>(p', t). acc_inv G wk wv p' \<and> bindings (links_of p') = B'
      \<and> trace_wf t \<and> verifier_step G wk wv (VerifierState_of p) t = Ret (VerifierState_of p')) (zero_panics G)
    (prover_step G wk wv o1 o2 p x)"
proof -
  let ?op = "links_of p" and ?h = "hash G (wk (op_key x))"
  note wl = acc_invD(2) [OF inv]
  note key = has_key_iff [OF wl h]
  have absent: "\<forall>i l. ?op i = Some l \<longrightarrow> HKey l \<noteq> ?h" if "\<not> has_key (bindings ?op) ?h" using that key by blast
  have present: "\<exists>i l. ?op i = Some l \<and> i \<noteq> 0 \<and> i \<noteq> 1 \<and> HKey l = ?h" if "has_key (bindings ?op) ?h"
    using that key wl_not_HeadOrTail [OF wl] h by (metis HeadOrTail_iff)
  show ?thesis
  proof (cases x)
    case (OInsert k v)
    then have a: "\<not> has_key (bindings ?op) ?h" "B' = insert (?h, hash G (wv v)) (bindings ?op)"
      using sp by (auto simp: spec_step_def Let_def split: if_splits)
    have "\<forall>i l. ?op i = Some l \<longrightarrow> HKey l \<noteq> hash G (wk k)" using absent [OF a(1)] OInsert by simp
    from insert_complete [where key = k and val = v, OF inv ord _ this] room OInsert
    have "ret_or (\<lambda>(p', trace). acc_inv G wk wv p' \<and> bindings (links_of p') = B' \<and> trace_wf (TInsert trace)
        \<and> VerifyInsertion G wk wv (VerifierState_of p) trace = Ret (VerifierState_of p', None))
      (zero_panics G) (InsertAndProve G wk wv o1 o2 p k v)" by (simp add: a)
    then show ?thesis
      unfolding OInsert prover_step.simps by (rule ret_or_bind2) auto
  next
    case (ODelete k)
    then obtain i l where l: "?op i = Some l" "i \<noteq> 0" "i \<noteq> 1" "HKey l = hash G (wk k)"
      and B: "B' = {b \<in> bindings ?op. fst b \<noteq> hash G (wk k)}"
      using sp present by (auto simp: spec_step_def Let_def split: if_splits)
    then have B': "B' = bindings ?op - {(HKey l, HVal l)}" using bindings_rest [OF wl l(1-3)] by simp
    from delete_complete [where key = k, OF inv ord(1) l] show ?thesis
      unfolding ODelete prover_step.simps by (rule ret_or_bind2) (simp add: B')
  next
    case (OUpdate k v)
    then obtain i l where l: "?op i = Some l" "i \<noteq> 0" "i \<noteq> 1" "HKey l = hash G (wk k)"
      and B: "B' = insert (hash G (wk k), hash G (wv v)) {b \<in> bindings ?op. fst b \<noteq> hash G (wk k)}"
      using sp present by (auto simp: spec_step_def Let_def split: if_splits)
    then have B': "B' = insert (HKey l, hash G (wv v)) (bindings ?op - {(HKey l, HVal l)})"
      using bindings_rest [OF wl l(1-3)] by simp
    from update_complete [where key = k and val = v, OF inv ord(1) l] show ?thesis
      unfolding OUpdate prover_step.simps by (rule ret_or_bind2) (simp add: B')
  next
    case (OReadZero k)
    then have a: "\<not> has_key (bindings ?op) ?h" "B' = bindings ?op"
      using sp by (auto simp: spec_step_def Let_def split: if_splits)
    have "\<forall>i l. ?op i = Some l \<longrightarrow> HKey l \<noteq> hash G (wk k)" using absent [OF a(1)] OReadZero by simp
    from read_zero_complete [where key = k, OF inv ord this] show ?thesis
      unfolding OReadZero prover_step.simps by (rule ret_or_bind) (use a inv in auto)
  next
    case (OReadNonZero k)
    then obtain i l where l: "?op i = Some l" "i \<noteq> 0" "i \<noteq> 1" "HKey l = hash G (wk k)" and B: "B' = bindings ?op"
      using sp present by (auto simp: spec_step_def Let_def split: if_splits)
    from read_nonzero_complete [where key = k, OF inv ord(1) l] show ?thesis
      unfolding OReadNonZero prover_step.simps by (rule ret_or_bind) (use B inv in auto)
  qed
qed

lemma session_inv:
  assumes "session G wk wv p0 xs ts p"
  shows "acc_inv G wk wv p \<and> verifier_run G wk wv (VerifierState_of p0) ts = Ret (VerifierState_of p)
    \<and> spec_run G wk wv {} xs = Some (bindings (links_of p))"
  using assms
proof (induction rule: session.induct)
  case (start zk zv loc p)
  then show ?case using init_complete [of wk wv loc zk zv] by simp
next
  case (step p0 xs ts p x o1 o2 p' t)
  then have inv: "acc_inv G wk wv p" and key: "hash G (wk (op_key x)) \<noteq> oct_zero G" "hash G (wk (op_key x)) \<noteq> MaxKoalaOctuplet G"
    by (auto simp: inner_key_def)
  obtain B' where B': "spec_step G wk wv (bindings (links_of p)) x = Some B'"
    using prover_step_allowed [OF inv key step(3-5)] by blast
  have "ret_or (\<lambda>(p', t). acc_inv G wk wv p' \<and> bindings (links_of p') = B'
      \<and> trace_wf t \<and> verifier_step G wk wv (VerifierState_of p) t = Ret (VerifierState_of p')) (zero_panics G)
    (prover_step G wk wv o1 o2 p x)"
    by (rule step_complete [OF inv _ key step(3,4) B']) (rule prover_step_room [OF inv step(5)])
  then show ?case using step B' by (auto simp: verifier_run_snoc spec_run_snoc simp del: verifier_run.simps spec_run.simps)
qed

end

end
