(* ===== verification/State_Traces.thy ===== *)
theory State_Traces
  imports Acc_Run
begin

text \<open>
  The state manager of the execution prover (\<^verbatim>\<open>backend/execution/statemanager\<close>): the traces
  that Shomei produced for a block are split by account, their pattern is inspected
  (\<^verbatim>\<open>access_pattern.go\<close>), the storage accesses of each account are verified against the storage
  roots of the account records, and the account accesses against the state root
  (\<^verbatim>\<open>proof_checks.go\<close>, \<^verbatim>\<open>inspection.go\<close>). \<^verbatim>\<open>worldstate.go\<close> builds the empty states.

  The decoding of a trace by reflection (\<^verbatim>\<open>json.Unmarshal\<close> of the five structs) is a parameter of
  \<open>UnmarshalJSON\<close>. Error messages keep their fixed text and leave the printed arguments out.
\<close>

section \<open>Types\<close>

text \<open>The \<^verbatim>\<open>WriteTo\<close> methods of the keys and values of the two tries.\<close>

definition address_writes :: "bytes \<Rightarrow> writes" where
  "address_writes a = (case EthAddress_WriteTo a of Ret w \<Rightarrow> [w] | _ \<Rightarrow> [])"

definition slot_writes :: "bytes \<Rightarrow> writes" where
  "slot_writes f = (case FullBytes32_WriteTo f of Ret w \<Rightarrow> [w] | _ \<Rightarrow> [])"

text \<open>
  \<^verbatim>\<open>WriteTo\<close> panics on a balance of more than 256 bits. The records the decoder produces are well
  formed, and for these the writes are those of \<open>writeTo\<close> (\<open>account_writes_ok\<close>).
\<close>

definition account_writes :: "'e gnark \<Rightarrow> 'e Account \<Rightarrow> writes" where
  "account_writes G a = (case writeTo G a False of Ret (ws, _) \<Rightarrow> ws | _ \<Rightarrow> [])"

lemma address_writes_ok: "length a = 20 \<Longrightarrow> \<exists>w. EthAddress_WriteTo a = Ret w \<and> address_writes a = [w]"
  by (simp add: address_writes_def EthAddress_WriteTo_def LeftPadded_def)

lemma slot_writes_ok: "length f = 32 \<Longrightarrow> \<exists>w. FullBytes32_WriteTo f = Ret w \<and> slot_writes f = [w]"
  by (simp add: slot_writes_def FullBytes32_WriteTo_def LeftPadded_def)

lemma account_writes_ok:
  assumes "felt G" "account_wf a"
  shows "\<exists>n. writeTo G a False = Ret (account_writes G a, n)"
  using felt.account_round_trip [OF assms(1,2), of a False] assms(2)
  by (auto simp: account_writes_def account_wf_def)

type_synonym 'e st_trace = "('e, bytes, bytes) Trace"
type_synonym 'e ws_trace = "('e, bytes, 'e Account) Trace"

text \<open>The dynamic type of an \<^verbatim>\<open>accumulator.Trace\<close>: storage, account, or a nil interface.\<close>

datatype 'e Underlying = NilTrace | ST "'e st_trace" | WS "'e ws_trace"

datatype trace_kind = KReadNonZero | KReadZero | KInsertion | KUpdate | KDeletion

datatype dyn_type = NilType | STType trace_kind | WSType trace_kind

fun kind_of :: "('e, 'k, 'v) Trace \<Rightarrow> trace_kind" where
  "kind_of (TInsert _) = KInsertion"
| "kind_of (TDelete _) = KDeletion"
| "kind_of (TUpdate _) = KUpdate"
| "kind_of (TReadZero _) = KReadZero"
| "kind_of (TReadNonZero _) = KReadNonZero"

fun dyn_type_of :: "'e Underlying \<Rightarrow> dyn_type" where
  "dyn_type_of NilTrace = NilType"
| "dyn_type_of (ST t) = STType (kind_of t)"
| "dyn_type_of (WS t) = WSType (kind_of t)"

fun type_code :: "trace_kind \<Rightarrow> int" where
  "type_code KReadNonZero = 0"
| "type_code KReadZero = 1"
| "type_code KInsertion = 2"
| "type_code KUpdate = 3"
| "type_code KDeletion = 4"

record 'e DecodedTrace =
  dec_Location :: string
  dec_Type :: int
  dec_Underlying :: "'e Underlying"
  dec_IsSkipped :: bool

abbreviation dtype :: "'e DecodedTrace \<Rightarrow> dyn_type" where
  "dtype t \<equiv> dyn_type_of (dec_Underlying t)"

definition WS_LOCATION :: string where
  "WS_LOCATION = ''0x''"

definition isWorldState :: "'e DecodedTrace \<Rightarrow> bool" where
  "isWorldState dec \<longleftrightarrow> dec_Location dec = WS_LOCATION"

text \<open>The reflection-driven decoders of the five trace structs, for one key and value type.\<close>

record ('e, 'k, 'v) trace_decoders =
  json_ReadNonZero :: "string \<Rightarrow> ('e, 'k, 'v) ReadNonZeroTrace go"
  json_ReadZero :: "string \<Rightarrow> ('e, 'k) ReadZeroTrace go"
  json_Insertion :: "string \<Rightarrow> ('e, 'k, 'v) InsertionTrace go"
  json_Update :: "string \<Rightarrow> ('e, 'k, 'v) UpdateTrace go"
  json_Deletion :: "string \<Rightarrow> ('e, 'k, 'v) DeletionTrace go"

text \<open>The receiver \<open>dec\<close> is returned updated; \<open>proto\<close> decodes the location and the type.\<close>

definition UnmarshalJSON ::
  "(string \<Rightarrow> (string \<times> int) go) \<Rightarrow> ('e, bytes, bytes) trace_decoders \<Rightarrow> ('e, bytes, 'e Account) trace_decoders
    \<Rightarrow> 'e DecodedTrace \<Rightarrow> string \<Rightarrow> 'e DecodedTrace go" where
  "UnmarshalJSON proto jst jws dec data =
     (if data = ''null'' then Ret dec
      else
      go_bind (proto data) (\<lambda>(location, type).
      let dec = dec\<lparr>dec_Location := location, dec_Type := type\<rparr>; isWorldState = (location = ''0x'') in
      if length location = 0 then Err ''key location is missing''
      else if type = 0 \<and> \<not> isWorldState then go_bind (json_ReadNonZero jst data) (\<lambda>t. Ret (dec\<lparr>dec_Underlying := ST (TReadNonZero t)\<rparr>))
      else if type = 1 \<and> \<not> isWorldState then go_bind (json_ReadZero jst data) (\<lambda>t. Ret (dec\<lparr>dec_Underlying := ST (TReadZero t)\<rparr>))
      else if type = 2 \<and> \<not> isWorldState then go_bind (json_Insertion jst data) (\<lambda>t. Ret (dec\<lparr>dec_Underlying := ST (TInsert t)\<rparr>))
      else if type = 3 \<and> \<not> isWorldState then go_bind (json_Update jst data) (\<lambda>t. Ret (dec\<lparr>dec_Underlying := ST (TUpdate t)\<rparr>))
      else if type = 4 \<and> \<not> isWorldState then go_bind (json_Deletion jst data) (\<lambda>t. Ret (dec\<lparr>dec_Underlying := ST (TDelete t)\<rparr>))
      else if type = 0 \<and> isWorldState then go_bind (json_ReadNonZero jws data) (\<lambda>t. Ret (dec\<lparr>dec_Underlying := WS (TReadNonZero t)\<rparr>))
      else if type = 1 \<and> isWorldState then go_bind (json_ReadZero jws data) (\<lambda>t. Ret (dec\<lparr>dec_Underlying := WS (TReadZero t)\<rparr>))
      else if type = 2 \<and> isWorldState then go_bind (json_Insertion jws data) (\<lambda>t. Ret (dec\<lparr>dec_Underlying := WS (TInsert t)\<rparr>))
      else if type = 3 \<and> isWorldState then go_bind (json_Update jws data) (\<lambda>t. Ret (dec\<lparr>dec_Underlying := WS (TUpdate t)\<rparr>))
      else if type = 4 \<and> isWorldState then go_bind (json_Deletion jws data) (\<lambda>t. Ret (dec\<lparr>dec_Underlying := WS (TDelete t)\<rparr>))
      else Err ''traces does not map to any known state trace''))"

section \<open>Keys of a trace\<close>

fun trace_key :: "('e, 'k, 'v) Trace \<Rightarrow> 'k" where
  "trace_key (TInsert t) = it_Key t"
| "trace_key (TDelete t) = dt_Key t"
| "trace_key (TUpdate t) = ut_Key t"
| "trace_key (TReadZero t) = rz_Key t"
| "trace_key (TReadNonZero t) = rn_Key t"

definition GetRelatedAccount :: "'e DecodedTrace \<Rightarrow> bytes go" where
  "GetRelatedAccount trace =
     (case dec_Underlying trace of
        ST _ \<Rightarrow> AddressFromHex (dec_Location trace)
      | WS u \<Rightarrow> Ret (trace_key u)
      | NilTrace \<Rightarrow> Panic ''unknown underlying type'')"

text \<open>The interface calls \<^verbatim>\<open>Underlying.HKey()\<close> and \<^verbatim>\<open>Underlying.RWInt()\<close>.\<close>

fun Underlying_HKey :: "'e gnark \<Rightarrow> 'e Underlying \<Rightarrow> 'e octuplet go" where
  "Underlying_HKey G NilTrace = Panic ''nil pointer dereference''"
| "Underlying_HKey G (ST t) = Ret (trace_HKey G slot_writes t)"
| "Underlying_HKey G (WS t) = Ret (trace_HKey G address_writes t)"

fun Underlying_RWInt :: "'e Underlying \<Rightarrow> int go" where
  "Underlying_RWInt NilTrace = Panic ''nil pointer dereference''"
| "Underlying_RWInt (ST t) = Ret (RWInt t)"
| "Underlying_RWInt (WS t) = Ret (RWInt t)"

section \<open>Errors as values\<close>

text \<open>\<^verbatim>\<open>errors.Join\<close>: nil when both are nil, the messages on separate lines otherwise.\<close>

fun errors_Join :: "string option \<Rightarrow> string option \<Rightarrow> string option" where
  "errors_Join None e = e"
| "errors_Join e None = e"
| "errors_Join (Some a) (Some b) = Some (a @ CHR 0x0A # b)"

fun error_value :: "unit go \<Rightarrow> string option go" where
  "error_value (Ret _) = Ret None"
| "error_value (Err e) = Ret (Some e)"
| "error_value (Panic m) = Panic m"

fun return_error :: "string option \<Rightarrow> unit go" where
  "return_error None = Ret ()"
| "return_error (Some e) = Err e"

end
