(* ===== verification/State_Patterns.thy ===== *)
theory State_Patterns
  imports State_Traces
begin

text \<open>
  The inspection of the accesses of one account (\<^verbatim>\<open>access_pattern.go\<close>). Each matcher gets the
  slice of the traces of the account; \<^verbatim>\<open>isAccRead\<close> rotates it in place, so it also returns the
  slice. An error stops the inspection, a mismatch goes on to the next matcher.
\<close>

section \<open>The order of the storage accesses\<close>

text \<open>
  The loop \<^verbatim>\<open>for i := 0; i < len(traces)-2; i++\<close>: one iteration for each position with two
  successors.
\<close>

fun order_loop :: "'e gnark \<Rightarrow> 'e DecodedTrace list \<Rightarrow> string option \<Rightarrow> string option go" where
  "order_loop G (cur # nxt # third # rest) err =
     go_bind (Underlying_RWInt (dec_Underlying cur)) (\<lambda>currRW.
     go_bind (Underlying_RWInt (dec_Underlying nxt)) (\<lambda>nextRW.
     go_bind (Underlying_HKey G (dec_Underlying cur)) (\<lambda>currHKey.
     go_bind (Underlying_HKey G (dec_Underlying nxt)) (\<lambda>nextHKey.
       let err = (if currRW > nextRW then errors_Join err (Some ''trace is a write but followed by a read'') else err)
       in if currRW = nextRW \<and> Cmp G currHKey nextHKey \<ge> 0 then Panic ''boom''
          else order_loop G (nxt # third # rest) err))))"
| "order_loop G _ err = Ret err"

definition checkStorageTraceOrder :: "'e gnark \<Rightarrow> 'e DecodedTrace list \<Rightarrow> unit go" where
  "checkStorageTraceOrder G traces = go_bind (order_loop G traces None) return_error"

text \<open>
  The type switches of the matchers. The error of a type that is not listed is joined under
  \<^verbatim>\<open>if err != nil\<close>.
\<close>

definition whitelist :: "dyn_type set \<Rightarrow> string \<Rightarrow> 'e DecodedTrace \<Rightarrow> string option \<Rightarrow> string option" where
  "whitelist allowed msg trace err =
     (if dtype trace \<in> allowed then err
      else if err \<noteq> None then errors_Join err (Some msg) else err)"

text \<open>The same switch where the source overwrites the error.\<close>

definition whitelist_set :: "dyn_type set \<Rightarrow> string \<Rightarrow> 'e DecodedTrace \<Rightarrow> string option \<Rightarrow> string option" where
  "whitelist_set allowed msg trace err =
     (if dtype trace \<in> allowed then err else if err \<noteq> None then Some msg else err)"

section \<open>The matchers\<close>

definition isMissingAccRead :: "'e DecodedTrace list \<Rightarrow> bool go" where
  "isMissingAccRead traces =
     (case traces of
        [] \<Rightarrow> Panic ''index out of range''
      | first # _ \<Rightarrow>
          if dtype first = WSType KReadZero \<and> length traces = 1 then Ret True
          else if list_ex (\<lambda>t. dtype t = WSType KReadZero) traces
          then Err ''found read zero in a trace whose length is larger than 1''
          else Ret False)"

text \<open>\<open>None\<close>: another account access was found, and the matcher returns false.\<close>

fun creation_loop :: "'e DecodedTrace list \<Rightarrow> string option \<Rightarrow> string option option" where
  "creation_loop [] err = Some err"
| "creation_loop (trace # rest) err =
     (if isWorldState trace then None
      else creation_loop rest (whitelist {STType KReadZero, STType KInsertion}
             ''invalid trace : found in an insertion trace'' trace err))"

definition isAccCreation :: "'e gnark \<Rightarrow> 'e DecodedTrace list \<Rightarrow> bool go" where
  "isAccCreation G traces =
     (if traces = [] then Panic ''index out of range''
      else if dtype (last traces) \<noteq> WSType KInsertion then Ret False
      else if length traces = 1 then Ret True
      else case creation_loop (butlast traces) None of
             None \<Rightarrow> Ret False
           | Some err \<Rightarrow>
               go_bind (return_error err) (\<lambda>_.
               go_bind (on_err ''in account-creation segment'' (checkStorageTraceOrder G (butlast traces))) (\<lambda>_.
                 Ret True)))"

fun deletion_loop :: "'e DecodedTrace list \<Rightarrow> string option \<Rightarrow> string option go" where
  "deletion_loop [] err = Ret err"
| "deletion_loop (trace # rest) err =
     (if isWorldState trace then Err ''invalid deletion preceded by another trace''
      else deletion_loop rest (whitelist_set {STType KReadNonZero, STType KReadZero}
             ''invalid trace : found in an deletion trace'' trace err))"

definition isAccDeletion :: "'e gnark \<Rightarrow> 'e DecodedTrace list \<Rightarrow> bool go" where
  "isAccDeletion G traces =
     (if traces = [] then Panic ''index out of range''
      else if dtype (last traces) \<noteq> WSType KDeletion then Ret False
      else if length traces = 1 then Ret True
      else
      go_bind (deletion_loop (butlast traces) None) (\<lambda>err.
      go_bind (return_error err) (\<lambda>_.
      go_bind (on_err ''in account-deletion segment'' (checkStorageTraceOrder G (butlast traces))) (\<lambda>_.
        Ret True))))"

definition isAccUpdate :: "'e gnark \<Rightarrow> 'e DecodedTrace list \<Rightarrow> bool go" where
  "isAccUpdate G traces =
     (if traces = [] then Panic ''index out of range''
      else if dtype (last traces) \<noteq> WSType KUpdate then Ret False
      else if length traces = 1 then Ret True
      else if list_ex isWorldState (butlast traces) then Err ''invalid update preceded by another trace''
      else
      go_bind (on_err ''in account-update segment'' (checkStorageTraceOrder G (butlast traces))) (\<lambda>_.
        Ret True))"

text \<open>\<open>read_loop okFirst okLast n i traces err\<close>: \<open>n\<close> is the length of the slice, \<open>i\<close> the index of the head.\<close>

fun read_loop :: "bool \<Rightarrow> bool \<Rightarrow> nat \<Rightarrow> nat \<Rightarrow> 'e DecodedTrace list \<Rightarrow> string option \<Rightarrow> string option go" where
  "read_loop okFirst okLast n i [] err = Ret err"
| "read_loop okFirst okLast n i (trace # rest) err =
     (if i = 0 \<and> okFirst \<or> i = n - 1 \<and> okLast then read_loop okFirst okLast n (Suc i) rest err
      else if isWorldState trace then Err ''invalid read preceded by another trace''
      else read_loop okFirst okLast n (Suc i) rest (whitelist_set {STType KReadNonZero, STType KReadZero}
             ''invalid trace : found in an account read trace'' trace err))"

definition isAccRead :: "'e gnark \<Rightarrow> 'e DecodedTrace list \<Rightarrow> (bool \<times> 'e DecodedTrace list) go" where
  "isAccRead G traces =
     (if traces = [] then Panic ''index out of range''
      else
      let okFirst = (dtype (hd traces) = WSType KReadNonZero); okLast = (dtype (last traces) = WSType KReadNonZero) in
      if \<not> okFirst \<and> \<not> okLast then Ret (False, traces)
      else if okFirst \<and> okLast \<and> length traces > 1 then Err ''the segment contains two ACCOUNT_READ''
      else if length traces = 1 then Ret (True, traces)
      else
      go_bind (read_loop okFirst okLast (length traces) 0 traces None) (\<lambda>err.
      go_bind (return_error err) (\<lambda>_.
      let traces = (if okFirst \<and> length traces > 1 then tl traces @ [hd traces] else traces) in
      go_bind (on_err ''in acc-read segment'' (checkStorageTraceOrder G (butlast traces))) (\<lambda>_.
        Ret (True, traces)))))"

fun redeploy_loop ::
  "nat \<Rightarrow> 'e DecodedTrace list \<Rightarrow> bool \<Rightarrow> nat \<Rightarrow> string option \<Rightarrow> (bool \<times> nat \<times> string option) go" where
  "redeploy_loop i [] foundDeletion posDeletion err = Ret (foundDeletion, posDeletion, err)"
| "redeploy_loop i (trace # rest) foundDeletion posDeletion err =
     (let isDeletion = (dtype trace = WSType KDeletion) in
      if isDeletion \<and> foundDeletion then Err ''found more than two deletion''
      else if isDeletion then redeploy_loop (Suc i) rest True i err
      else if isWorldState trace then Err ''found in a trace ending with an insertion''
      else redeploy_loop (Suc i) rest foundDeletion posDeletion
             (whitelist (if foundDeletion then {STType KReadZero, STType KInsertion} else {STType KReadZero, STType KReadNonZero})
                ''invalid trace : found in an deletion trace'' trace err))"

definition isAccRedeploy :: "'e gnark \<Rightarrow> 'e DecodedTrace list \<Rightarrow> bool go" where
  "isAccRedeploy G traces =
     (if traces = [] then Panic ''index out of range''
      else if dtype (last traces) \<noteq> WSType KInsertion then Ret False
      else if length traces = 1 then Ret False
      else
      go_bind (redeploy_loop 0 (butlast traces) False 0 None) (\<lambda>(_, posDeletion, err).
      go_bind (return_error err) (\<lambda>_.
      go_bind (error_value (checkStorageTraceOrder G (take posDeletion traces))) (\<lambda>e1.
      go_bind (error_value (checkStorageTraceOrder G (drop (posDeletion + 1) (butlast traces)))) (\<lambda>e2.
      go_bind (on_err ''in redeploy acc segment'' (return_error (errors_Join e1 e2))) (\<lambda>_.
        Ret True))))))"

definition keep_slice :: "('e DecodedTrace list \<Rightarrow> bool go) \<Rightarrow> 'e DecodedTrace list \<Rightarrow> (bool \<times> 'e DecodedTrace list) go" where
  "keep_slice m traces = go_bind (m traces) (\<lambda>ok. Ret (ok, traces))"

fun match_loop ::
  "('e DecodedTrace list \<Rightarrow> (bool \<times> 'e DecodedTrace list) go) list \<Rightarrow> 'e DecodedTrace list \<Rightarrow> 'e DecodedTrace list go" where
  "match_loop [] traces = Err ''no match found''"
| "match_loop (m # ms) traces =
     go_bind (m traces) (\<lambda>(ok, traces). if ok then Ret traces else match_loop ms traces)"

text \<open>The slice as the matchers leave it.\<close>

definition inspectPattern :: "'e gnark \<Rightarrow> 'e DecodedTrace list \<Rightarrow> 'e DecodedTrace list go" where
  "inspectPattern G traces = match_loop
     [keep_slice isMissingAccRead, keep_slice (isAccCreation G), keep_slice (isAccDeletion G), isAccRead G,
      keep_slice (isAccUpdate G), keep_slice (isAccRedeploy G)] traces"

section \<open>What an inspected segment looks like\<close>

text \<open>The whitelists never report: the error they would extend is nil.\<close>

lemma whitelist_None [simp]: "whitelist A m t None = None" "whitelist_set A m t None = None"
  by (simp_all add: whitelist_def whitelist_set_def)

lemma creation_loop_iff:
  "creation_loop ts None = (if list_ex isWorldState ts then None else Some None)"
  by (induction ts) auto

lemma deletion_loop_iff:
  "deletion_loop ts None = (if list_ex isWorldState ts then Err ''invalid deletion preceded by another trace'' else Ret None)"
  by (induction ts) auto

definition no_ws :: "'e DecodedTrace list \<Rightarrow> bool" where
  "no_ws ts \<longleftrightarrow> \<not> list_ex isWorldState ts"

lemma no_ws_simps [simp]:
  "no_ws []" "no_ws (t # ts) \<longleftrightarrow> \<not> isWorldState t \<and> no_ws ts" "no_ws (xs @ ys) \<longleftrightarrow> no_ws xs \<and> no_ws ys"
  by (auto simp: no_ws_def)

lemma read_loop_mid:
  "0 < i \<Longrightarrow> read_loop okF False n i ts None = Ret err \<Longrightarrow> err = None \<and> no_ws ts"
  by (induction ts arbitrary: i) (auto split: if_splits)

lemma read_loop_last:
  "Suc i + length xs = n \<Longrightarrow> 0 < i \<Longrightarrow> read_loop okF True n i (xs @ [w]) None = Ret err \<Longrightarrow> err = None \<and> no_ws xs"
  by (induction xs arbitrary: i) (auto split: if_splits)

lemma redeploy_loop_found:
  "redeploy_loop i ts True p None = Ret (f, p', err) \<Longrightarrow> err = None \<and> f \<and> p' = p \<and> no_ws ts"
  by (induction ts arbitrary: i) (auto simp: Let_def split: if_splits)

lemma redeploy_loop_shape:
  "redeploy_loop i ts False p None = Ret (f, p', err) \<Longrightarrow> err = None \<and>
     (f \<and> (\<exists>xs d ys. ts = xs @ d # ys \<and> p' = i + length xs \<and> dtype d = WSType KDeletion \<and> no_ws xs \<and> no_ws ys)
      \<or> \<not> f \<and> p' = p \<and> no_ws ts)"
proof (induction ts arbitrary: i)
  case (Cons t ts)
  show ?case
  proof (cases "dtype t = WSType KDeletion")
    case True
    with Cons.prems have "redeploy_loop (Suc i) ts True i None = Ret (f, p', err)" by simp
    from redeploy_loop_found [OF this] True show ?thesis by (intro conjI disjI1 exI [of _ "[]"]) auto
  next
    case False
    with Cons.prems have w: "\<not> isWorldState t" and r: "redeploy_loop (Suc i) ts False p None = Ret (f, p', err)"
      by (auto split: if_splits)
    from Cons.IH [OF r] show ?thesis
    proof (elim conjE disjE exE)
      fix xs d ys
      assume "ts = xs @ d # ys" "p' = Suc i + length xs" "dtype d = WSType KDeletion" "no_ws xs" "no_ws ys" "f" "err = None"
      with w show ?thesis by (intro conjI disjI1 exI [of _ "t # xs"] exI [of _ d] exI [of _ ys]) simp_all
    qed (use w in auto)
  qed
qed simp

lemma return_error_Ret [simp]: "return_error e = Ret u \<longleftrightarrow> e = None"
  by (cases e) auto

lemma isAccCreation_accept:
  "isAccCreation G ts = Ret True \<Longrightarrow> ts \<noteq> [] \<and> dtype (last ts) = WSType KInsertion \<and> no_ws (butlast ts)"
  by (cases ts rule: rev_cases)
    (auto simp: isAccCreation_def creation_loop_iff no_ws_def split: if_splits)

lemma isAccDeletion_accept:
  "isAccDeletion G ts = Ret True \<Longrightarrow> ts \<noteq> [] \<and> dtype (last ts) = WSType KDeletion \<and> no_ws (butlast ts)"
  by (cases ts rule: rev_cases)
    (auto simp: isAccDeletion_def deletion_loop_iff no_ws_def split: if_splits)

lemma isAccUpdate_accept:
  "isAccUpdate G ts = Ret True \<Longrightarrow> ts \<noteq> [] \<and> dtype (last ts) = WSType KUpdate \<and> no_ws (butlast ts)"
  by (cases ts rule: rev_cases) (auto simp: isAccUpdate_def no_ws_def split: if_splits)

lemma isMissingAccRead_accept:
  "isMissingAccRead ts = Ret True \<Longrightarrow> \<exists>t. ts = [t] \<and> dtype t = WSType KReadZero"
  by (auto simp: isMissingAccRead_def split: if_splits list.splits)

lemma isAccRead_cases:
  assumes "isAccRead G ts = Ret (True, ts')" and "length ts \<noteq> 1"
    and f: "f = (dtype (hd ts) = WSType KReadNonZero)" and l: "l = (dtype (last ts) = WSType KReadNonZero)"
  shows "ts \<noteq> [] \<and> (f \<or> l) \<and> \<not> (f \<and> l) \<and> read_loop f l (length ts) 0 ts None = Ret None
    \<and> ts' = (if f then rotate1 ts else ts)"
proof (cases "ts = []")
  case False
  then have n: "Suc 0 < length ts" and rot: "rotate1 ts = tl ts @ [hd ts]" using assms(2) by (cases ts; simp)+
  show ?thesis
    using assms(1,2) n False unfolding isAccRead_def Let_def f [symmetric] l [symmetric]
    by (auto simp: go_simps rot split: if_splits)
qed (use assms in \<open>simp add: isAccRead_def\<close>)

lemma isAccRead_accept:
  assumes "isAccRead G ts = Ret (True, ts')"
  shows "ts \<noteq> [] \<and> (ts' = ts \<or> ts' = rotate1 ts) \<and> dtype (last ts') = WSType KReadNonZero \<and> no_ws (butlast ts')"
proof (cases "length ts = 1")
  case True
  then obtain t where "ts = [t]" by (auto simp: length_Suc_conv)
  with assms show ?thesis by (auto simp: isAccRead_def Let_def split: if_splits)
next
  case False
  define f where "f = (dtype (hd ts) = WSType KReadNonZero)"
  define l where "l = (dtype (last ts) = WSType KReadNonZero)"
  note c = isAccRead_cases [OF assms False f_def l_def]
  obtain t rest where ts: "ts = t # rest" using c by (meson neq_Nil_conv)
  obtain xs w where rest: "rest = xs @ [w]" using False ts by (cases rest rule: rev_cases) auto
  consider f "\<not> l" | "\<not> f" l using c by blast
  then show ?thesis
  proof cases
    case 1
    then have "read_loop True False (length ts) 1 rest None = Ret None" "ts' = rotate1 ts" using c ts by auto
    with read_loop_mid [OF _ this(1)] show ?thesis using 1(1) by (simp add: f_def ts)
  next
    case 2
    then have r: "read_loop False True (length ts) 0 ts None = Ret None" and "ts' = ts" using c by auto
    from r have "\<not> isWorldState t" "read_loop False True (length ts) 1 (xs @ [w]) None = Ret None"
      by (auto simp: ts rest split: if_splits)
    with read_loop_last [OF _ _ this(2)] show ?thesis using 2(2) \<open>ts' = ts\<close> by (simp add: l_def ts rest butlast_append)
  qed
qed

text \<open>
  An inspected segment: a lone read of a missing account, storage accesses closed by one account
  access, or two such runs closed by a deletion and an insertion.
\<close>

definition segment_ok :: "'e DecodedTrace list \<Rightarrow> bool" where
  "segment_ok ts \<longleftrightarrow> (\<exists>t. ts = [t] \<and> dtype t = WSType KReadZero)
     \<or> (\<exists>xs t. ts = xs @ [t] \<and> no_ws xs \<and> dtype t \<in> WSType ` {KInsertion, KDeletion, KUpdate, KReadNonZero})
     \<or> (\<exists>xs d ys t. ts = xs @ d # ys @ [t] \<and> no_ws xs \<and> no_ws ys
          \<and> dtype d = WSType KDeletion \<and> dtype t = WSType KInsertion)"

lemma segment_ok_snoc:
  "ts \<noteq> [] \<Longrightarrow> no_ws (butlast ts) \<Longrightarrow> dtype (last ts) \<in> WSType ` {KInsertion, KDeletion, KUpdate, KReadNonZero} \<Longrightarrow> segment_ok ts"
  unfolding segment_ok_def
  by (rule disjI2, rule disjI1, intro exI [of _ "butlast ts"] exI [of _ "last ts"]) simp

lemma isAccRedeploy_accept:
  assumes "isAccRedeploy G ts = Ret True" and "isAccCreation G ts = Ret False"
  shows "segment_ok ts"
proof -
  from assms(1) obtain f p err where ne: "ts \<noteq> []" and l: "dtype (last ts) = WSType KInsertion" and n: "length ts \<noteq> 1"
    and r: "redeploy_loop 0 (butlast ts) False 0 None = Ret (f, p, err)"
    by (auto simp: isAccRedeploy_def go_simps split: if_splits)
  have "\<not> no_ws (butlast ts)"
    using assms(2) ne l n by (auto simp: isAccCreation_def creation_loop_iff no_ws_def go_simps split: if_splits)
  with redeploy_loop_shape [OF r] obtain xs d ys where
    b: "butlast ts = xs @ d # ys" "dtype d = WSType KDeletion" "no_ws xs" "no_ws ys" by auto
  have "ts = xs @ d # ys @ [last ts]" using append_butlast_last_id [OF ne] b(1) by simp
  with b l show ?thesis unfolding segment_ok_def by blast
qed

lemma match_loop_step:
  "match_loop (m # ms) ts = Ret ts' \<longleftrightarrow> m ts = Ret (True, ts') \<or> (\<exists>t1. m ts = Ret (False, t1) \<and> match_loop ms t1 = Ret ts')"
  by (cases "m ts") (auto split: if_splits)

lemma keep_slice_Ret: "keep_slice m ts = Ret (b, ts') \<longleftrightarrow> m ts = Ret b \<and> ts' = ts"
  by (cases "m ts") (auto simp: keep_slice_def)

lemma inspectPattern_accept:
  assumes "inspectPattern G ts = Ret ts'"
  shows "(ts' = ts \<or> ts' = rotate1 ts) \<and> segment_ok ts'"
proof -
  have read: "t1 = ts" if "isAccRead G ts = Ret (False, t1)" for t1
    using that by (auto simp: isAccRead_def Let_def go_simps split: if_splits)
  consider "isMissingAccRead ts = Ret True" "ts' = ts" | "isAccCreation G ts = Ret True" "ts' = ts"
    | "isAccDeletion G ts = Ret True" "ts' = ts" | "isAccRead G ts = Ret (True, ts')"
    | "isAccUpdate G ts = Ret True" "ts' = ts"
    | "isAccRedeploy G ts = Ret True" "isAccCreation G ts = Ret False" "ts' = ts"
    using assms read unfolding inspectPattern_def match_loop_step keep_slice_Ret match_loop.simps(1) by blast
  then show ?thesis
  proof cases
    case 1
    then show ?thesis using isMissingAccRead_accept [of ts] by (auto simp: segment_ok_def)
  next
    case 2
    then show ?thesis using isAccCreation_accept [of G ts] by (auto intro: segment_ok_snoc)
  next
    case 3
    then show ?thesis using isAccDeletion_accept [of G ts] by (auto intro: segment_ok_snoc)
  next
    case 4
    from isAccRead_accept [OF this] show ?thesis by (auto intro!: segment_ok_snoc)
  next
    case 5
    then show ?thesis using isAccUpdate_accept [of G ts] by (auto intro: segment_ok_snoc)
  next
    case 6
    then show ?thesis using isAccRedeploy_accept [of G ts] by auto
  qed
qed

section \<open>What the order check decides\<close>

text \<open>Reads before writes, each by increasing hashed key.\<close>

definition access_before :: "'e gnark \<Rightarrow> 'e DecodedTrace \<Rightarrow> 'e DecodedTrace \<Rightarrow> bool" where
  "access_before G a b \<longleftrightarrow> (\<exists>ra rb ha hb.
     Underlying_RWInt (dec_Underlying a) = Ret ra \<and> Underlying_RWInt (dec_Underlying b) = Ret rb
     \<and> Underlying_HKey G (dec_Underlying a) = Ret ha \<and> Underlying_HKey G (dec_Underlying b) = Ret hb
     \<and> (ra < rb \<or> ra = rb \<and> Cmp G ha hb < 0))"

lemma errors_Join_Some [simp]: "errors_Join e (Some m) \<noteq> None"
  by (cases e) auto

lemma order_loop_next:
  assumes "order_loop G (a # b # c # rest) err = Ret None"
  shows "\<exists>m. order_loop G (b # c # rest) err = Ret None \<or> order_loop G (b # c # rest) (errors_Join err (Some m)) = Ret None"
  using assms by (auto simp: go_simps Let_def split: if_splits)

lemma order_loop_err: "order_loop G ts err = Ret None \<Longrightarrow> err = None"
proof (induction ts arbitrary: err)
  case (Cons a ts)
  show ?case
  proof (cases "\<exists>b c rest. ts = b # c # rest")
    case True
    then obtain b c rest where ts: "ts = b # c # rest" by blast
    from order_loop_next [OF Cons.prems [unfolded ts]] Cons.IH show ?thesis unfolding ts by (metis errors_Join_Some)
  next
    case False
    with Cons.prems show ?thesis by (cases ts; cases "tl ts") auto
  qed
qed simp

lemma order_loop_step:
  "order_loop G (a # b # c # rest) err = Ret None \<longleftrightarrow> access_before G a b \<and> order_loop G (b # c # rest) err = Ret None"
proof -
  have "order_loop G (b # c # rest) (errors_Join err (Some m)) \<noteq> Ret None" for m
    using order_loop_err by (metis errors_Join_Some)
  then show ?thesis
    by (cases "Underlying_RWInt (dec_Underlying a)"; cases "Underlying_RWInt (dec_Underlying b)";
        cases "Underlying_HKey G (dec_Underlying a)"; cases "Underlying_HKey G (dec_Underlying b)")
      (auto simp: access_before_def Let_def)
qed

lemma order_loop_iff:
  "order_loop G ts None = Ret None \<longleftrightarrow> (\<forall>i. i + 2 < length ts \<longrightarrow> access_before G (ts ! i) (ts ! Suc i))"
proof (induction ts)
  case (Cons a ts)
  show ?case
  proof (cases "\<exists>b c rest. ts = b # c # rest")
    case True
    then obtain b c rest where ts: "ts = b # c # rest" by blast
    have "(\<forall>i. i + 2 < length (a # ts) \<longrightarrow> access_before G ((a # ts) ! i) ((a # ts) ! Suc i))
      \<longleftrightarrow> access_before G a b \<and> (\<forall>i. i + 2 < length ts \<longrightarrow> access_before G (ts ! i) (ts ! Suc i))"
      by (auto simp: ts less_Suc_eq_0_disj)
    then show ?thesis using Cons unfolding ts order_loop_step by simp
  next
    case False
    then have "length ts < 2" by (cases ts; cases "tl ts") auto
    with False show ?thesis by (cases ts; cases "tl ts") auto
  qed
qed simp

lemma checkStorageTraceOrder_iff:
  "checkStorageTraceOrder G ts = Ret () \<longleftrightarrow> (\<forall>i. i + 2 < length ts \<longrightarrow> access_before G (ts ! i) (ts ! Suc i))"
  by (auto simp: checkStorageTraceOrder_def go_simps order_loop_iff)

text \<open>A segment that an account read closes is accepted whatever its storage accesses do.\<close>

lemma read_loop_accepts:
  "Suc i + length xs = n \<Longrightarrow> no_ws xs \<Longrightarrow> read_loop False True n i (xs @ [w]) None = Ret None"
  by (induction xs arbitrary: i) auto

lemma inspectPattern_read:
  assumes xs: "xs \<noteq> []" "no_ws xs" "list_all (\<lambda>t. \<exists>k. dtype t = STType k) xs"
    and t: "dtype t = WSType KReadNonZero" and ord: "checkStorageTraceOrder G xs = Ret ()"
  shows "inspectPattern G (xs @ [t]) = Ret (xs @ [t])"
proof -
  obtain x rest where x: "xs = x # rest" using xs(1) by (cases xs) auto
  have "\<not> list_ex (\<lambda>t. dtype t = WSType KReadZero) xs" using xs(3) by (induction xs) auto
  then have "isMissingAccRead (xs @ [t]) = Ret False" using xs(3) t by (simp add: isMissingAccRead_def x)
  moreover have "isAccCreation G (xs @ [t]) = Ret False" "isAccDeletion G (xs @ [t]) = Ret False"
    using t by (simp_all add: isAccCreation_def isAccDeletion_def)
  moreover have "isAccRead G (xs @ [t]) = Ret (True, xs @ [t])"
    using read_loop_accepts [of 0 xs "length (xs @ [t])" t] xs(2,3) t ord x
    by (auto simp: isAccRead_def Let_def on_err_def)
  ultimately show ?thesis by (simp add: inspectPattern_def keep_slice_def)
qed

end
