(* ===== verification/State_Checks.thy ===== *)
theory State_Checks
  imports State_Patterns
begin

text \<open>
  The verification of the traces of a block: \<^verbatim>\<open>worldstate.go\<close> (empty states and accounts),
  \<^verbatim>\<open>proof_checks.go\<close> (storage splices and the world state) and \<^verbatim>\<open>inspection.go\<close> (\<^verbatim>\<open>CheckTraces\<close>).
\<close>

section \<open>Empty states and accounts\<close>

type_synonym 'e StorageTrie = "('e, bytes, bytes) ProverState"
type_synonym 'e AccountTrie = "('e, bytes, 'e Account) ProverState"

record 'e WorldState =
  AccountTrie :: "'e AccountTrie"
  StorageTries :: "(bytes, 'e StorageTrie) Mapping"

definition NewWorldState :: "'e gnark \<Rightarrow> 'e WorldState go" where
  "NewWorldState G =
     go_bind (InitializeProverState G (replicate 20 0) (Account_zero G) WS_LOCATION) (\<lambda>trie.
       Ret \<lparr>AccountTrie = trie, StorageTries = NewMapping\<rparr>)"

definition EmptyCodeHash :: "'e gnark \<Rightarrow> 'e octuplet go" where
  "EmptyCodeHash G =
     (let (hasher, _, _) = Write G (NewMDHasher G) (replicate 32 0) in
      go_bind (Sum G hasher []) (\<lambda>(digest, _). MustBytesToKoalaOctuplet G digest))"

definition NewStorageTrie :: "'e gnark \<Rightarrow> bytes \<Rightarrow> 'e StorageTrie go" where
  "NewStorageTrie G address =
     InitializeProverState G (replicate 32 0) (replicate 32 0) (HexEncodeToString address)"

definition EmptyStorageTrieHash :: "'e gnark \<Rightarrow> 'e octuplet go" where
  "EmptyStorageTrieHash G = go_bind (NewStorageTrie G (replicate 20 0)) (\<lambda>trie. TopRoot G trie)"

definition ZKHASH_EMPTY_STORAGE :: "'e gnark \<Rightarrow> 'e octuplet go" where
  "ZKHASH_EMPTY_STORAGE G = EmptyStorageTrieHash G"

definition LEGACY_KECCAK_EMPTY_CODEHASH :: bytes where
  "LEGACY_KECCAK_EMPTY_CODEHASH =
     [0xc5, 0xd2, 0x46, 0x01, 0x86, 0xf7, 0x23, 0x3c, 0x92, 0x7e, 0x7d, 0xb2, 0xdc, 0xc7, 0x03, 0xc0,
      0xe5, 0x00, 0xb6, 0x53, 0xca, 0x82, 0x27, 0x3b, 0x7b, 0xfa, 0xd8, 0x04, 0x5d, 0x85, 0xa4, 0x70]"

definition NewContractEmptyStorage ::
  "'e gnark \<Rightarrow> int \<Rightarrow> int option \<Rightarrow> 'e octuplet \<Rightarrow> bytes \<Rightarrow> int \<Rightarrow> 'e Account go" where
  "NewContractEmptyStorage G nonce balance codeHash keccakCodeHash codeSize =
     go_bind (EmptyStorageTrieHash G) (\<lambda>root.
       Ret \<lparr>Nonce = nonce, Balance = balance, StorageRoot = root, LineaCodeHash = codeHash,
            KeccakCodeHash = keccakCodeHash, CodeSize = codeSize\<rparr>)"

definition NewEOA :: "'e gnark \<Rightarrow> int \<Rightarrow> int option \<Rightarrow> 'e Account go" where
  "NewEOA G nonce balance =
     go_bind (EmptyStorageTrieHash G) (\<lambda>root.
     go_bind (EmptyCodeHash G) (\<lambda>codeHash.
       Ret \<lparr>Nonce = nonce, Balance = balance, StorageRoot = root, LineaCodeHash = codeHash,
            KeccakCodeHash = LEGACY_KECCAK_EMPTY_CODEHASH, CodeSize = 0\<rparr>))"

section \<open>Bootstrapping a verifier from the first trace\<close>

fun bootstrap_fields :: "('e, 'k, 'v) Trace \<Rightarrow> int \<times> 'e octuplet" where
  "bootstrap_fields (TReadNonZero t) = (rn_NextFreeNode t, rn_SubRoot t)"
| "bootstrap_fields (TReadZero t) = (rz_NextFreeNode t, rz_SubRoot t)"
| "bootstrap_fields (TInsert t) = (i64 (it_NewNextFreeNode t - 1), it_OldSubRoot t)"
| "bootstrap_fields (TUpdate t) = (ut_NewNextFreeNode t, ut_OldSubRoot t)"
| "bootstrap_fields (TDelete t) = (dt_NewNextFreeNode t, dt_OldSubRoot t)"

definition bootstrapVerifierStateFromST :: "'e DecodedTrace \<Rightarrow> 'e VerifierState go" where
  "bootstrapVerifierStateFromST trace =
     (case dec_Underlying trace of
        ST t \<Rightarrow> Ret \<lparr>vs_Location = dec_Location trace, vs_NextFreeNode = fst (bootstrap_fields t),
                     vs_SubTreeRoot = snd (bootstrap_fields t)\<rparr>
      | _ \<Rightarrow> Panic ''unexpected type'')"

definition bootstrapVerifierStateFromWS :: "'e DecodedTrace \<Rightarrow> 'e VerifierState go" where
  "bootstrapVerifierStateFromWS trace =
     (case dec_Underlying trace of
        WS t \<Rightarrow> Ret \<lparr>vs_Location = dec_Location trace, vs_NextFreeNode = fst (bootstrap_fields t),
                     vs_SubTreeRoot = snd (bootstrap_fields t)\<rparr>
      | _ \<Rightarrow> Panic ''unexpected type'')"

section \<open>The storage accesses of an account\<close>

text \<open>The switch of \<^verbatim>\<open>checkSpliceST\<close> is \<open>verifier_step\<close>: the first error returns.\<close>

fun splice_loop :: "'e gnark \<Rightarrow> 'e VerifierState \<Rightarrow> 'e DecodedTrace list \<Rightarrow> 'e VerifierState go" where
  "splice_loop G vs [] = Ret vs"
| "splice_loop G vs (trace # rest) =
     (case dec_Underlying trace of
        ST t \<Rightarrow> go_bind (verifier_step G slot_writes slot_writes vs t) (\<lambda>vs. splice_loop G vs rest)
      | _ \<Rightarrow> Panic ''unexpected trace type'')"

definition checkSpliceST :: "'e gnark \<Rightarrow> 'e DecodedTrace list \<Rightarrow> ('e octuplet \<times> 'e octuplet) go" where
  "checkSpliceST G traces =
     (if traces = [] then Panic ''unexpected empty slice''
      else
      go_bind (bootstrapVerifierStateFromST (hd traces)) (\<lambda>vs.
      go_bind (verifier_TopRoot G vs) (\<lambda>oldRootHash.
      go_bind (splice_loop G vs traces) (\<lambda>vs.
      go_bind (verifier_TopRoot G vs) (\<lambda>newRootHash.
        Ret (oldRootHash, newRootHash))))))"

text \<open>The switch on the account access that closes a splice; other types fall through.\<close>

fun close_splice :: "'e gnark \<Rightarrow> 'e Underlying \<Rightarrow> 'e octuplet \<Rightarrow> 'e octuplet \<Rightarrow> unit go" where
  "close_splice G (WS (TReadNonZero t)) old new =
     (if old \<noteq> new then Panic ''read but the account state has been updated''
      else if StorageRoot (rn_Value t) \<noteq> old then Err ''read account has an inconsistent storage root''
      else Ret ())"
| "close_splice G (WS (TReadZero t)) old new = Panic ''read zero but there are ST accesses''"
| "close_splice G (WS (TInsert t)) old new =
     go_bind (ZKHASH_EMPTY_STORAGE G) (\<lambda>empty.
       if old \<noteq> empty then Err ''insertion, but the old was not the empty storage root''
       else if StorageRoot (it_Val t) \<noteq> new then Err ''inserted account has an inconsistent root hash''
       else Ret ())"
| "close_splice G (WS (TUpdate t)) old new =
     (if StorageRoot (ut_OldValue t) \<noteq> old \<or> StorageRoot (ut_NewValue t) \<noteq> new
      then Err ''updated account has inconsistent old and/or new root hash'' else Ret ())"
| "close_splice G (WS (TDelete t)) old new =
     (if old \<noteq> new then Panic ''deletion : but the traces updated the root hash''
      else if dt_DeletedValue t \<noteq> Account_zero G \<and> StorageRoot (dt_DeletedValue t) \<noteq> old
      then Err ''deletion : but the deleted account storage hash does not match the old value''
      else Ret ())"
| "close_splice G _ old new = Ret ()"

fun account_loop :: "'e gnark \<Rightarrow> 'e DecodedTrace list \<Rightarrow> 'e DecodedTrace list \<Rightarrow> unit go" where
  "account_loop G cur [] =
     (if cur \<noteq> [] then Panic ''the traces do not end with a WS traces'' else Ret ())"
| "account_loop G cur (trace # rest) =
     (if isWorldState trace then
        if cur \<noteq> [] then
          go_bind (checkSpliceST G cur) (\<lambda>(old, new).
          go_bind (close_splice G (dec_Underlying trace) old new) (\<lambda>_. account_loop G [] rest))
        else account_loop G cur rest
      else account_loop G (cur @ [trace]) rest)"

definition checkProofsForAccount :: "'e gnark \<Rightarrow> 'e DecodedTrace list \<Rightarrow> unit go" where
  "checkProofsForAccount G traces = account_loop G [] traces"

section \<open>The account accesses\<close>

text \<open>
  One verification on the state \<open>vs\<close>: an error does not stop the loop, and a failed insertion
  may already have moved the state.
\<close>

fun ws_verify :: "'e gnark \<Rightarrow> 'e VerifierState \<Rightarrow> 'e ws_trace \<Rightarrow> ('e VerifierState \<times> string option) go" where
  "ws_verify G vs (TInsert t) = VerifyInsertion G address_writes (account_writes G) vs t"
| "ws_verify G vs t =
     (case verifier_step G address_writes (account_writes G) vs t of
        Ret vs' \<Rightarrow> Ret (vs', None) | Err e \<Rightarrow> Ret (vs, Some e) | Panic m \<Rightarrow> Panic m)"

text \<open>The comparison with the next account; the last trace has none.\<close>

definition account_order ::
  "'e gnark \<Rightarrow> 'e DecodedTrace \<Rightarrow> 'e DecodedTrace list \<Rightarrow> string option \<Rightarrow> string option go" where
  "account_order G trace rest err =
     (case rest of
        [] \<Rightarrow> Ret err
      | nxt # _ \<Rightarrow>
          go_bind (Underlying_HKey G (dec_Underlying trace)) (\<lambda>currHKey.
          go_bind (Underlying_HKey G (dec_Underlying nxt)) (\<lambda>nextHKey.
            Ret (if Cmp G currHKey nextHKey > 0
                 then errors_Join err (Some ''the account segment are not well-ordered'') else err))))"

fun ws_loop ::
  "'e gnark \<Rightarrow> 'e DecodedTrace list \<Rightarrow> 'e VerifierState \<Rightarrow> string option \<Rightarrow> ('e VerifierState \<times> string option) go" where
  "ws_loop G [] vs err = Ret (vs, err)"
| "ws_loop G (trace # rest) vs err =
     go_bind (account_order G trace rest err) (\<lambda>err.
     case dec_Underlying trace of
       WS t \<Rightarrow>
         go_bind (ws_verify G vs t) (\<lambda>(vs, errA).
           ws_loop G rest vs (case errA of None \<Rightarrow> err | Some e \<Rightarrow> errors_Join err (Some (''error verifying ws trace: '' @ e))))
     | _ \<Rightarrow> Panic ''unexpected trace type'')"

definition checkProofsWorldState :: "'e gnark \<Rightarrow> 'e DecodedTrace list \<Rightarrow> ('e octuplet \<times> 'e octuplet) go" where
  "checkProofsWorldState G traces =
     (if traces = [] then Panic ''unexpected empty slice''
      else
      go_bind (bootstrapVerifierStateFromWS (hd traces)) (\<lambda>vs.
      go_bind (verifier_TopRoot G vs) (\<lambda>oldRootHash.
      go_bind (ws_loop G traces vs None) (\<lambda>(vs, err).
      case err of
        Some e \<Rightarrow> Err e
      | None \<Rightarrow> go_bind (verifier_TopRoot G vs) (\<lambda>newRootHash. Ret (oldRootHash, newRootHash))))))"

section \<open>\<^verbatim>\<open>CheckTraces\<close>\<close>

record 'e dispatched =
  traceByAccount :: "'e DecodedTrace list list"
  traceWs :: "'e DecodedTrace list"
  alreadyFoundAcc :: "bytes set"
  prevAddress :: bytes

fun dispatch_loop :: "nat \<Rightarrow> 'e DecodedTrace list \<Rightarrow> 'e dispatched \<Rightarrow> 'e dispatched go" where
  "dispatch_loop i [] s = Ret s"
| "dispatch_loop i (trace # rest) s =
     (let s1 = (if isWorldState trace then s\<lparr>traceWs := traceWs s @ [trace]\<rparr> else s) in
      go_bind (GetRelatedAccount trace) (\<lambda>address.
      if address \<in> alreadyFoundAcc s1 \<and> address \<noteq> prevAddress s1 \<and> i > 0 then Err ''two segments for address''
      else
      let segs = (if i = 0 \<or> address \<noteq> prevAddress s1 then traceByAccount s1 @ [[]] else traceByAccount s1);
          segs = segs[length segs - 1 := last segs @ [trace]] in
      dispatch_loop (Suc i) rest
        (s1\<lparr>traceByAccount := segs, alreadyFoundAcc := insert address (alreadyFoundAcc s1), prevAddress := address\<rparr>)))"

fun audit_loop :: "'e gnark \<Rightarrow> 'e DecodedTrace list list \<Rightarrow> unit go" where
  "audit_loop G [] = Ret ()"
| "audit_loop G (traces # rest) =
     go_bind (inspectPattern G traces) (\<lambda>traces.
     go_bind (checkProofsForAccount G traces) (\<lambda>_. audit_loop G rest))"

definition CheckTraces :: "'e gnark \<Rightarrow> 'e DecodedTrace list \<Rightarrow> ('e octuplet \<times> 'e octuplet) go" where
  "CheckTraces G traces =
     (if length traces = 0 then Panic ''no state-manager traces''
      else
      go_bind (dispatch_loop 0 traces
        \<lparr>traceByAccount = [], traceWs = [], alreadyFoundAcc = {}, prevAddress = replicate 20 0\<rparr>) (\<lambda>s.
      go_bind (audit_loop G (traceByAccount s)) (\<lambda>_.
      checkProofsWorldState G (traceWs s))))"

end
