(* ===== verification/Acc_Trail.thy ===== *)
theory Acc_Trail
  imports Acc_Run
begin

text \<open>
  Sequences of traces that a verifier accepts one after the other, as the state manager checks
  them: the accepted operations, run on the abstract map, lead from the contents that the
  verifier tracked at the start to those it tracks at the end, or one of the traces exhibits a
  hash collision in the accumulator tracked when it was checked.
\<close>

fun trace_op :: "('e, 'k, 'v) Trace \<Rightarrow> ('k, 'v) operation" where
  "trace_op (TInsert t) = OInsert (it_Key t) (it_Val t)"
| "trace_op (TDelete t) = ODelete (dt_Key t)"
| "trace_op (TUpdate t) = OUpdate (ut_Key t) (ut_NewValue t)"
| "trace_op (TReadZero t) = OReadZero (rz_Key t)"
| "trace_op (TReadNonZero t) = OReadNonZero (rn_Key t)"

text \<open>The opening of an update or of a read is not that of the head or of the tail.\<close>

fun inner_opening :: "'e gnark \<Rightarrow> ('e, 'k, 'v) Trace \<Rightarrow> bool" where
  "inner_opening G (TUpdate t) \<longleftrightarrow> \<not> HeadOrTail G (ut_OldOpening t)"
| "inner_opening G (TReadNonZero t) \<longleftrightarrow> \<not> HeadOrTail G (rn_LeafOpening t)"
| "inner_opening G _ \<longleftrightarrow> True"

fun trace_break ::
  "'e gnark \<Rightarrow> ('k \<Rightarrow> writes) \<Rightarrow> ('v \<Rightarrow> writes) \<Rightarrow> 'e links \<Rightarrow> ('e, 'k, 'v) Trace \<Rightarrow> bool" where
  "trace_break G wk wv op (TInsert t) \<longleftrightarrow> insertion_break G wk wv op t"
| "trace_break G wk wv op (TDelete t) \<longleftrightarrow> deletion_break G op t"
| "trace_break G wk wv op (TUpdate t) \<longleftrightarrow> open_break G op (ut_Proof t) (ut_OldOpening t)"
| "trace_break G wk wv op (TReadZero t) \<longleftrightarrow>
     open_break G op (rz_ProofMinus t) (rz_OpeningMinus t) \<or> open_break G op (rz_ProofPlus t) (rz_OpeningPlus t)"
| "trace_break G wk wv op (TReadNonZero t) \<longleftrightarrow> open_break G op (rn_Proof t) (rn_LeafOpening t)"

text \<open>
  The accumulator that the verifier tracks after a trace, computed from the one it tracked before
  and from the positions that the trace opens; and a break somewhere along a sequence of traces,
  in the accumulator tracked at that point.
\<close>

fun track ::
  "'e gnark \<Rightarrow> ('k \<Rightarrow> writes) \<Rightarrow> ('v \<Rightarrow> writes) \<Rightarrow> 'e links \<Rightarrow> ('e, 'k, 'v) Trace \<Rightarrow> 'e links" where
  "track G wk wv op (TInsert t) = link_insert op (Path (it_ProofMinus t)) (Path (it_ProofNew t)) (Path (it_ProofPlus t))
     (hash G (wk (it_Key t))) (hash G (wv (it_Val t)))"
| "track G wk wv op (TDelete t) = link_delete op (Prev (dt_DeletedOpen t)) (Path (dt_ProofDeleted t)) (Next (dt_DeletedOpen t))"
| "track G wk wv op (TUpdate t) = link_update op (Path (ut_Proof t)) (hash G (wv (ut_NewValue t)))"
| "track G wk wv op (TReadZero t) = op"
| "track G wk wv op (TReadNonZero t) = op"

fun track_run ::
  "'e gnark \<Rightarrow> ('k \<Rightarrow> writes) \<Rightarrow> ('v \<Rightarrow> writes) \<Rightarrow> 'e links \<Rightarrow> ('e, 'k, 'v) Trace list \<Rightarrow> 'e links" where
  "track_run G wk wv op [] = op"
| "track_run G wk wv op (t # ts) = track_run G wk wv (track G wk wv op t) ts"

fun run_break ::
  "'e gnark \<Rightarrow> ('k \<Rightarrow> writes) \<Rightarrow> ('v \<Rightarrow> writes) \<Rightarrow> 'e links \<Rightarrow> ('e, 'k, 'v) Trace list \<Rightarrow> bool" where
  "run_break G wk wv op [] \<longleftrightarrow> False"
| "run_break G wk wv op (t # ts) \<longleftrightarrow> trace_break G wk wv op t \<or> run_break G wk wv (track G wk wv op t) ts"

text \<open>What the top root hashes, and a collision between two top roots.\<close>

definition top_elems :: "'e gnark \<Rightarrow> 'e VerifierState \<Rightarrow> 'e list" where
  "top_elems G v = int64_elems G (vs_NextFreeNode v) @ oct_list (vs_SubTreeRoot v)"

definition top_break :: "'e gnark \<Rightarrow> 'e VerifierState \<Rightarrow> 'e VerifierState \<Rightarrow> bool" where
  "top_break G v w \<longleftrightarrow> collide_at (compress_p2 G) (md_inputs G (oct_zero G) (top_elems G v)) (md_inputs G (oct_zero G) (top_elems G w))"

context felt
begin

lemma bindings_rest_of:
  assumes "well_linked G op" and "(h, d) \<in> bindings op"
  shows "{b \<in> bindings op. fst b \<noteq> h} = bindings op - {(h, d)}" and "has_key (bindings op) h"
proof -
  from assms(2) obtain i l where "op i = Some l" "i \<noteq> 0" "i \<noteq> 1" "(h, d) = (HKey l, HVal l)"
    unfolding bindings_iff by blast
  with bindings_rest [OF assms(1) this(1-3)] show "{b \<in> bindings op. fst b \<noteq> h} = bindings op - {(h, d)}" by simp
  show "has_key (bindings op) h" using assms(2) unfolding has_key_def by (rule image_eqI [rotated]) simp
qed

lemma absent_key: "\<forall>i l. op i = Some l \<longrightarrow> HKey l \<noteq> h \<Longrightarrow> \<not> has_key (bindings op) h"
  by (auto simp: has_key_def image_iff Bex_def bindings_iff)

lemma step_sound:
  assumes v: "vrep G v op" and ok: "verifier_step G wk wv v t = Ret v'" and wf: "trace_wf t" "inner_opening G t"
    and nb: "\<not> trace_break G wk wv op t"
  shows "vrep G v' (track G wk wv op t)
    \<and> spec_step G wk wv (bindings op) (trace_op t) = Some (bindings (track G wk wv op t))"
proof -
  have wl: "well_linked G op" using v by (simp add: vrep_def)
  show ?thesis
  proof (cases t)
    case (TInsert x)
    with ok have "VerifyInsertion G wk wv v x = Ret (v', None)" by (auto simp: go_simps split: option.splits)
    from insertion_sound [OF v this] wf nb TInsert have r: "vrep G v' (track G wk wv op t)"
      "\<forall>i l. op i = Some l \<longrightarrow> HKey l \<noteq> hash G (wk (it_Key x))"
      "bindings (track G wk wv op t) = insert (hash G (wk (it_Key x)), hash G (wv (it_Val x))) (bindings op)"
      by (auto simp: Let_def)
    with absent_key [OF r(2)] TInsert show ?thesis by (simp add: spec_step_def Let_def)
  next
    case (TDelete x)
    from deletion_sound [OF v, of wk wv x v'] ok wf nb TDelete have r: "vrep G v' (track G wk wv op t)"
      "(hash G (wk (dt_Key x)), hash G (wv (dt_DeletedValue x))) \<in> bindings op"
      "bindings (track G wk wv op t) = bindings op - {(hash G (wk (dt_Key x)), hash G (wv (dt_DeletedValue x)))}"
      by (auto simp: Let_def)
    with bindings_rest_of [OF wl r(2)] TDelete show ?thesis by (simp add: spec_step_def Let_def)
  next
    case (TUpdate x)
    from update_sound [OF v, of wk wv x v'] ok wf nb TUpdate have r: "vrep G v' (track G wk wv op t)"
      "(hash G (wk (ut_Key x)), hash G (wv (ut_OldValue x))) \<in> bindings op"
      "bindings (track G wk wv op t) = insert (hash G (wk (ut_Key x)), hash G (wv (ut_NewValue x)))
         (bindings op - {(hash G (wk (ut_Key x)), hash G (wv (ut_OldValue x)))})" by (auto simp: Let_def)
    with bindings_rest_of [OF wl r(2)] TUpdate show ?thesis by (simp add: spec_step_def Let_def)
  next
    case (TReadZero x)
    with ok have r: "ReadZeroVerify G wk v x = Ret ()" "v' = v" by (auto simp: go_simps)
    from read_zero_sound [OF v r(1)] wf nb TReadZero
    have "\<forall>i l. op i = Some l \<longrightarrow> HKey l \<noteq> hash G (wk (rz_Key x))" by auto
    from absent_key [OF this] v r(2) TReadZero show ?thesis by (auto simp: spec_step_def Let_def)
  next
    case (TReadNonZero x)
    with ok have r: "ReadNonZeroVerify G wk wv v x = Ret ()" "v' = v" by (auto simp: go_simps)
    from read_nonzero_sound [OF v r(1)] wf nb TReadNonZero
    have "(hash G (wk (rn_Key x)), hash G (wv (rn_Value x))) \<in> bindings op" by auto
    from bindings_rest_of [OF wl this] v r(2) TReadNonZero show ?thesis by (auto simp: spec_step_def Let_def)
  qed
qed

lemma run_sound:
  assumes "vrep G v op" and "verifier_run G wk wv v ts = Ret v'" and "list_all trace_wf ts" and "list_all (inner_opening G) ts"
  shows "(vrep G v' (track_run G wk wv op ts)
        \<and> spec_run G wk wv (bindings op) (map trace_op ts) = Some (bindings (track_run G wk wv op ts)))
    \<or> run_break G wk wv op ts"
  using assms
proof (induction ts arbitrary: v op)
  case (Cons t ts)
  from Cons.prems(2) obtain w where w: "verifier_step G wk wv v t = Ret w" "verifier_run G wk wv w ts = Ret v'"
    by (auto simp: go_simps)
  show ?case
  proof (cases "trace_break G wk wv op t")
    case False
    from step_sound [OF Cons.prems(1) w(1) _ _ False] Cons.prems(3,4)
    have o: "vrep G w (track G wk wv op t)"
      "spec_step G wk wv (bindings op) (trace_op t) = Some (bindings (track G wk wv op t))" by auto
    from Cons.IH [OF o(1) w(2)] Cons.prems(3,4) show ?thesis by (auto simp: o(2))
  qed simp
qed simp

text \<open>The top root commits to the next free node and to the root of the tree.\<close>

lemma verifier_TopRoot_eq:
  "verifier_TopRoot G v = Ret (sum_loop G (oct_zero G) (top_elems G v))"
proof -
  have "hash_run G [int64_bytes (vs_NextFreeNode v), ToBytes G (vs_SubTreeRoot v)]
      = WriteElements (NewMDHasher G) (top_elems G v)"
    by (simp add: hash_run_def Write_int64 Write_ToBytes WriteElements_def NewMDHasher_def top_elems_def)
  then show ?thesis
    by (simp add: verifier_TopRoot_def WriteInt64On64Bytes_eq Sum_Nil MustBytesToKoalaOctuplet_def
        BytesToKoalaOctuplet_def SetBytes_ToBytes SumElement_def WriteElements_def NewMDHasher_def Let_def)
qed

lemma top_elems_inj:
  assumes "top_elems G v = top_elems G w" and "int64_ok (vs_NextFreeNode v)" and "int64_ok (vs_NextFreeNode w)"
  shows "vs_NextFreeNode v = vs_NextFreeNode w \<and> vs_SubTreeRoot v = vs_SubTreeRoot w"
  using assms int64_elems_inj by (auto simp: top_elems_def int64_elems_bytes)

lemma TopRoot_binding:
  assumes "verifier_TopRoot G v = Ret r" and "verifier_TopRoot G w = Ret r"
    and "int64_ok (vs_NextFreeNode v)" and "int64_ok (vs_NextFreeNode w)"
  shows "vs_NextFreeNode v = vs_NextFreeNode w \<and> vs_SubTreeRoot v = vs_SubTreeRoot w \<or> top_break G v w"
proof -
  have l: "length (top_elems G u) = 24" for u by (simp add: top_elems_def int64_elems_bytes)
  have "sum_loop G (oct_zero G) (top_elems G v) = sum_loop G (oct_zero G) (top_elems G w)"
    using assms(1,2) unfolding verifier_TopRoot_eq by simp
  with sum_loop_binding [of "top_elems G v" "top_elems G w" G "oct_zero G" "oct_zero G"]
  have "top_elems G v = top_elems G w \<or> top_break G v w" unfolding top_break_def l by simp
  with top_elems_inj [OF _ assms(3,4)] show ?thesis by blast
qed

lemma vrep_cong:
  "vrep G v op \<Longrightarrow> vs_NextFreeNode v = vs_NextFreeNode w \<Longrightarrow> vs_SubTreeRoot v = vs_SubTreeRoot w \<Longrightarrow> vrep G w op"
  by (simp add: vrep_def)

lemma vrep_int64: "vrep G v op \<Longrightarrow> int64_ok (vs_NextFreeNode v)"
proof -
  assume v: "vrep G v op"
  then have "0 \<in> dom op" by (auto simp: vrep_def well_linked_def)
  then have "0 < vs_NextFreeNode v" using v unfolding vrep_def by blast
  with v show ?thesis by (intro int64_ok_pos) (simp_all add: vrep_def)
qed

text \<open>
  From the commitment to an accumulator to the commitment to its successor: the verifier that
  ran the traces was bootstrapped from untrusted fields, and only its top root was compared.
\<close>

lemma committed_run:
  assumes v0: "vrep G v0 op" "verifier_TopRoot G v0 = Ret old"
    and v: "verifier_TopRoot G v = Ret old" "int64_ok (vs_NextFreeNode v)"
    and run: "verifier_run G wk wv v ts = Ret v'" "list_all trace_wf ts" "list_all (inner_opening G) ts"
  shows "(vrep G v' (track_run G wk wv op ts)
        \<and> spec_run G wk wv (bindings op) (map trace_op ts) = Some (bindings (track_run G wk wv op ts)))
    \<or> top_break G v0 v \<or> run_break G wk wv op ts"
  using TopRoot_binding [OF v0(2) v(1) vrep_int64 [OF v0(1)] v(2)] vrep_cong [OF v0(1), of v]
    run_sound [OF _ run, of op] by blast

end

end
