(* ===== verification/Acc_Witness.thy ===== *)
theory Acc_Witness
  imports Acc_Run
begin

text \<open>
  A concrete instance of the parameters, on which the hypotheses of the accumulator theorems
  hold: KoalaBear elements with a compression function that returns its second argument and
  never zero, octuplets as keys and values. A session that inserts, reads and deletes one key is
  derived from the completeness lemmas.
\<close>

definition wit_one :: "koala octuplet" where
  "wit_one = (let z = koala_of_nat 0 in Oct (koala_of_nat 1) z z z z z z z)"

definition wit_key :: "koala octuplet" where
  "wit_key = (let z = koala_of_nat 0 in Oct (koala_of_nat 2) z z z z z z z)"

definition wit_compress :: "koala octuplet \<Rightarrow> koala octuplet \<Rightarrow> koala octuplet" where
  "wit_compress s b = (if b = (let z = koala_of_nat 0 in Oct z z z z z z z z) then wit_one else b)"

definition wit_G :: "koala gnark" where
  "wit_G = koala_ops wit_compress"

definition wit_w :: "koala octuplet \<Rightarrow> writes" where
  "wit_w k = [ToBytes wit_G k]"

lemma koala_neq: "a mod 2130706433 \<noteq> b mod 2130706433 \<Longrightarrow> koala_of_nat a \<noteq> koala_of_nat b"
  using koala_nat_of_nat by metis

lemma wit_felt: "felt wit_G"
  unfolding wit_G_def by (rule koala.felt_axioms)

lemma wit_zero: "oct_zero wit_G = (let z = koala_of_nat 0 in Oct z z z z z z z z)"
  by (simp add: oct_zero_def wit_G_def koala_ops_def)

lemma wit_compress_nz: "compress_p2 wit_G s b \<noteq> oct_zero wit_G"
  unfolding wit_zero by (simp add: wit_G_def koala_ops_def wit_compress_def wit_one_def Let_def koala_neq)

lemma wit_zero_panics: "zero_panics wit_G = {}"
  unfolding zero_panics_def using wit_compress_nz by (simp add: hashLR_eq)

lemma wit_ret: "ret_or P (zero_panics wit_G) m \<Longrightarrow> \<exists>x. m = Ret x \<and> P x"
  by (cases m) (simp_all add: wit_zero_panics)

lemma wit_hash: "hash wit_G (wit_w k) = (if k = oct_zero wit_G then wit_one else k)"
proof -
  have "hash wit_G (wit_w k) = compress_p2 wit_G (oct_zero wit_G) k"
    by (simp add: hash_def hash_run_def wit_w_def felt.Write_ToBytes [OF wit_felt] SumElement_def
        WriteElements_def NewMDHasher_def Let_def)
  then show ?thesis by (simp add: wit_zero) (simp add: wit_G_def koala_ops_def wit_compress_def)
qed

lemma wit_key_hash: "hash wit_G (wit_w wit_key) = wit_key"
  unfolding wit_hash wit_zero by (simp add: wit_key_def Let_def koala_neq)

lemma wit_key_inner: "wit_key \<noteq> oct_zero wit_G" "wit_key \<noteq> MaxKoalaOctuplet wit_G"
  unfolding wit_zero by (simp_all add: wit_key_def MaxKoalaOctuplet_def wit_G_def koala_ops_def Let_def koala_neq)

type_synonym wit_state = "(koala, koala octuplet, koala octuplet) ProverState"

lemma wit_init:
  "\<exists>p :: wit_state. session wit_G wit_w wit_w p [] [] p \<and> acc_inv wit_G wit_w wit_w p
    \<and> bindings (links_of p) = {} \<and> ps_NextFreeNode p = 2"
proof -
  obtain p where p: "InitializeProverState wit_G wit_key wit_key [] = Ret p" "acc_inv wit_G wit_w wit_w p"
    "bindings (links_of p) = {}" "ps_NextFreeNode p = 2"
    using wit_ret [OF felt.init_complete [OF wit_felt, of wit_w wit_w "[]" wit_key wit_key]] by blast
  then show ?thesis using session.start [OF p(1), of wit_w wit_w] by blast
qed

lemma wit_step:
  assumes "acc_inv wit_G wit_w wit_w p" and "\<exists>k v. x = OInsert k v \<Longrightarrow> ps_NextFreeNode p < 2 ^ DefaultDepth"
    and "op_key x = wit_key" and "spec_step wit_G wit_w wit_w (bindings (links_of p)) x = Some B"
  shows "\<exists>p' t. prover_step wit_G wit_w wit_w (\<lambda>l. l) (\<lambda>l. l) p x = Ret (p', t) \<and> acc_inv wit_G wit_w wit_w p'
    \<and> bindings (links_of p') = B \<and> trace_wf t
    \<and> verifier_step wit_G wit_w wit_w (VerifierState_of p) t = Ret (VerifierState_of p')"
proof -
  have "ret_or (\<lambda>(p', t). acc_inv wit_G wit_w wit_w p' \<and> bindings (links_of p') = B \<and> trace_wf t
      \<and> verifier_step wit_G wit_w wit_w (VerifierState_of p) t = Ret (VerifierState_of p')) (zero_panics wit_G)
    (prover_step wit_G wit_w wit_w (\<lambda>l. l) (\<lambda>l. l) p x)"
    by (rule felt.step_complete [OF wit_felt]) (use assms wit_key_hash wit_key_inner in simp_all)
  from wit_ret [OF this] show ?thesis by auto
qed

lemma VerifyInsertion_next:
  "VerifyInsertion G wk wv v t = Ret (v', None) \<Longrightarrow> vs_NextFreeNode v' = i64 (vs_NextFreeNode v + 1)"
  by (auto simp: VerifyInsertion_def Let_def split: go.splits if_splits)

text \<open>The state after inserting the key: it is present, with itself as its value.\<close>

lemma wit_inserted:
  "\<exists>p p' :: wit_state. \<exists>t. acc_inv wit_G wit_w wit_w p \<and> acc_inv wit_G wit_w wit_w p'
    \<and> prover_step wit_G wit_w wit_w (\<lambda>l. l) (\<lambda>l. l) p (OInsert wit_key wit_key) = Ret (p', TInsert t)
    \<and> bindings (links_of p') = {(wit_key, wit_key)} \<and> trace_wf (TInsert t) \<and> ps_NextFreeNode p' = 3
    \<and> VerifyInsertion wit_G wit_w wit_w (VerifierState_of p) t = Ret (VerifierState_of p', None)"
proof -
  obtain p :: wit_state where p: "acc_inv wit_G wit_w wit_w p" "bindings (links_of p) = {}" "ps_NextFreeNode p = 2"
    using wit_init by blast
  have "spec_step wit_G wit_w wit_w (bindings (links_of p)) (OInsert wit_key wit_key) = Some {(wit_key, wit_key)}"
    by (simp add: spec_step_def Let_def has_key_def p(2) wit_key_hash)
  from wit_step [OF p(1) _ _ this] obtain p' t where
    s: "prover_step wit_G wit_w wit_w (\<lambda>l. l) (\<lambda>l. l) p (OInsert wit_key wit_key) = Ret (p', t)"
      "acc_inv wit_G wit_w wit_w p'" "bindings (links_of p') = {(wit_key, wit_key)}" "trace_wf t"
      "verifier_step wit_G wit_w wit_w (VerifierState_of p) t = Ret (VerifierState_of p')"
    by (auto simp: p(3) DefaultDepth_def)
  from s(1) obtain t' where t': "t = TInsert t'" by (auto simp: go_simps)
  have v: "VerifyInsertion wit_G wit_w wit_w (VerifierState_of p) t' = Ret (VerifierState_of p', None)"
    using s(5) by (auto simp: t' go_simps split: option.splits)
  have "ps_NextFreeNode p' = 3"
    using VerifyInsertion_next [OF v] i64_small(2) [of 2] by (simp add: VerifierState_of_def p(3) DefaultDepth_def)
  then show ?thesis using p(1) s v unfolding t' by blast
qed

text \<open>Any operation on the key from that state.\<close>

lemma wit_next:
  assumes "op_key x = wit_key" and "spec_step wit_G wit_w wit_w {(wit_key, wit_key)} x = Some B"
  shows "\<exists>p p' :: wit_state. \<exists>t. acc_inv wit_G wit_w wit_w p \<and> acc_inv wit_G wit_w wit_w p'
    \<and> prover_step wit_G wit_w wit_w (\<lambda>l. l) (\<lambda>l. l) p x = Ret (p', t)
    \<and> bindings (links_of p) = {(wit_key, wit_key)} \<and> bindings (links_of p') = B \<and> trace_wf t
    \<and> verifier_step wit_G wit_w wit_w (VerifierState_of p) t = Ret (VerifierState_of p')"
proof -
  obtain p :: wit_state where p: "acc_inv wit_G wit_w wit_w p" "bindings (links_of p) = {(wit_key, wit_key)}" "ps_NextFreeNode p = 3"
    using wit_inserted by blast
  have "ps_NextFreeNode p < 2 ^ DefaultDepth" by (simp add: p(3) DefaultDepth_def)
  from wit_step [OF p(1) this assms(1), of B] assms(2) p show ?thesis by metis
qed

text \<open>A session that inserts the key, reads it and deletes it.\<close>

lemma wit_session_step:
  assumes "session wit_G wit_w wit_w p0 xs ts p" and "prover_step wit_G wit_w wit_w (\<lambda>l. l) (\<lambda>l. l) p x = Ret (p', t)"
    and "op_key x = wit_key"
  shows "session wit_G wit_w wit_w p0 (xs @ [x]) (ts @ [t]) p'"
  using assms(1) _ _ _ assms(2) by (rule session.step) (use assms(3) wit_key_hash wit_key_inner in \<open>simp_all add: inner_key_def\<close>)

lemma wit_session:
  "\<exists>(p0 :: wit_state) ts p. session wit_G wit_w wit_w p0 [OInsert wit_key wit_key, OReadNonZero wit_key, ODelete wit_key] ts p"
proof -
  let ?B = "{(wit_key, wit_key)}"
  obtain p0 :: wit_state where p0: "session wit_G wit_w wit_w p0 [] [] p0" "acc_inv wit_G wit_w wit_w p0"
    "bindings (links_of p0) = {}" "ps_NextFreeNode p0 = 2" using wit_init by blast
  have sp: "spec_step wit_G wit_w wit_w {} (OInsert wit_key wit_key) = Some ?B"
    "spec_step wit_G wit_w wit_w ?B (OReadNonZero wit_key) = Some ?B" "spec_step wit_G wit_w wit_w ?B (ODelete wit_key) = Some {}"
    by (auto simp: spec_step_def Let_def has_key_def wit_key_hash)
  obtain p1 t1 where p1: "prover_step wit_G wit_w wit_w (\<lambda>l. l) (\<lambda>l. l) p0 (OInsert wit_key wit_key) = Ret (p1, t1)"
    "acc_inv wit_G wit_w wit_w p1" "bindings (links_of p1) = ?B"
    using wit_step [OF p0(2), of "OInsert wit_key wit_key" ?B] sp(1) p0(3,4) by (auto simp: DefaultDepth_def simp del: prover_step.simps)
  obtain p2 t2 where p2: "prover_step wit_G wit_w wit_w (\<lambda>l. l) (\<lambda>l. l) p1 (OReadNonZero wit_key) = Ret (p2, t2)"
    "acc_inv wit_G wit_w wit_w p2" "bindings (links_of p2) = ?B"
    using wit_step [OF p1(2), of "OReadNonZero wit_key" ?B] sp(2) p1(3) by (auto simp del: prover_step.simps)
  obtain p3 t3 where p3: "prover_step wit_G wit_w wit_w (\<lambda>l. l) (\<lambda>l. l) p2 (ODelete wit_key) = Ret (p3, t3)"
    using wit_step [OF p2(2), of "ODelete wit_key" "{}"] sp(3) p2(3) by (auto simp del: prover_step.simps)
  from wit_session_step [OF wit_session_step [OF wit_session_step [OF p0(1) p1(1)] p2(1)] p3] show ?thesis by auto
qed

text \<open>The opening in the trace of an update or of a read is that of the key.\<close>

lemma find_loop_key: "find_loop data h ks = Ret (i, True) \<Longrightarrow> \<exists>t. MustGet data i = Ret t \<and> HKey (Opening t) = h"
  by (induction ks) (auto simp: go_simps split: if_splits)

lemma UpdateAndProve_key:
  "UpdateAndProve G wk wv ord p key val = Ret (p', t) \<Longrightarrow> HKey (ut_OldOpening t) = hash G (wk key)"
  by (auto simp: UpdateAndProve_def FindKey_def go_simps Let_def dest!: find_loop_key split: if_splits)

lemma ReadNonZeroAndProve_key:
  "ReadNonZeroAndProve G wk ord p key = Ret t \<Longrightarrow> HKey (rn_LeafOpening t) = hash G (wk key)"
  by (auto simp: ReadNonZeroAndProve_def FindKey_def go_simps dest!: find_loop_key split: if_splits)

end
