(* ===== verification/State_Sound.thy ===== *)
theory State_Sound
  imports State_Checks Acc_Trail Acc_Witness
begin

text \<open>
  What a block whose traces pass \<^verbatim>\<open>CheckTraces\<close> guarantees: the traces are cut into one segment per
  account, every segment has one of the inspected shapes and its storage accesses connect the
  storage roots of the account records, and the account accesses, run on the abstract map of
  accounts, connect the old state root to the new one.
\<close>

section \<open>Decoded traces\<close>

text \<open>The dynamic type of a decoded trace is the one that its location and its type code name.\<close>

definition decoded_ok :: "'e DecodedTrace \<Rightarrow> bool" where
  "decoded_ok t \<longleftrightarrow> (\<exists>k. dec_Type t = type_code k \<and> dtype t = (if isWorldState t then WSType k else STType k))"

lemma UnmarshalJSON_ok:
  assumes "UnmarshalJSON proto jst jws dec data = Ret dec'" and "data \<noteq> ''null''"
  shows "decoded_ok dec'"
proof -
  from assms obtain loc ty where "proto data = Ret (loc, ty)" by (auto simp: UnmarshalJSON_def go_simps)
  with assms show ?thesis
    by (auto simp: UnmarshalJSON_def Let_def go_simps decoded_ok_def isWorldState_def WS_LOCATION_def
        split: if_splits
        intro: exI [of _ KReadNonZero] exI [of _ KReadZero] exI [of _ KInsertion] exI [of _ KUpdate] exI [of _ KDeletion])
qed

lemma kind_dtype:
  "dtype t = WSType k \<longleftrightarrow> (\<exists>u. dec_Underlying t = WS u \<and> kind_of u = k)"
  "dtype t = STType k \<longleftrightarrow> (\<exists>u. dec_Underlying t = ST u \<and> kind_of u = k)"
  by (cases "dec_Underlying t"; auto)+

lemma decoded_ok_WS: "decoded_ok t \<Longrightarrow> isWorldState t \<Longrightarrow> \<exists>u. dec_Underlying t = WS u"
  by (auto simp: decoded_ok_def kind_dtype)

lemma decoded_ok_ST: "decoded_ok t \<Longrightarrow> \<not> isWorldState t \<Longrightarrow> \<exists>u. dec_Underlying t = ST u"
  by (auto simp: decoded_ok_def kind_dtype)

lemma decoded_ok_WSType: "decoded_ok t \<Longrightarrow> dtype t = WSType k \<Longrightarrow> isWorldState t"
  by (auto simp: decoded_ok_def split: if_splits)

fun st_of :: "'e Underlying \<Rightarrow> 'e st_trace" where
  "st_of (ST t) = t"
| "st_of _ = undefined"

fun ws_of :: "'e Underlying \<Rightarrow> 'e ws_trace" where
  "ws_of (WS t) = t"
| "ws_of _ = undefined"

abbreviation st_traces :: "'e DecodedTrace list \<Rightarrow> 'e st_trace list" where
  "st_traces ts \<equiv> map (\<lambda>t. st_of (dec_Underlying t)) ts"

abbreviation ws_traces :: "'e DecodedTrace list \<Rightarrow> 'e ws_trace list" where
  "ws_traces ts \<equiv> map (\<lambda>t. ws_of (dec_Underlying t)) ts"

section \<open>One segment per account\<close>

lemma list_all2_snoc [simp]: "list_all2 P (xs @ [x]) (ys @ [y]) \<longleftrightarrow> list_all2 P xs ys \<and> P x y"
  by (cases "length xs = length ys") (auto simp: list_all2_append dest: list_all2_lengthD)

text \<open>\<open>accs\<close> lists the account of each segment.\<close>

definition dispatch_inv :: "'e DecodedTrace list \<Rightarrow> bytes list \<Rightarrow> 'e dispatched \<Rightarrow> bool" where
  "dispatch_inv ts accs s \<longleftrightarrow> concat (traceByAccount s) = ts \<and> traceWs s = filter isWorldState ts
     \<and> list_all2 (\<lambda>seg a. seg \<noteq> [] \<and> list_all (\<lambda>t. GetRelatedAccount t = Ret a) seg) (traceByAccount s) accs
     \<and> distinct accs \<and> alreadyFoundAcc s = set accs \<and> (ts = [] \<longleftrightarrow> accs = []) \<and> (ts \<noteq> [] \<longrightarrow> prevAddress s = last accs)"

definition dispatch_step :: "'e DecodedTrace \<Rightarrow> bool \<Rightarrow> bytes \<Rightarrow> 'e dispatched \<Rightarrow> 'e dispatched" where
  "dispatch_step trace fresh a s =
     (let s1 = (if isWorldState trace then s\<lparr>traceWs := traceWs s @ [trace]\<rparr> else s);
          segs = (if fresh then traceByAccount s @ [[trace]]
                  else butlast (traceByAccount s) @ [last (traceByAccount s) @ [trace]])
      in s1\<lparr>traceByAccount := segs, alreadyFoundAcc := insert a (alreadyFoundAcc s), prevAddress := a\<rparr>)"

lemma dispatch_step_fresh:
  assumes "dispatch_inv ts accs s" and "GetRelatedAccount trace = Ret a" and "a \<notin> set accs"
  shows "dispatch_inv (ts @ [trace]) (accs @ [a]) (dispatch_step trace True a s)"
  using assms by (auto simp: dispatch_inv_def dispatch_step_def Let_def)

lemma dispatch_step_same:
  assumes "dispatch_inv ts accs s" and "GetRelatedAccount trace = Ret a" and "accs \<noteq> []" and "a = last accs"
  shows "dispatch_inv (ts @ [trace]) accs (dispatch_step trace False a s)"
proof -
  obtain as where a: "accs = as @ [a]" using assms(3,4) by (metis append_butlast_last_id)
  from assms(1) obtain segs seg where s: "traceByAccount s = segs @ [seg]"
    by (cases "traceByAccount s" rule: rev_cases) (auto simp: dispatch_inv_def a)
  show ?thesis using assms(1,2) unfolding dispatch_inv_def dispatch_step_def Let_def a s
    by (auto)
qed

lemma list_update_last: "xs \<noteq> [] \<Longrightarrow> xs[length xs - Suc 0 := v] = butlast xs @ [v]"
  by (cases xs rule: rev_cases) simp_all

lemma dispatch_loop_step:
  assumes inv: "dispatch_inv ts accs s"
    and r: "dispatch_loop (length ts) (trace # rest) s = Ret s'"
  shows "\<exists>accs' s1. dispatch_inv (ts @ [trace]) accs' s1 \<and> dispatch_loop (length (ts @ [trace])) rest s1 = Ret s'"
proof -
  let ?s1 = "if isWorldState trace then s\<lparr>traceWs := traceWs s @ [trace]\<rparr> else s"
  from r obtain a where a: "GetRelatedAccount trace = Ret a"
    and c: "\<not> (a \<in> alreadyFoundAcc s \<and> a \<noteq> prevAddress s \<and> ts \<noteq> [])"
    by (auto simp: go_simps Let_def split: if_splits)
  let ?fresh = "ts = [] \<or> a \<noteq> prevAddress s"
  have "traceByAccount s \<noteq> []" if "\<not> ?fresh" using that inv by (auto simp: dispatch_inv_def)
  then have step: "dispatch_loop (length (ts @ [trace])) rest (dispatch_step trace ?fresh a s) = Ret s'"
    using r a c by (auto simp: Let_def dispatch_step_def list_update_last split: if_splits)
  show ?thesis
  proof (cases ?fresh)
    case True
    then have "a \<notin> set accs" using c inv by (auto simp: dispatch_inv_def)
    from dispatch_step_fresh [OF inv a this] step True show ?thesis by auto
  next
    case False
    then have "accs \<noteq> []" "a = last accs" using inv by (auto simp: dispatch_inv_def)
    from dispatch_step_same [OF inv a this] step False show ?thesis by auto
  qed
qed

lemma dispatch_loop_inv:
  "dispatch_inv ts accs s \<Longrightarrow> dispatch_loop (length ts) rest s = Ret s' \<Longrightarrow> \<exists>accs'. dispatch_inv (ts @ rest) accs' s'"
proof (induction rest arbitrary: ts accs s)
  case (Cons trace rest)
  from dispatch_loop_step [OF Cons.prems] obtain accs' s1 where
    "dispatch_inv (ts @ [trace]) accs' s1" "dispatch_loop (length (ts @ [trace])) rest s1 = Ret s'" by blast
  from Cons.IH [OF this] show ?case by simp
qed auto

section \<open>Storage splices\<close>

lemma splice_loop_run:
  "list_all (\<lambda>t. decoded_ok t \<and> \<not> isWorldState t) ts \<Longrightarrow>
     splice_loop G v ts = verifier_run G slot_writes slot_writes v (st_traces ts)"
proof (induction ts arbitrary: v)
  case (Cons t ts)
  then obtain u where "dec_Underlying t = ST u" using decoded_ok_ST [of t] by auto
  with Cons show ?case by simp
qed simp

lemma checkSpliceST_run:
  assumes "checkSpliceST G ts = Ret (old, new)" and "list_all (\<lambda>t. decoded_ok t \<and> \<not> isWorldState t) ts"
    and "bootstrapVerifierStateFromST (hd ts) = Ret v"
  shows "\<exists>v'. verifier_TopRoot G v = Ret old \<and> verifier_run G slot_writes slot_writes v (st_traces ts) = Ret v'
    \<and> verifier_TopRoot G v' = Ret new"
  using assms(1,3) by (auto simp: checkSpliceST_def go_simps splice_loop_run [OF assms(2)] split: if_splits)

text \<open>The check of a run of storage accesses closed by the account access \<open>t\<close>.\<close>

definition splice_check :: "'e gnark \<Rightarrow> 'e DecodedTrace list \<Rightarrow> 'e DecodedTrace \<Rightarrow> unit go" where
  "splice_check G xs t =
     (if xs = [] then Ret ()
      else go_bind (checkSpliceST G xs) (\<lambda>(old, new). close_splice G (dec_Underlying t) old new))"

lemma account_loop_no_ws: "no_ws xs \<Longrightarrow> account_loop G cur (xs @ rest) = account_loop G (cur @ xs) rest"
  by (induction xs arbitrary: cur) auto

lemma account_loop_splice:
  assumes "no_ws xs" and "isWorldState t"
  shows "account_loop G [] (xs @ t # rest) = go_bind (splice_check G xs t) (\<lambda>_. account_loop G [] rest)"
  using assms account_loop_no_ws [OF assms(1), of G "[]" "t # rest"]
  by (auto simp: splice_check_def go_bind_assoc case_prod_unfold)

text \<open>The shapes of \<open>segment_ok\<close> with the checks that each of them gets.\<close>

definition segment_checked :: "'e gnark \<Rightarrow> 'e DecodedTrace list \<Rightarrow> bool" where
  "segment_checked G ts \<longleftrightarrow> (\<exists>t. ts = [t] \<and> dtype t = WSType KReadZero)
     \<or> (\<exists>xs t. ts = xs @ [t] \<and> no_ws xs \<and> dtype t \<in> WSType ` {KInsertion, KDeletion, KUpdate, KReadNonZero}
          \<and> splice_check G xs t = Ret ())
     \<or> (\<exists>xs d ys t. ts = xs @ d # ys @ [t] \<and> no_ws xs \<and> no_ws ys
          \<and> dtype d = WSType KDeletion \<and> dtype t = WSType KInsertion
          \<and> splice_check G xs d = Ret () \<and> splice_check G ys t = Ret ())"

lemma segment_check:
  assumes "segment_ok ts" and ok: "list_all decoded_ok ts" and c: "checkProofsForAccount G ts = Ret ()"
  shows "segment_checked G ts"
  using assms(1) unfolding segment_ok_def
proof (elim disjE exE conjE)
  fix t assume "ts = [t]" "dtype t = WSType KReadZero"
  then show ?thesis by (auto simp: segment_checked_def)
next
  fix xs t assume s: "ts = xs @ [t]" "no_ws xs" "dtype t \<in> WSType ` {KInsertion, KDeletion, KUpdate, KReadNonZero}"
  then have "isWorldState t" using ok decoded_ok_WSType [of t] by auto
  with c s have "splice_check G xs t = Ret ()"
    by (auto simp: checkProofsForAccount_def account_loop_splice go_simps)
  with s show ?thesis unfolding segment_checked_def by blast
next
  fix xs d ys t
  assume s: "ts = xs @ d # ys @ [t]" "no_ws xs" "no_ws ys" "dtype d = WSType KDeletion" "dtype t = WSType KInsertion"
  then have "isWorldState d" "isWorldState t" using ok decoded_ok_WSType by auto
  with c s have "splice_check G xs d = Ret ()" "splice_check G ys t = Ret ()"
    by (auto simp: checkProofsForAccount_def account_loop_splice go_simps)
  with s show ?thesis unfolding segment_checked_def by blast
qed

lemma audit_loop_segments:
  assumes "audit_loop G segs = Ret ()" and "list_all (list_all decoded_ok) segs" and "seg \<in> set segs"
  shows "\<exists>seg'. (seg' = seg \<or> seg' = rotate1 seg) \<and> segment_checked G seg'"
  using assms
proof (induction segs)
  case (Cons s segs)
  show ?case
  proof (cases "seg = s")
    case True
    from Cons.prems(1) obtain s' where i: "inspectPattern G s = Ret s'" and c: "checkProofsForAccount G s' = Ret ()"
      by (auto simp: go_simps)
    from inspectPattern_accept [OF i] have s': "s' = s \<or> s' = rotate1 s" "segment_ok s'" by auto
    have "list_all decoded_ok s'" using s'(1) Cons.prems(2) by (auto simp: list_all_iff)
    from segment_check [OF s'(2) this c] s'(1) True show ?thesis by blast
  next
    case False
    with Cons show ?thesis by (auto simp: go_simps)
  qed
qed simp

section \<open>The account accesses\<close>

lemma ws_verify_ok:
  "ws_verify G v t = Ret (v', None) \<longleftrightarrow> verifier_step G address_writes (account_writes G) v t = Ret v'"
  by (cases t) (auto simp: go_simps split: go.splits option.splits)

lemma account_order_None:
  assumes "account_order G t ts err = Ret None"
  shows "err = None"
    and "dec_Underlying t = WS u \<Longrightarrow> ts = n # rest \<Longrightarrow> dec_Underlying n = WS w \<Longrightarrow>
      Cmp G (trace_HKey G address_writes u) (trace_HKey G address_writes w) \<le> 0"
  using assms by (auto simp: account_order_def go_simps split: list.splits if_splits)

lemma ws_loop_Cons:
  assumes "ws_loop G (t # ts) v err = Ret (v', None)"
    and IH: "\<And>v err. ws_loop G ts v err = Ret (v', None) \<Longrightarrow> err = None"
  shows "\<exists>u w. account_order G t ts err = Ret None \<and> dec_Underlying t = WS u
    \<and> ws_verify G v u = Ret (w, None) \<and> ws_loop G ts w None = Ret (v', None)"
proof -
  from assms(1) obtain err1 where o: "account_order G t ts err = Ret err1"
    and r: "(case dec_Underlying t of
        WS u \<Rightarrow> go_bind (ws_verify G v u) (\<lambda>(vs, errA).
          ws_loop G ts vs (case errA of None \<Rightarrow> err1 | Some e \<Rightarrow> errors_Join err1 (Some (''error verifying ws trace: '' @ e))))
      | _ \<Rightarrow> Panic ''unexpected trace type'') = Ret (v', None)"
    by (auto simp: go_bind_Ret_iff)
  from r obtain u where u: "dec_Underlying t = WS u" by (cases "dec_Underlying t") auto
  with r obtain w errA where w: "ws_verify G v u = Ret (w, errA)"
    and l: "ws_loop G ts w (case errA of None \<Rightarrow> err1 | Some e \<Rightarrow> errors_Join err1 (Some (''error verifying ws trace: '' @ e))) = Ret (v', None)"
    by (auto simp: go_bind_Ret_iff)
  from IH [OF l] have "errA = None" "err1 = None" by (auto split: option.splits)
  with o u w l show ?thesis by auto
qed

lemma ws_loop_err: "ws_loop G ts v err = Ret (v', None) \<Longrightarrow> err = None"
proof (induction ts arbitrary: v err)
  case (Cons t ts)
  show ?case using ws_loop_Cons [OF Cons.prems] Cons.IH account_order_None(1) by blast
qed simp

definition hkeys_sorted :: "'e gnark \<Rightarrow> 'e ws_trace list \<Rightarrow> bool" where
  "hkeys_sorted G ts = successively (\<lambda>a b. Cmp G (trace_HKey G address_writes a) (trace_HKey G address_writes b) \<le> 0) ts"

lemma ws_loop_run:
  assumes "ws_loop G ts v None = Ret (v', None)"
  shows "verifier_run G address_writes (account_writes G) v (ws_traces ts) = Ret v' \<and> hkeys_sorted G (ws_traces ts)
    \<and> list_all (\<lambda>t. \<exists>u. dec_Underlying t = WS u) ts"
  using assms
proof (induction ts arbitrary: v)
  case (Cons t ts)
  obtain u w where o: "account_order G t ts None = Ret None"
    and u: "dec_Underlying t = WS u" and w: "ws_verify G v u = Ret (w, None)" and l: "ws_loop G ts w None = Ret (v', None)"
    using ws_loop_Cons [OF Cons.prems] ws_loop_err by blast
  note IH = Cons.IH [OF l]
  have "hkeys_sorted G (ws_traces (t # ts))"
  proof (cases ts)
    case (Cons n rest)
    then obtain x where "dec_Underlying n = WS x" using IH by auto
    from account_order_None(2) [OF o u Cons this] IH show ?thesis
      by (simp add: hkeys_sorted_def Cons u \<open>dec_Underlying n = WS x\<close>)
  qed (simp add: hkeys_sorted_def)
  with IH u w show ?case by (simp add: ws_verify_ok)
qed (simp add: hkeys_sorted_def)

lemma checkProofsWorldState_run:
  assumes "checkProofsWorldState G ts = Ret (old, new)" and "bootstrapVerifierStateFromWS (hd ts) = Ret v"
  shows "\<exists>v'. verifier_TopRoot G v = Ret old \<and> verifier_run G address_writes (account_writes G) v (ws_traces ts) = Ret v'
    \<and> verifier_TopRoot G v' = Ret new \<and> hkeys_sorted G (ws_traces ts)"
  using assms ws_loop_run [of G ts v]
  by (auto simp: checkProofsWorldState_def go_simps split: if_splits option.splits)

lemma CheckTraces_parts:
  assumes "CheckTraces G ts = Ret (old, new)"
  shows "\<exists>s accs. dispatch_inv ts accs s \<and> audit_loop G (traceByAccount s) = Ret ()
    \<and> checkProofsWorldState G (filter isWorldState ts) = Ret (old, new)"
proof -
  let ?s0 = "\<lparr>traceByAccount = [], traceWs = [], alreadyFoundAcc = {}, prevAddress = replicate 20 0\<rparr>"
  from assms obtain s where s: "dispatch_loop 0 ts ?s0 = Ret s" and r: "audit_loop G (traceByAccount s) = Ret ()"
    "checkProofsWorldState G (traceWs s) = Ret (old, new)"
    by (auto simp: CheckTraces_def go_simps split: if_splits)
  have "dispatch_inv [] [] ?s0" by (simp add: dispatch_inv_def)
  from dispatch_loop_inv [OF this, of ts s] s obtain accs where "dispatch_inv ts accs s" by auto
  moreover from this have "traceWs s = filter isWorldState ts" by (simp add: dispatch_inv_def)
  ultimately show ?thesis using r by auto
qed

section \<open>Soundness of a block\<close>

lemma block_sound:
  assumes G: "felt G" and ok: "CheckTraces G ts = Ret (old, new)" and ws: "wts = filter isWorldState ts"
    and wf: "list_all trace_wf (ws_traces wts)" "list_all (inner_opening G) (ws_traces wts)"
    and b: "bootstrapVerifierStateFromWS (hd wts) = Ret v" "int64_ok (vs_NextFreeNode v)"
    and v0: "vrep G v0 op" "verifier_TopRoot G v0 = Ret old"
  shows "(let op' = track_run G address_writes (account_writes G) op (ws_traces wts) in
        (\<exists>v'. vrep G v' op' \<and> verifier_TopRoot G v' = Ret new) \<and> hkeys_sorted G (ws_traces wts)
        \<and> spec_run G address_writes (account_writes G) (bindings op) (map trace_op (ws_traces wts)) = Some (bindings op'))
    \<or> top_break G v0 v \<or> run_break G address_writes (account_writes G) op (ws_traces wts)"
proof -
  from CheckTraces_parts [OF ok] have "checkProofsWorldState G wts = Ret (old, new)" unfolding ws by blast
  from checkProofsWorldState_run [OF this b(1)] obtain v' where
    r: "verifier_TopRoot G v = Ret old" "verifier_run G address_writes (account_writes G) v (ws_traces wts) = Ret v'"
      "verifier_TopRoot G v' = Ret new" "hkeys_sorted G (ws_traces wts)" by blast
  from felt.committed_run [OF G v0 r(1) b(2) r(2) wf] r(3,4) show ?thesis unfolding Let_def by blast
qed

lemma splice_sound:
  assumes G: "felt G" and ok: "splice_check G xs t = Ret ()" and u: "dec_Underlying t = WS (TUpdate u)" and ne: "xs \<noteq> []"
    and st: "list_all (\<lambda>t. decoded_ok t \<and> \<not> isWorldState t) xs"
    and wf: "list_all trace_wf (st_traces xs)" "list_all (inner_opening G) (st_traces xs)"
    and b: "bootstrapVerifierStateFromST (hd xs) = Ret v" "int64_ok (vs_NextFreeNode v)"
    and v0: "vrep G v0 op" "verifier_TopRoot G v0 = Ret (StorageRoot (ut_OldValue u))"
  shows "(let op' = track_run G slot_writes slot_writes op (st_traces xs) in
        (\<exists>v'. vrep G v' op' \<and> verifier_TopRoot G v' = Ret (StorageRoot (ut_NewValue u)))
        \<and> spec_run G slot_writes slot_writes (bindings op) (map trace_op (st_traces xs)) = Some (bindings op'))
    \<or> top_break G v0 v \<or> run_break G slot_writes slot_writes op (st_traces xs)"
proof -
  from ok ne u obtain old new where s: "checkSpliceST G xs = Ret (old, new)"
    and e: "old = StorageRoot (ut_OldValue u)" "new = StorageRoot (ut_NewValue u)"
    by (auto simp: splice_check_def go_simps split: if_splits)
  from checkSpliceST_run [OF s st b(1)] obtain v' where
    r: "verifier_TopRoot G v = Ret old" "verifier_run G slot_writes slot_writes v (st_traces xs) = Ret v'"
      "verifier_TopRoot G v' = Ret new" by blast
  from felt.committed_run [OF G v0 r(1) [unfolded e] b(2) r(2) wf] r(3) e show ?thesis unfolding Let_def by blast
qed

section \<open>Accounts that start from the empty storage\<close>

lemma TopRoot_VerifierState: "TopRoot G p = verifier_TopRoot G (VerifierState_of p)"
  by (simp add: TopRoot_def TopRoot_of_def verifier_TopRoot_def VerifierState_of_def SubTreeRoot_def MustBytesToKoalaOctuplet_def)

lemma EmptyStorageTrieHash_commits:
  assumes "felt G" and "EmptyStorageTrieHash G = Ret r"
  shows "\<exists>p. NewStorageTrie G (replicate 20 0) = Ret p \<and> vrep G (VerifierState_of p) (links_of p)
    \<and> bindings (links_of p) = {} \<and> verifier_TopRoot G (VerifierState_of p) = Ret r"
proof -
  from assms(2) obtain p where p: "NewStorageTrie G (replicate 20 0) = Ret p" "TopRoot G p = Ret r"
    by (auto simp: EmptyStorageTrieHash_def go_simps)
  from felt.init_complete [OF assms(1), of slot_writes slot_writes "HexEncodeToString (replicate 20 0)" "replicate 32 0" "replicate 32 0"] p(1)
  have "acc_inv G slot_writes slot_writes p" "bindings (links_of p) = {}" by (auto simp: NewStorageTrie_def)
  with acc_inv_vrep [of G slot_writes slot_writes p] p show ?thesis unfolding TopRoot_VerifierState by blast
qed

lemma created_sound:
  assumes G: "felt G" and ok: "splice_check G xs t = Ret ()" and u: "dec_Underlying t = WS (TInsert u)" and ne: "xs \<noteq> []"
    and st: "list_all (\<lambda>t. decoded_ok t \<and> \<not> isWorldState t) xs"
    and wf: "list_all trace_wf (st_traces xs)" "list_all (inner_opening G) (st_traces xs)"
    and b: "bootstrapVerifierStateFromST (hd xs) = Ret v" "int64_ok (vs_NextFreeNode v)"
  shows "case NewStorageTrie G (replicate 20 0) of
      Ret p0 \<Rightarrow> (let op' = track_run G slot_writes slot_writes (links_of p0) (st_traces xs) in
          (\<exists>v'. vrep G v' op' \<and> verifier_TopRoot G v' = Ret (StorageRoot (it_Val u)))
          \<and> spec_run G slot_writes slot_writes {} (map trace_op (st_traces xs)) = Some (bindings op'))
        \<or> top_break G (VerifierState_of p0) v \<or> run_break G slot_writes slot_writes (links_of p0) (st_traces xs)
    | _ \<Rightarrow> False"
proof -
  from ok ne u obtain old new where s: "checkSpliceST G xs = Ret (old, new)"
    and e: "EmptyStorageTrieHash G = Ret old" "new = StorageRoot (it_Val u)"
    by (auto simp: splice_check_def ZKHASH_EMPTY_STORAGE_def go_simps split: if_splits)
  from checkSpliceST_run [OF s st b(1)] obtain v' where
    r: "verifier_TopRoot G v = Ret old" "verifier_run G slot_writes slot_writes v (st_traces xs) = Ret v'"
      "verifier_TopRoot G v' = Ret new" by blast
  from EmptyStorageTrieHash_commits [OF G e(1)] obtain p0 where
    p0: "NewStorageTrie G (replicate 20 0) = Ret p0" "vrep G (VerifierState_of p0) (links_of p0)" "bindings (links_of p0) = {}"
      "verifier_TopRoot G (VerifierState_of p0) = Ret old" by blast
  from felt.committed_run [OF G p0(2,4) r(1) b(2) r(2) wf] r(3) e p0(1,3) show ?thesis unfolding Let_def by auto
qed

section \<open>A concrete block\<close>

context felt
begin

lemma hash_padded:
  assumes "length a mod 2 = 0"
  shows "hash G [left_pad_pairs a] = sum_loop G (oct_zero G) (pad_elems G a)"
  using Write_elements [of "NewMDHasher G" "pad_elems G a"] pad_elems_bytes [OF assms]
  by (simp add: hash_def hash_run_def SumElement_def Let_def WriteElements_def NewMDHasher_def)

end

definition wit_addr :: bytes where
  "wit_addr = replicate 19 0 @ [1]"

lemma wit_addr_pairs: "address_writes wit_addr = [left_pad_pairs wit_addr]"
  by (simp add: address_writes_def EthAddress_WriteTo_def LeftPadded_def wit_addr_def)

lemma wit_canonical: "the (felt_set_canonical wit_G [0, 0, 0, 0]) = koala_of_nat 0" "the (felt_set_canonical wit_G [0, 0, 0, 1]) = koala_of_nat 1"
  by (simp_all add: wit_G_def koala_ops_def be_nat_def)

lemma wit_addr_elems: "pad_elems wit_G wit_addr = replicate 9 (koala_of_nat 0) @ [koala_of_nat 1]"
  by (simp add: wit_addr_def numeral_eq_Suc) (simp add: wit_canonical)

lemma wit_addr_hash: "hash wit_G (address_writes wit_addr)
    = (let z = koala_of_nat 0 in Oct z z z z z z z (koala_of_nat 1))"
proof -
  have "length wit_addr mod 2 = 0" by (simp add: wit_addr_def)
  then have "hash wit_G (address_writes wit_addr)
      = sum_loop wit_G (oct_zero wit_G) (replicate 9 (koala_of_nat 0) @ [koala_of_nat 1])"
    unfolding wit_addr_pairs by (simp add: felt.hash_padded [OF wit_felt] wit_addr_elems)
  also have "\<dots> = (let z = koala_of_nat 0 in Oct z z z z z z z (koala_of_nat 1))"
    by (simp add: sum_loop.simps oct_of_list_def numeral_eq_Suc)
      (simp add: wit_G_def koala_ops_def wit_compress_def Let_def koala_neq)
  finally show ?thesis .
qed

lemma wit_addr_inner: "hash wit_G (address_writes wit_addr) \<noteq> oct_zero wit_G" "hash wit_G (address_writes wit_addr) \<noteq> MaxKoalaOctuplet wit_G"
  unfolding wit_zero wit_addr_hash by (simp_all add: MaxKoalaOctuplet_def wit_G_def koala_ops_def Let_def koala_neq)

definition wit_slot :: bytes where
  "wit_slot = replicate 31 0 @ [1]"

lemma wit_slot_pairs: "slot_writes wit_slot = [left_pad_pairs wit_slot]"
  by (simp add: slot_writes_def FullBytes32_WriteTo_def LeftPadded_def wit_slot_def)

lemma wit_slot_elems: "pad_elems wit_G wit_slot = replicate 15 (koala_of_nat 0) @ [koala_of_nat 1]"
  by (simp add: wit_slot_def numeral_eq_Suc) (simp add: wit_canonical)

lemma wit_slot_hash: "hash wit_G (slot_writes wit_slot)
    = (let z = koala_of_nat 0 in Oct z z z z z z z (koala_of_nat 1))"
proof -
  have "length wit_slot mod 2 = 0" by (simp add: wit_slot_def)
  then have "hash wit_G (slot_writes wit_slot)
      = sum_loop wit_G (oct_zero wit_G) (replicate 15 (koala_of_nat 0) @ [koala_of_nat 1])"
    unfolding wit_slot_pairs by (simp add: felt.hash_padded [OF wit_felt] wit_slot_elems)
  also have "\<dots> = (let z = koala_of_nat 0 in Oct z z z z z z z (koala_of_nat 1))"
    by (simp add: sum_loop.simps oct_of_list_def numeral_eq_Suc)
      (simp add: wit_G_def koala_ops_def wit_compress_def Let_def koala_neq)
  finally show ?thesis .
qed

lemma wit_slot_inner: "hash wit_G (slot_writes wit_slot) \<noteq> oct_zero wit_G" "hash wit_G (slot_writes wit_slot) \<noteq> MaxKoalaOctuplet wit_G"
  unfolding wit_zero wit_slot_hash by (simp_all add: MaxKoalaOctuplet_def wit_G_def koala_ops_def Let_def koala_neq)

lemma wit_zero_slot: "hash wit_G (slot_writes (replicate 32 0)) = wit_one"
proof -
  have "pad_elems wit_G (replicate 32 0) = replicate 16 (koala_of_nat 0)"
    by (simp add: numeral_eq_Suc) (simp add: wit_canonical)
  moreover have "slot_writes (replicate 32 0) = [left_pad_pairs (replicate 32 0)]"
    by (simp add: slot_writes_def FullBytes32_WriteTo_def LeftPadded_def)
  ultimately have "hash wit_G (slot_writes (replicate 32 0)) = sum_loop wit_G (oct_zero wit_G) (replicate 16 (koala_of_nat 0))"
    by (simp add: felt.hash_padded [OF wit_felt])
  also have "\<dots> = wit_one"
    by (simp add: sum_loop.simps oct_of_list_def numeral_eq_Suc)
      (simp add: wit_G_def koala_ops_def wit_compress_def Let_def)
  finally show ?thesis .
qed

lemma wit_hash_nz: "hash wit_G (slot_writes (replicate 32 0)) \<noteq> oct_zero wit_G"
  unfolding wit_zero_slot wit_zero by (simp add: wit_one_def Let_def koala_neq)

lemma wit_hash_neq: "hash wit_G (slot_writes wit_slot) \<noteq> hash wit_G (slot_writes (replicate 32 0))"
  unfolding wit_zero_slot wit_slot_hash by (simp add: wit_one_def Let_def koala_neq)

lemma wit_insert:
  assumes k: "hash wit_G (wk k) \<noteq> oct_zero wit_G" "hash wit_G (wk k) \<noteq> MaxKoalaOctuplet wit_G"
  shows "\<exists>p p' t. InitializeProverState wit_G zk zv loc = Ret p \<and> acc_inv wit_G wk wv p \<and> acc_inv wit_G wk wv p'
    \<and> bindings (links_of p) = {} \<and> it_Key t = k \<and> it_Val t = v \<and> it_Location t = loc
    \<and> bootstrap_fields (TInsert t) = (vs_NextFreeNode (VerifierState_of p), vs_SubTreeRoot (VerifierState_of p))
    \<and> ps_Location p = loc \<and> trace_wf (TInsert t)
    \<and> VerifyInsertion wit_G wk wv (VerifierState_of p) t = Ret (VerifierState_of p', None)"
proof -
  obtain p where p: "InitializeProverState wit_G zk zv loc = Ret p" "acc_inv wit_G wk wv p" "bindings (links_of p) = {}"
    "ps_Location p = loc" "ps_NextFreeNode p = 2"
    using wit_ret [OF felt.init_complete [OF wit_felt, of wk wv loc zk zv]] by blast
  have "spec_step wit_G wk wv (bindings (links_of p)) (OInsert k v) = Some {(hash wit_G (wk k), hash wit_G (wv v))}"
    by (simp add: spec_step_def Let_def has_key_def p(3))
  from wit_ret [OF felt.step_complete [OF wit_felt p(2) _ _ _ _ _ this, of "\<lambda>l. l" "\<lambda>l. l"]] k
  obtain p' u where s: "prover_step wit_G wk wv (\<lambda>l. l) (\<lambda>l. l) p (OInsert k v) = Ret (p', u)" "acc_inv wit_G wk wv p'"
    "trace_wf u" "verifier_step wit_G wk wv (VerifierState_of p) u = Ret (VerifierState_of p')"
    by (auto simp: p(5) DefaultDepth_def simp del: prover_step.simps verifier_step.simps)
  from s(1) obtain t where t: "u = TInsert t" "InsertAndProve wit_G wk wv (\<lambda>l. l) (\<lambda>l. l) p k v = Ret (p', t)"
    by (auto simp: go_simps)
  have f: "it_Key t = k" "it_Val t = v" "it_Location t = ps_Location p" "it_OldSubRoot t = SubTreeRoot p"
    "it_NewNextFreeNode t = i64 (ps_NextFreeNode p + 1)"
    using t(2) by (auto simp: InsertAndProve_def go_simps Let_def split: if_splits)
  have "VerifyInsertion wit_G wk wv (VerifierState_of p) t = Ret (VerifierState_of p', None)"
    using s(4) by (auto simp: t(1) go_simps split: option.splits)
  moreover have "i64 2 = 2" "i64 3 = 3" by (simp_all add: i64_def)
  ultimately show ?thesis using p s f t(1)
    by (intro exI [of _ p] exI [of _ p'] exI [of _ t]) (simp add: VerifierState_of_def SubTreeRoot_def)
qed

text \<open>
  An update of a slot, with Merkle proofs of no siblings: the verifier does not compare the number
  of siblings with the depth of the tree, and the root of such a proof is the leaf itself.
\<close>

lemma wit_last_block:
  assumes "length xs mod 8 = 0" and "o1 \<noteq> oct_zero wit_G"
  shows "sum_loop wit_G s (xs @ oct_list o1) = o1"
proof -
  have "sum_loop wit_G s (xs @ oct_list o1) = compress_p2 wit_G (sum_loop wit_G s xs) o1"
    by (simp add: sum_loop_append [OF assms(1)])
  also have "\<dots> = o1" using assms(2) unfolding wit_zero by (simp add: wit_G_def koala_ops_def wit_compress_def)
  finally show ?thesis .
qed

lemma wit_leaf_Hash: "HVal l \<noteq> oct_zero wit_G \<Longrightarrow> leaf_Hash wit_G l = HVal l"
  using wit_last_block [of "int64_elems wit_G (Prev l) @ int64_elems wit_G (Next l) @ oct_list (HKey l)" "HVal l" "oct_zero wit_G"]
  by (simp add: felt.leaf_Hash_eq [OF wit_felt] leaf_elems_def felt.int64_elems_bytes [OF wit_felt])

lemma wit_TopRoot: "vs_SubTreeRoot v \<noteq> oct_zero wit_G \<Longrightarrow> verifier_TopRoot wit_G v = Ret (vs_SubTreeRoot v)"
  using wit_last_block [of "int64_elems wit_G (vs_NextFreeNode v)" "vs_SubTreeRoot v" "oct_zero wit_G"]
  by (simp add: felt.verifier_TopRoot_eq [OF wit_felt] top_elems_def felt.int64_elems_bytes [OF wit_felt])

lemma hex_location: "b \<noteq> [] \<Longrightarrow> HexEncodeToString b \<noteq> WS_LOCATION"
  by (cases b) (simp_all add: HexEncodeToString_def EncodeToString_def WS_LOCATION_def)

text \<open>A storage insertion on the empty storage, with the top roots before and after.\<close>

lemma wit_splice:
  "\<exists>d t v v' op r r'. dec_Underlying d = ST (TInsert t) \<and> dec_Type d = 2 \<and> decoded_ok d \<and> \<not> isWorldState d
    \<and> bootstrapVerifierStateFromST d = Ret v \<and> vrep wit_G v op \<and> bindings op = {} \<and> int64_ok (vs_NextFreeNode v)
    \<and> trace_wf (TInsert t) \<and> verifier_TopRoot wit_G v = Ret r \<and> EmptyStorageTrieHash wit_G = Ret r
    \<and> verifier_run wit_G slot_writes slot_writes v [TInsert t] = Ret v' \<and> verifier_TopRoot wit_G v' = Ret r'
    \<and> checkSpliceST wit_G [d] = Ret (r, r')"
proof -
  let ?z = "replicate 32 (0 :: byte)" and ?loc = "HexEncodeToString (replicate 20 0)"
  obtain p p' :: "koala StorageTrie" and t where p: "InitializeProverState wit_G ?z ?z ?loc = Ret p"
    "acc_inv wit_G slot_writes slot_writes p" "bindings (links_of p) = {}"
    and f: "ps_Location p = ?loc"
      "bootstrap_fields (TInsert t) = (vs_NextFreeNode (VerifierState_of p), vs_SubTreeRoot (VerifierState_of p))"
    and t: "trace_wf (TInsert t)" "VerifyInsertion wit_G slot_writes slot_writes (VerifierState_of p) t
        = Ret (VerifierState_of p', None)"
    using wit_insert [where wk = slot_writes and k = wit_slot and loc = ?loc and v = ?z and zk = ?z
        and zv = ?z and wv = slot_writes, OF wit_slot_inner] by blast
  define d where "d = \<lparr>dec_Location = ?loc, dec_Type = 2, dec_Underlying = ST (TInsert t), dec_IsSkipped = False\<rparr>"
  let ?v = "VerifierState_of p"
  have nw: "\<not> isWorldState d"
    using hex_location [of "replicate 20 0"] by (simp add: d_def isWorldState_def)
  have d: "dec_Underlying d = ST (TInsert t)" "dec_Type d = 2" "decoded_ok d"
    using nw unfolding decoded_ok_def by (simp_all add: d_def exI [of _ KInsertion])
  have b: "bootstrapVerifierStateFromST d = Ret ?v"
    using f(2) by (simp add: bootstrapVerifierStateFromST_def d) (simp add: VerifierState_of_def f(1) d_def)
  obtain r r' where top: "verifier_TopRoot wit_G ?v = Ret r" "verifier_TopRoot wit_G (VerifierState_of p') = Ret r'"
    using felt.verifier_TopRoot_eq [OF wit_felt] by blast
  have "checkSpliceST wit_G [d] = Ret (r, r')" using t(2) by (simp add: checkSpliceST_def b top d)
  moreover have "EmptyStorageTrieHash wit_G = Ret r"
    by (simp add: EmptyStorageTrieHash_def NewStorageTrie_def p(1) TopRoot_VerifierState top)
  ultimately show ?thesis using nw d b top t p(3) acc_inv_vrep [OF p(2)] felt.vrep_int64 [OF wit_felt acc_inv_vrep [OF p(2)]]
    by (intro exI [of _ d] exI [of _ t] exI [of _ ?v] exI [of _ "VerifierState_of p'"] exI [of _ "links_of p"]
        exI [of _ r] exI [of _ r']) simp
qed

lemma wit_write:
  "\<exists>d t :: koala DecodedTrace. \<exists>old new. list_all (\<lambda>t. decoded_ok t \<and> \<not> isWorldState t) [d] \<and> decoded_ok t
    \<and> dtype t = WSType KReadNonZero \<and> checkSpliceST wit_G [d] = Ret (old, new) \<and> old \<noteq> new"
proof -
  let ?loc = "HexEncodeToString wit_addr" and ?h = "hash wit_G (slot_writes wit_slot)"
  let ?new = "hash wit_G (slot_writes (replicate 32 0))"
  define l where "l = \<lparr>Prev = 0, Next = 1, HKey = ?h, HVal = ?h\<rparr>"
  define u where "u = \<lparr>ut_Type = 3, ut_Location = ?loc, ut_Key = wit_slot, ut_OldValue = wit_slot,
    ut_NewValue = replicate 32 0, ut_NewNextFreeNode = 3, ut_OldSubRoot = ?h, ut_NewSubRoot = ?new,
    ut_OldOpening = l, ut_Proof = \<lparr>Path = 0, Siblings = []\<rparr>\<rparr>"
  define d where "d = \<lparr>dec_Location = ?loc, dec_Type = 3, dec_Underlying = ST (TUpdate u), dec_IsSkipped = False\<rparr>"
  have nz: "?h \<noteq> oct_zero wit_G" "?new \<noteq> oct_zero wit_G" using wit_slot_inner(1) wit_hash_nz by blast+
  have lh: "leaf_Hash wit_G l = ?h" "leaf_Hash wit_G (l\<lparr>HVal := ?new\<rparr>) = ?new"
    using nz by (simp_all add: wit_leaf_Hash l_def)
  have c: "CheckAndLeaf wit_G slot_writes slot_writes \<lparr>Opening = l, Key = wit_slot, Value = wit_slot\<rparr> = Ret ?h"
    using lh(1) wit_slot_inner by (simp add: CheckAndLeaf_def HeadOrTail_iff l_def)
  have p: "Verify wit_G \<lparr>Path = 0, Siblings = []\<rparr> r r = Ret ()" "RecoverRoot wit_G \<lparr>Path = 0, Siblings = []\<rparr> r = Ret r" for r
    by (simp_all add: Verify_def RecoverRoot_def list.rel_refl)
  let ?v = "\<lparr>vs_Location = ?loc, vs_NextFreeNode = 3, vs_SubTreeRoot = ?h\<rparr>"
  have v: "UpdateVerify wit_G slot_writes slot_writes ?v u = Ret (?v\<lparr>vs_SubTreeRoot := ?new\<rparr>)"
    using lh(2) by (simp add: UpdateVerify_def u_def Let_def c p updateCheckRoot_def on_err_def)
  have b: "bootstrapVerifierStateFromST d = Ret ?v" by (simp add: bootstrapVerifierStateFromST_def d_def u_def)
  have s: "checkSpliceST wit_G [d] = Ret (?h, ?new)"
    using v b nz by (simp add: checkSpliceST_def wit_TopRoot d_def)
  have "wit_addr \<noteq> []" by (simp add: wit_addr_def)
  then have "decoded_ok d \<and> \<not> isWorldState d"
    using hex_location [of wit_addr] by (simp add: d_def isWorldState_def decoded_ok_def)
  moreover obtain t :: "koala DecodedTrace" where "decoded_ok t" "dtype t = WSType KReadNonZero"
    by (rule that [of "\<lparr>dec_Location = WS_LOCATION, dec_Type = 0, dec_Underlying = WS (TReadNonZero z), dec_IsSkipped = False\<rparr>" for z])
      (auto simp: decoded_ok_def isWorldState_def intro: exI [of _ KReadNonZero])
  ultimately show ?thesis using s wit_hash_neq by (intro exI [of _ d] exI [of _ t] exI [of _ ?h] exI [of _ ?new]) simp
qed

text \<open>A block of one trace, the insertion of an account into the empty state.\<close>

lemma wit_block:
  "\<exists>d t v op old new. dec_Underlying d = WS (TInsert t) \<and> isWorldState d \<and> decoded_ok d \<and> trace_wf (TInsert t)
    \<and> bootstrapVerifierStateFromWS d = Ret v \<and> int64_ok (vs_NextFreeNode v) \<and> vrep wit_G v op
    \<and> verifier_TopRoot wit_G v = Ret old \<and> CheckTraces wit_G [d] = Ret (old, new)"
proof -
  let ?a = "Account_zero wit_G"
  obtain p p' :: "koala AccountTrie" and t where p: "acc_inv wit_G address_writes (account_writes wit_G) p"
    and f: "it_Location t = WS_LOCATION" "it_Key t = wit_addr" "ps_Location p = WS_LOCATION"
      "bootstrap_fields (TInsert t) = (vs_NextFreeNode (VerifierState_of p), vs_SubTreeRoot (VerifierState_of p))"
    and t: "trace_wf (TInsert t)" "VerifyInsertion wit_G address_writes (account_writes wit_G) (VerifierState_of p) t
        = Ret (VerifierState_of p', None)"
    using wit_insert [where wk = address_writes and k = wit_addr and loc = WS_LOCATION and v = ?a and zk = "replicate 20 0"
        and zv = ?a and wv = "account_writes wit_G", OF wit_addr_inner] by blast
  define d where "d = \<lparr>dec_Location = WS_LOCATION, dec_Type = 2, dec_Underlying = WS (TInsert t), dec_IsSkipped = False\<rparr>"
  let ?v = "VerifierState_of p"
  have d: "isWorldState d" "dec_Underlying d = WS (TInsert t)" "dec_Location d = WS_LOCATION"
    by (simp_all add: d_def isWorldState_def)
  have b: "bootstrapVerifierStateFromWS d = Ret ?v"
    using f(4) by (simp add: bootstrapVerifierStateFromWS_def d) (simp add: VerifierState_of_def f(3))
  obtain r r' where top: "verifier_TopRoot wit_G ?v = Ret r" "verifier_TopRoot wit_G (VerifierState_of p') = Ret r'"
    using felt.verifier_TopRoot_eq [OF wit_felt] by blast
  have "CheckTraces wit_G [d] = Ret (r, r')"
    using t(2) by (simp add: CheckTraces_def GetRelatedAccount_def d inspectPattern_def keep_slice_def
        isMissingAccRead_def isAccCreation_def checkProofsForAccount_def checkProofsWorldState_def b top account_order_def)
  moreover have "decoded_ok d" using d by (auto simp: decoded_ok_def d_def intro: exI [of _ KInsertion])
  ultimately show ?thesis
    using b t(1) acc_inv_vrep [OF p] top(1) felt.vrep_int64 [OF wit_felt acc_inv_vrep [OF p]] d by blast
qed

section \<open>Properties\<close>

text \<open>
  C3: Soundness of a block. Let \<^verbatim>\<open>CheckTraces\<close> accept the traces of a block and return the state roots
  \<open>old\<close> and \<open>new\<close>, and let \<open>old\<close> commit to the accumulator of accounts \<open>op\<close>. Assume what the code does not
  check: every Merkle proof of an account trace has 40 siblings, the positions and the next free node
  fit in \<^verbatim>\<open>int64\<close>, and no update or read opens the head or the tail leaf. Then the account accesses
  are ordered by hashed address, are all possible on the contents of \<open>op\<close> (insertions of absent
  accounts, updates, deletions and reads of present ones), and \<open>new\<close> commits to the accumulator that
  they lead to; or the first verifier state collides with the committed one in the hash of the top
  root, or one of the traces exhibits a collision in the accumulator reached before it.
\<close>

theorem check_traces_sound:
  assumes "felt G" and "CheckTraces G ts = Ret (old, new)" and "wts = filter isWorldState ts"
    and "list_all trace_wf (ws_traces wts)" and "list_all (inner_opening G) (ws_traces wts)"
    and "bootstrapVerifierStateFromWS (hd wts) = Ret v" and "int64_ok (vs_NextFreeNode v)"
    and "vrep G v0 op" and "verifier_TopRoot G v0 = Ret old"
  shows "(let op' = track_run G address_writes (account_writes G) op (ws_traces wts) in
        (\<exists>v'. vrep G v' op' \<and> verifier_TopRoot G v' = Ret new) \<and> hkeys_sorted G (ws_traces wts)
        \<and> spec_run G address_writes (account_writes G) (bindings op) (map trace_op (ws_traces wts)) = Some (bindings op'))
    \<or> top_break G v0 v \<or> run_break G address_writes (account_writes G) op (ws_traces wts)"
  using assms by (rule block_sound)

theorem check_traces_sound_witness:
  "\<exists>ts old new v op. CheckTraces wit_G ts = Ret (old, new) \<and> ts \<noteq> [] \<and> vrep wit_G v op \<and> verifier_TopRoot wit_G v = Ret old
    \<and> ((let op' = track_run wit_G address_writes (account_writes wit_G) op (ws_traces ts) in
          (\<exists>v'. vrep wit_G v' op' \<and> verifier_TopRoot wit_G v' = Ret new)
          \<and> spec_run wit_G address_writes (account_writes wit_G) (bindings op) (map trace_op (ws_traces ts)) = Some (bindings op'))
       \<or> top_break wit_G v v \<or> run_break wit_G address_writes (account_writes wit_G) op (ws_traces ts))"
proof -
  obtain d t v op r r' where w: "dec_Underlying d = WS (TInsert t)" "isWorldState d" "trace_wf (TInsert t)"
    "bootstrapVerifierStateFromWS d = Ret v" "int64_ok (vs_NextFreeNode v)" "vrep wit_G v op"
    "verifier_TopRoot wit_G v = Ret r" "CheckTraces wit_G [d] = Ret (r, r')"
    using wit_block by blast
  let ?ts = "ws_traces [d]"
  have f: "filter isWorldState [d] = [d]" "hd [d] = d" using w(2) by simp_all
  have "list_all trace_wf ?ts" "list_all (inner_opening wit_G) ?ts" using w(1,3) by auto
  from check_traces_sound [OF wit_felt w(8) f(1) [symmetric] this _ w(5-7)] w(4)
  have "(let op' = track_run wit_G address_writes (account_writes wit_G) op ?ts in
        (\<exists>v'. vrep wit_G v' op' \<and> verifier_TopRoot wit_G v' = Ret r') \<and> hkeys_sorted wit_G ?ts
        \<and> spec_run wit_G address_writes (account_writes wit_G) (bindings op) (map trace_op ?ts) = Some (bindings op'))
      \<or> top_break wit_G v v \<or> run_break wit_G address_writes (account_writes wit_G) op ?ts" by simp
  with w(6-8) show ?thesis unfolding Let_def by blast
qed

text \<open>
  C9: Soundness of the storage accesses of an updated account. Let the non-empty storage accesses \<open>xs\<close>, typed as the decoder
  types them and closed by the update of an account, pass the check, and let the storage root of the old record commit to the
  accumulator \<open>op\<close>. Assume that every Merkle proof has 40 siblings, that the positions and the next free
  node fit in \<^verbatim>\<open>int64\<close>, and that no update or read opens the head or the tail leaf. Then the accesses
  are all possible on the contents of \<open>op\<close> and the storage root of the new record commits to the
  accumulator that they lead to; or the first verifier state collides with the committed one in the
  hash of the top root, or one of the traces exhibits a collision in the accumulator reached before it.
\<close>

theorem storage_splice_sound:
  assumes "felt G" and "splice_check G xs t = Ret ()" and "dec_Underlying t = WS (TUpdate u)" and "xs \<noteq> []"
    and "list_all (\<lambda>t. decoded_ok t \<and> \<not> isWorldState t) xs"
    and "list_all trace_wf (st_traces xs)" and "list_all (inner_opening G) (st_traces xs)"
    and "bootstrapVerifierStateFromST (hd xs) = Ret v" and "int64_ok (vs_NextFreeNode v)"
    and "vrep G v0 op" and "verifier_TopRoot G v0 = Ret (StorageRoot (ut_OldValue u))"
  shows "(let op' = track_run G slot_writes slot_writes op (st_traces xs) in
        (\<exists>v'. vrep G v' op' \<and> verifier_TopRoot G v' = Ret (StorageRoot (ut_NewValue u)))
        \<and> spec_run G slot_writes slot_writes (bindings op) (map trace_op (st_traces xs)) = Some (bindings op'))
    \<or> top_break G v0 v \<or> run_break G slot_writes slot_writes op (st_traces xs)"
  using assms by (rule splice_sound)

theorem storage_splice_sound_witness:
  "\<exists>xs t u v op. splice_check wit_G xs t = Ret () \<and> dec_Underlying t = WS (TUpdate u) \<and> vrep wit_G v op
    \<and> ((let op' = track_run wit_G slot_writes slot_writes op (st_traces xs) in
          (\<exists>v'. vrep wit_G v' op' \<and> verifier_TopRoot wit_G v' = Ret (StorageRoot (ut_NewValue u)))
          \<and> spec_run wit_G slot_writes slot_writes (bindings op) (map trace_op (st_traces xs)) = Some (bindings op'))
       \<or> top_break wit_G v v \<or> run_break wit_G slot_writes slot_writes op (st_traces xs))"
proof -
  obtain d t v op r r' where w: "dec_Underlying d = ST (TInsert t)" "decoded_ok d" "\<not> isWorldState d"
    "bootstrapVerifierStateFromST d = Ret v" "vrep wit_G v op" "int64_ok (vs_NextFreeNode v)"
    "trace_wf (TInsert t)" "verifier_TopRoot wit_G v = Ret r" "checkSpliceST wit_G [d] = Ret (r, r')"
    using wit_splice by metis
  obtain u :: "(koala, bytes, koala Account) UpdateTrace" where
    u: "StorageRoot (ut_OldValue u) = r" "StorageRoot (ut_NewValue u) = r'"
    by (metis Account.select_convs(3) UpdateTrace.select_convs(4) UpdateTrace.select_convs(5))
  define c where "c = \<lparr>dec_Location = WS_LOCATION, dec_Type = 3, dec_Underlying = WS (TUpdate u), dec_IsSkipped = False\<rparr>"
  have c: "dec_Underlying c = WS (TUpdate u)" by (simp add: c_def)
  have s: "splice_check wit_G [d] c = Ret ()" using w(9) u by (simp add: splice_check_def c)
  have "verifier_TopRoot wit_G v = Ret (StorageRoot (ut_OldValue u))" using w(8) u(1) by simp
  from storage_splice_sound [OF wit_felt s c _ _ _ _ _ w(6,5) this] s c w show ?thesis
    by (intro exI [of _ "[d]"] exI [of _ c] exI [of _ u] exI [of _ v] exI [of _ op]) auto
qed

text \<open>
  C10: Soundness of the storage accesses of a created account. Let the non-empty storage accesses \<open>xs\<close>,
  typed as the decoder types them and closed by the insertion of an account, pass the check. Assume that every Merkle proof has 40 siblings, that the
  positions and the next free node fit in \<^verbatim>\<open>int64\<close>, and that no update or read opens the head or the
  tail leaf. Then the empty storage trie \<open>p0\<close> that the code builds exists, the accesses are all possible
  from no contents, and the storage root of the inserted record commits to the accumulator that they
  lead to from \<open>p0\<close>; or the first verifier state collides with that of \<open>p0\<close> in the hash of the top root,
  or one of the traces exhibits a collision in the accumulator reached before it.
\<close>

theorem created_storage_sound:
  assumes "felt G" and "splice_check G xs t = Ret ()" and "dec_Underlying t = WS (TInsert u)" and "xs \<noteq> []"
    and "list_all (\<lambda>t. decoded_ok t \<and> \<not> isWorldState t) xs"
    and "list_all trace_wf (st_traces xs)" and "list_all (inner_opening G) (st_traces xs)"
    and "bootstrapVerifierStateFromST (hd xs) = Ret v" and "int64_ok (vs_NextFreeNode v)"
  shows "case NewStorageTrie G (replicate 20 0) of
      Ret p0 \<Rightarrow> (let op' = track_run G slot_writes slot_writes (links_of p0) (st_traces xs) in
          (\<exists>v'. vrep G v' op' \<and> verifier_TopRoot G v' = Ret (StorageRoot (it_Val u)))
          \<and> spec_run G slot_writes slot_writes {} (map trace_op (st_traces xs)) = Some (bindings op'))
        \<or> top_break G (VerifierState_of p0) v \<or> run_break G slot_writes slot_writes (links_of p0) (st_traces xs)
    | _ \<Rightarrow> False"
  using assms by (rule created_sound)

theorem created_storage_sound_witness:
  "\<exists>xs t u v. splice_check wit_G xs t = Ret () \<and> dec_Underlying t = WS (TInsert u)
    \<and> (case NewStorageTrie wit_G (replicate 20 0) of
        Ret p0 \<Rightarrow> (let op' = track_run wit_G slot_writes slot_writes (links_of p0) (st_traces xs) in
            (\<exists>v'. vrep wit_G v' op' \<and> verifier_TopRoot wit_G v' = Ret (StorageRoot (it_Val u)))
            \<and> spec_run wit_G slot_writes slot_writes {} (map trace_op (st_traces xs)) = Some (bindings op'))
          \<or> top_break wit_G (VerifierState_of p0) v \<or> run_break wit_G slot_writes slot_writes (links_of p0) (st_traces xs)
      | _ \<Rightarrow> False)"
proof -
  obtain d t v r r' where w: "dec_Underlying d = ST (TInsert t)" "decoded_ok d" "\<not> isWorldState d"
    "bootstrapVerifierStateFromST d = Ret v" "int64_ok (vs_NextFreeNode v)"
    "trace_wf (TInsert t)" "EmptyStorageTrieHash wit_G = Ret r" "checkSpliceST wit_G [d] = Ret (r, r')"
    using wit_splice by metis
  obtain u :: "(koala, bytes, koala Account) InsertionTrace" where u: "StorageRoot (it_Val u) = r'"
    by (rule that [of "t0\<lparr>it_Val := (Account_zero wit_G)\<lparr>StorageRoot := r'\<rparr>\<rparr>" for t0]) simp
  define c where "c = \<lparr>dec_Location = WS_LOCATION, dec_Type = 2, dec_Underlying = WS (TInsert u), dec_IsSkipped = False\<rparr>"
  have c: "dec_Underlying c = WS (TInsert u)" by (simp add: c_def)
  have s: "splice_check wit_G [d] c = Ret ()" using w(7,8) u by (simp add: splice_check_def c ZKHASH_EMPTY_STORAGE_def)
  from created_storage_sound [OF wit_felt s c _ _ _ _ _ w(5)] s c w show ?thesis
    by (intro exI [of _ "[d]"] exI [of _ c] exI [of _ u] exI [of _ v]) auto
qed

text \<open>
  C26: The traces of an accepted block are cut, in their order, into non-empty segments of distinct
  accounts. Each segment, up to the rotation that moves a leading account read to its end, is a
  lone read of a missing account, a run of storage accesses closed by one account access, or two
  such runs closed by a deletion and an insertion, and every run of storage accesses was checked
  against the account access that closes it.
\<close>

theorem segments_audited:
  assumes "CheckTraces G ts = Ret (old, new)" and "list_all decoded_ok ts"
  shows "\<exists>segs accs. concat segs = ts \<and> distinct accs
    \<and> list_all2 (\<lambda>seg a. seg \<noteq> [] \<and> list_all (\<lambda>t. GetRelatedAccount t = Ret a) seg) segs accs
    \<and> list_all (\<lambda>seg. segment_checked G seg \<or> segment_checked G (rotate1 seg)) segs"
proof -
  from CheckTraces_parts [OF assms(1)] obtain s accs where i: "dispatch_inv ts accs s"
    and a: "audit_loop G (traceByAccount s) = Ret ()" by blast
  then have c: "concat (traceByAccount s) = ts" by (simp add: dispatch_inv_def)
  with assms(2) have "list_all (list_all decoded_ok) (traceByAccount s)" by (auto simp: list_all_iff)
  from audit_loop_segments [OF a this]
  have "list_all (\<lambda>seg. segment_checked G seg \<or> segment_checked G (rotate1 seg)) (traceByAccount s)"
    unfolding list_all_iff by blast
  then show ?thesis using i c unfolding dispatch_inv_def by blast
qed

theorem segments_audited_witness:
  "\<exists>d old new. CheckTraces wit_G [d] = Ret (old, new) \<and> decoded_ok d
    \<and> (\<exists>segs accs. concat segs = [d] \<and> distinct accs
         \<and> list_all2 (\<lambda>seg a. seg \<noteq> [] \<and> list_all (\<lambda>t. GetRelatedAccount t = Ret a) seg) segs accs
         \<and> list_all (\<lambda>seg. segment_checked wit_G seg \<or> segment_checked wit_G (rotate1 seg)) segs)"
proof -
  obtain d old new where w: "decoded_ok d" "CheckTraces wit_G [d] = Ret (old, new)" using wit_block by blast
  then have "list_all decoded_ok [d]" by simp
  from segments_audited [OF w(2) this] w show ?thesis by blast
qed

text \<open>
  C27: A trace that was decoded from anything but a JSON null has the dynamic type that its type code
  and its location name: an account trace exactly at the location of the world state.
\<close>

theorem decoded_trace_typed:
  assumes "UnmarshalJSON proto jst jws dec data = Ret dec'" and "data \<noteq> ''null''"
  shows "\<exists>k. dec_Type dec' = type_code k
    \<and> dec_Underlying dec' \<noteq> NilTrace \<and> dtype dec' = (if isWorldState dec' then WSType k else STType k)"
  using UnmarshalJSON_ok [OF assms] unfolding decoded_ok_def by (cases "dec_Underlying dec'") (auto split: if_splits)

theorem decoded_trace_typed_witness:
  "\<exists>proto jst jws dec (dec' :: koala DecodedTrace). UnmarshalJSON proto jst jws dec ''{}'' = Ret dec'
    \<and> dtype dec' = WSType KReadZero"
proof -
  let ?proto = "\<lambda>_. Ret (''0x'', 1)"
  obtain jst :: "(koala, bytes, bytes) trace_decoders" where True by blast
  obtain jws :: "(koala, bytes, koala Account) trace_decoders" and z where j: "json_ReadZero jws ''{}'' = Ret z"
    by (rule that [of "j0\<lparr>json_ReadZero := \<lambda>_. Ret z0\<rparr>" z0 for j0 z0]) simp
  obtain dec dec' :: "koala DecodedTrace" where u: "UnmarshalJSON ?proto jst jws dec ''{}'' = Ret dec'"
    and t: "dec_Type dec' = 1" "dec_Location dec' = ''0x''"
    using j by (simp add: UnmarshalJSON_def Let_def)
  from decoded_trace_typed [OF u] obtain k where "dec_Type dec' = type_code k"
    "dtype dec' = (if isWorldState dec' then WSType k else STType k)" by auto
  then have "dtype dec' = WSType KReadZero" using t by (cases k) (auto simp: isWorldState_def WS_LOCATION_def)
  with u show ?thesis by blast
qed

text \<open>
  C35: The order check of the storage accesses accepts exactly the lists in which every access but the
  last two comes before its successor (reads before writes, then by hashed key). The last pair is
  never compared.
\<close>

theorem storage_order_check:
  "checkStorageTraceOrder G ts = Ret () \<longleftrightarrow> (\<forall>i. i + 2 < length ts \<longrightarrow> access_before G (ts ! i) (ts ! Suc i))"
  by (rule checkStorageTraceOrder_iff)

theorem storage_order_check_witness:
  "\<exists>d :: koala DecodedTrace. checkStorageTraceOrder wit_G [d, d] = Ret () \<and> \<not> access_before wit_G d d"
proof -
  obtain d :: "koala DecodedTrace" and t where d: "dec_Underlying d = ST (TInsert t)" using wit_splice by blast
  have "Cmp wit_G a a = 0" for a using felt.Cmp_eq [OF wit_felt, of a a] by simp
  then have "\<not> access_before wit_G d d" by (simp add: access_before_def d)
  moreover have "checkStorageTraceOrder wit_G [d, d] = Ret ()" using storage_order_check [of wit_G "[d, d]"] by simp
  ultimately show ?thesis by blast
qed

text \<open>
  C36: Storage writes in a segment that an account read closes are not reported as an error of the
  pattern: the segment is accepted by the inspection, because the whitelists of the matchers never
  report, and the verification of its proofs then panics when the writes change the storage root.
\<close>

theorem write_in_read_segment_panics:
  assumes "list_all (\<lambda>t. decoded_ok t \<and> \<not> isWorldState t) xs" and "xs \<noteq> []"
    and "decoded_ok t" and "dtype t = WSType KReadNonZero"
    and "checkStorageTraceOrder G xs = Ret ()" and "checkSpliceST G xs = Ret (old, new)" and "old \<noteq> new"
  shows "inspectPattern G (xs @ [t]) = Ret (xs @ [t])
    \<and> checkProofsForAccount G (xs @ [t]) = Panic ''read but the account state has been updated''"
proof
  have nw: "no_ws xs" "list_all (\<lambda>t. \<exists>k. dtype t = STType k) xs"
    using assms(1) by (auto simp: no_ws_def list_all_iff list_ex_iff decoded_ok_def)
  show "inspectPattern G (xs @ [t]) = Ret (xs @ [t])"
    by (rule inspectPattern_read [OF assms(2) nw assms(4,5)])
  from assms(4) obtain z where "dec_Underlying t = WS (TReadNonZero z)" unfolding kind_dtype by (auto elim: kind_of.elims)
  then show "checkProofsForAccount G (xs @ [t]) = Panic ''read but the account state has been updated''"
    using assms(2,6,7) account_loop_splice [OF nw(1) decoded_ok_WSType [OF assms(3,4)], of G "[]"]
    by (simp add: checkProofsForAccount_def splice_check_def)
qed

theorem write_in_read_segment_panics_witness:
  "\<exists>d t :: koala DecodedTrace. inspectPattern wit_G [d, t] = Ret [d, t]
    \<and> checkProofsForAccount wit_G [d, t] = Panic ''read but the account state has been updated''"
proof -
  obtain d t :: "koala DecodedTrace" and old new where
    "list_all (\<lambda>t. decoded_ok t \<and> \<not> isWorldState t) [d]" "decoded_ok t" "dtype t = WSType KReadNonZero"
    "checkSpliceST wit_G [d] = Ret (old, new)" "old \<noteq> new"
    using wit_write by blast
  moreover have "checkStorageTraceOrder wit_G [d] = Ret ()" by (simp add: checkStorageTraceOrder_def)
  ultimately show ?thesis using write_in_read_segment_panics [of "[d]" t wit_G old new] by (intro exI [of _ d] exI [of _ t]) simp
qed

end
