(* ===== verification/Riscv_Decode.thy ===== *)
theory Riscv_Decode
  imports "HOL-Library.Word" Go_Prelude
begin

text \<open>
  The instruction decoder of the R5 predecoder (\<^verbatim>\<open>arithmetization/gopkg/predecoding/decode.go\<close>): the
  classification of a 32-bit RISC-V instruction word into a \<^verbatim>\<open>compute_op\<close>, and the reassembly of its
  immediates. \<^verbatim>\<open>uint32\<close> and \<^verbatim>\<open>uint64\<close> values are words of these widths; the constants keep their
  names. Packing the records is in \<open>Riscv_Pack\<close>.
\<close>

unbundle bit_operations_syntax

section \<open>Constants\<close>

text \<open>Instruction types and opcodes.\<close>

abbreviation (input) undefinedType :: "32 word" where "undefinedType \<equiv> 0"
abbreviation (input) rType :: "32 word" where "rType \<equiv> 1"
abbreviation (input) iType :: "32 word" where "iType \<equiv> 2"
abbreviation (input) sType :: "32 word" where "sType \<equiv> 3"
abbreviation (input) bType :: "32 word" where "bType \<equiv> 4"
abbreviation (input) uType :: "32 word" where "uType \<equiv> 5"
abbreviation (input) jType :: "32 word" where "jType \<equiv> 6"
abbreviation (input) miscMemType :: "32 word" where "miscMemType \<equiv> 7"

abbreviation (input) opcodeOP :: "32 word" where "opcodeOP \<equiv> 51"
abbreviation (input) opcodeOP32 :: "32 word" where "opcodeOP32 \<equiv> 59"
abbreviation (input) opcodeLOAD :: "32 word" where "opcodeLOAD \<equiv> 3"
abbreviation (input) opcodeOPIMM :: "32 word" where "opcodeOPIMM \<equiv> 19"
abbreviation (input) opcodeOPIMM32 :: "32 word" where "opcodeOPIMM32 \<equiv> 27"
abbreviation (input) opcodeJALR :: "32 word" where "opcodeJALR \<equiv> 103"
abbreviation (input) opcodeSYSTEM :: "32 word" where "opcodeSYSTEM \<equiv> 115"
abbreviation (input) opcodeMISCMEM :: "32 word" where "opcodeMISCMEM \<equiv> 15"
abbreviation (input) opcodeSTORE :: "32 word" where "opcodeSTORE \<equiv> 35"
abbreviation (input) opcodeBRANCH :: "32 word" where "opcodeBRANCH \<equiv> 99"
abbreviation (input) opcodeLUI :: "32 word" where "opcodeLUI \<equiv> 55"
abbreviation (input) opcodeAUIPC :: "32 word" where "opcodeAUIPC \<equiv> 23"
abbreviation (input) opcodeJAL :: "32 word" where "opcodeJAL \<equiv> 111"
abbreviation (input) opcodeCUSTOM1 :: "32 word" where "opcodeCUSTOM1 \<equiv> 43"

text \<open>Local operations of each instruction type.\<close>

abbreviation (input) itypeRead8SgnWB :: "32 word" where "itypeRead8SgnWB \<equiv> 0"
abbreviation (input) itypeRead16SgnWB :: "32 word" where "itypeRead16SgnWB \<equiv> 1"
abbreviation (input) itypeRead32SgnWB :: "32 word" where "itypeRead32SgnWB \<equiv> 2"
abbreviation (input) itypeRead64WB :: "32 word" where "itypeRead64WB \<equiv> 3"
abbreviation (input) itypeRead8ZextWB :: "32 word" where "itypeRead8ZextWB \<equiv> 4"
abbreviation (input) itypeRead16ZextWB :: "32 word" where "itypeRead16ZextWB \<equiv> 5"
abbreviation (input) itypeRead32ZextWB :: "32 word" where "itypeRead32ZextWB \<equiv> 6"
abbreviation (input) itypeOpAddiWB :: "32 word" where "itypeOpAddiWB \<equiv> 7"
abbreviation (input) itypeOpSltiWB :: "32 word" where "itypeOpSltiWB \<equiv> 8"
abbreviation (input) itypeOpSltiuWB :: "32 word" where "itypeOpSltiuWB \<equiv> 9"
abbreviation (input) itypeOpXoriWB :: "32 word" where "itypeOpXoriWB \<equiv> 10"
abbreviation (input) itypeOpOriWB :: "32 word" where "itypeOpOriWB \<equiv> 11"
abbreviation (input) itypeOpAndiWB :: "32 word" where "itypeOpAndiWB \<equiv> 12"
abbreviation (input) itypeOpSlliWB :: "32 word" where "itypeOpSlliWB \<equiv> 13"
abbreviation (input) itypeOpSrliWB :: "32 word" where "itypeOpSrliWB \<equiv> 14"
abbreviation (input) itypeOpSraiWB :: "32 word" where "itypeOpSraiWB \<equiv> 15"
abbreviation (input) itypeOpAddiwWB :: "32 word" where "itypeOpAddiwWB \<equiv> 16"
abbreviation (input) itypeOpSlliwWB :: "32 word" where "itypeOpSlliwWB \<equiv> 17"
abbreviation (input) itypeOpSrliwWB :: "32 word" where "itypeOpSrliwWB \<equiv> 18"
abbreviation (input) itypeOpSraiwWB :: "32 word" where "itypeOpSraiwWB \<equiv> 19"
abbreviation (input) itypeJalr :: "32 word" where "itypeJalr \<equiv> 20"
abbreviation (input) itypeJalrWB :: "32 word" where "itypeJalrWB \<equiv> 21"
abbreviation (input) itypeEcall :: "32 word" where "itypeEcall \<equiv> 22"
abbreviation (input) itypeEbreak :: "32 word" where "itypeEbreak \<equiv> 23"
abbreviation (input) itypeInvalid :: "32 word" where "itypeInvalid \<equiv> 63"

abbreviation (input) rtypeOpAddWB :: "32 word" where "rtypeOpAddWB \<equiv> 0"
abbreviation (input) rtypeOpSubWB :: "32 word" where "rtypeOpSubWB \<equiv> 1"
abbreviation (input) rtypeOpSllWB :: "32 word" where "rtypeOpSllWB \<equiv> 2"
abbreviation (input) rtypeOpSltWB :: "32 word" where "rtypeOpSltWB \<equiv> 3"
abbreviation (input) rtypeOpSltuWB :: "32 word" where "rtypeOpSltuWB \<equiv> 4"
abbreviation (input) rtypeOpXorWB :: "32 word" where "rtypeOpXorWB \<equiv> 5"
abbreviation (input) rtypeOpSrlWB :: "32 word" where "rtypeOpSrlWB \<equiv> 6"
abbreviation (input) rtypeOpSraWB :: "32 word" where "rtypeOpSraWB \<equiv> 7"
abbreviation (input) rtypeOpOrWB :: "32 word" where "rtypeOpOrWB \<equiv> 8"
abbreviation (input) rtypeOpAndWB :: "32 word" where "rtypeOpAndWB \<equiv> 9"
abbreviation (input) rtypeOpMulWB :: "32 word" where "rtypeOpMulWB \<equiv> 10"
abbreviation (input) rtypeOpMulhWB :: "32 word" where "rtypeOpMulhWB \<equiv> 11"
abbreviation (input) rtypeOpMulhsuWB :: "32 word" where "rtypeOpMulhsuWB \<equiv> 12"
abbreviation (input) rtypeOpMulhuWB :: "32 word" where "rtypeOpMulhuWB \<equiv> 13"
abbreviation (input) rtypeOpDivWB :: "32 word" where "rtypeOpDivWB \<equiv> 14"
abbreviation (input) rtypeOpDivuWB :: "32 word" where "rtypeOpDivuWB \<equiv> 15"
abbreviation (input) rtypeOpRemWB :: "32 word" where "rtypeOpRemWB \<equiv> 16"
abbreviation (input) rtypeOpRemuWB :: "32 word" where "rtypeOpRemuWB \<equiv> 17"
abbreviation (input) rtypeOpAddwWB :: "32 word" where "rtypeOpAddwWB \<equiv> 18"
abbreviation (input) rtypeOpSubwWB :: "32 word" where "rtypeOpSubwWB \<equiv> 19"
abbreviation (input) rtypeOpSllwWB :: "32 word" where "rtypeOpSllwWB \<equiv> 20"
abbreviation (input) rtypeOpSrlwWB :: "32 word" where "rtypeOpSrlwWB \<equiv> 21"
abbreviation (input) rtypeOpSrawWB :: "32 word" where "rtypeOpSrawWB \<equiv> 22"
abbreviation (input) rtypeOpMulwWB :: "32 word" where "rtypeOpMulwWB \<equiv> 23"
abbreviation (input) rtypeOpDivwWB :: "32 word" where "rtypeOpDivwWB \<equiv> 24"
abbreviation (input) rtypeOpDivuwWB :: "32 word" where "rtypeOpDivuwWB \<equiv> 25"
abbreviation (input) rtypeOpRemwWB :: "32 word" where "rtypeOpRemwWB \<equiv> 26"
abbreviation (input) rtypeOpRemuwWB :: "32 word" where "rtypeOpRemuwWB \<equiv> 27"
abbreviation (input) rtypeOpKeccak :: "32 word" where "rtypeOpKeccak \<equiv> 28"
abbreviation (input) rtypeOpPoseidon2 :: "32 word" where "rtypeOpPoseidon2 \<equiv> 29"
abbreviation (input) rtypeInvalid :: "32 word" where "rtypeInvalid \<equiv> 63"

abbreviation (input) stypeStore8 :: "32 word" where "stypeStore8 \<equiv> 0"
abbreviation (input) stypeStore16 :: "32 word" where "stypeStore16 \<equiv> 1"
abbreviation (input) stypeStore32 :: "32 word" where "stypeStore32 \<equiv> 2"
abbreviation (input) stypeStore64 :: "32 word" where "stypeStore64 \<equiv> 3"
abbreviation (input) stypeInvalid :: "32 word" where "stypeInvalid \<equiv> 63"

abbreviation (input) btypeInvalid :: "32 word" where "btypeInvalid \<equiv> 63"
abbreviation (input) jtypeJal :: "32 word" where "jtypeJal \<equiv> 0"
abbreviation (input) jtypeJalWB :: "32 word" where "jtypeJalWB \<equiv> 1"
abbreviation (input) jtypeInvalid :: "32 word" where "jtypeInvalid \<equiv> 63"
abbreviation (input) utypeLuiWB :: "32 word" where "utypeLuiWB \<equiv> 0"
abbreviation (input) utypeAuipcWB :: "32 word" where "utypeAuipcWB \<equiv> 1"
abbreviation (input) utypeInvalid :: "32 word" where "utypeInvalid \<equiv> 63"
abbreviation (input) funct12Ecall :: "32 word" where "funct12Ecall \<equiv> 0"
abbreviation (input) funct12Ebreak :: "32 word" where "funct12Ebreak \<equiv> 1"

text \<open>Bases of the unified operations.\<close>

abbreviation (input) computeNoOp :: "32 word" where "computeNoOp \<equiv> 0"
abbreviation (input) computeITypeBase :: "32 word" where "computeITypeBase \<equiv> 1"
abbreviation (input) computeRTypeBase :: "32 word" where "computeRTypeBase \<equiv> 25"
abbreviation (input) computeSTypeBase :: "32 word" where "computeSTypeBase \<equiv> 56"
abbreviation (input) computeBTypeBase :: "32 word" where "computeBTypeBase \<equiv> 60"
abbreviation (input) computeJTypeBase :: "32 word" where "computeJTypeBase \<equiv> 66"
abbreviation (input) computeUTypeBase :: "32 word" where "computeUTypeBase \<equiv> 68"
abbreviation (input) computeInvalid :: "32 word" where "computeInvalid \<equiv> 255"

section \<open>Classification\<close>

definition instructionTypeFromOpcode :: "32 word \<Rightarrow> 32 word" where
  "instructionTypeFromOpcode opcode =
     (if opcode \<in> {opcodeOP, opcodeOP32, opcodeCUSTOM1} then rType
      else if opcode \<in> {opcodeLOAD, opcodeOPIMM, opcodeOPIMM32, opcodeJALR, opcodeSYSTEM} then iType
      else if opcode = opcodeSTORE then sType
      else if opcode = opcodeBRANCH then bType
      else if opcode \<in> {opcodeLUI, opcodeAUIPC} then uType
      else if opcode = opcodeJAL then jType
      else if opcode = opcodeMISCMEM then miscMemType
      else undefinedType)"

definition bTypeUnifiedIndex :: "32 word \<Rightarrow> 32 word option" where
  "bTypeUnifiedIndex = [0 \<mapsto> 0, 1 \<mapsto> 1, 4 \<mapsto> 2, 5 \<mapsto> 3, 6 \<mapsto> 4, 7 \<mapsto> 5]"

definition unifiedComputeOp :: "32 word \<Rightarrow> 32 word \<Rightarrow> 32 word" where
  "unifiedComputeOp instrType localOp =
     (if instrType = miscMemType then computeNoOp
      else if instrType = iType then if localOp = itypeInvalid then computeInvalid else computeITypeBase + localOp
      else if instrType = rType then if localOp = rtypeInvalid then computeInvalid else computeRTypeBase + localOp
      else if instrType = sType then if localOp = stypeInvalid then computeInvalid else computeSTypeBase + localOp
      else if instrType = bType then
        (case bTypeUnifiedIndex localOp of None \<Rightarrow> computeInvalid | Some idx \<Rightarrow> computeBTypeBase + idx)
      else if instrType = jType then if localOp = jtypeInvalid then computeInvalid else computeJTypeBase + localOp
      else if instrType = uType then if localOp = utypeInvalid then computeInvalid else computeUTypeBase + localOp
      else computeInvalid)"

definition shouldUseNoOp :: "32 word \<Rightarrow> 32 word \<Rightarrow> 32 word \<Rightarrow> 32 word \<Rightarrow> bool" where
  "shouldUseNoOp instrType rd localOp opcode \<longleftrightarrow>
     (if rd \<noteq> 0 then False
      else if instrType = miscMemType then True
      else if instrType = iType then
        if localOp = itypeInvalid then False else localOp \<notin> {itypeJalr, itypeEcall, itypeEbreak}
      else if instrType = rType then
        if localOp = rtypeInvalid then False else localOp \<notin> {rtypeOpKeccak, rtypeOpPoseidon2}
      else if instrType = uType then localOp \<noteq> utypeInvalid
      else if instrType = jType then False
      else False)"

definition finalizeComputeOp :: "32 word \<Rightarrow> 32 word \<Rightarrow> 32 word \<Rightarrow> 32 word \<Rightarrow> 32 word" where
  "finalizeComputeOp instrType localOp rd opcode =
     (let op = unifiedComputeOp instrType localOp in
      if op = computeInvalid then computeInvalid
      else if shouldUseNoOp instrType rd localOp opcode then computeNoOp
      else op)"

definition itypeOpForRd :: "32 word \<Rightarrow> 32 word \<Rightarrow> 32 word" where
  "itypeOpForRd localOp rd =
     (if rd = 0 \<or> localOp = itypeEcall \<or> localOp = itypeEbreak \<or> localOp = itypeInvalid then localOp
      else if localOp = itypeJalr then itypeJalrWB
      else localOp)"

definition rtypeOpForRd :: "32 word \<Rightarrow> 32 word \<Rightarrow> 32 word" where
  "rtypeOpForRd localOp rd = localOp"

definition jtypeOpForRd :: "32 word \<Rightarrow> 32 word \<Rightarrow> 32 word" where
  "jtypeOpForRd baseOp rd =
     (if rd = 0 \<or> baseOp = jtypeInvalid then baseOp
      else if baseOp = jtypeJal then jtypeJalWB
      else baseOp)"

definition utypeOpForRd :: "32 word \<Rightarrow> 32 word \<Rightarrow> 32 word" where
  "utypeOpForRd localOp rd = localOp"

text \<open>The local operation and the normalised immediate.\<close>

definition decodeITypeSemantic :: "32 word \<Rightarrow> 32 word \<Rightarrow> 32 word \<Rightarrow> 32 word \<times> 32 word" where
  "decodeITypeSemantic opcode funct3 imm12 =
     (let funct6 = drop_bit 6 imm12 AND 0x3f; funct7FromImm = drop_bit 5 imm12 AND 0x7f;
          uimm6 = imm12 AND 0x3f; uimm5 = imm12 AND 0x1f in
      if opcode = opcodeLOAD then
        if funct3 = 0 then (itypeRead8SgnWB, imm12)
        else if funct3 = 1 then (itypeRead16SgnWB, imm12)
        else if funct3 = 2 then (itypeRead32SgnWB, imm12)
        else if funct3 = 3 then (itypeRead64WB, imm12)
        else if funct3 = 4 then (itypeRead8ZextWB, imm12)
        else if funct3 = 5 then (itypeRead16ZextWB, imm12)
        else if funct3 = 6 then (itypeRead32ZextWB, imm12)
        else (itypeInvalid, imm12)
      else if opcode = opcodeOPIMM then
        if funct3 = 0 then (itypeOpAddiWB, imm12)
        else if funct3 = 2 then (itypeOpSltiWB, imm12)
        else if funct3 = 3 then (itypeOpSltiuWB, imm12)
        else if funct3 = 4 then (itypeOpXoriWB, imm12)
        else if funct3 = 6 then (itypeOpOriWB, imm12)
        else if funct3 = 7 then (itypeOpAndiWB, imm12)
        else if funct3 = 1 then
          if funct6 \<noteq> 0 then (itypeInvalid, imm12) else (itypeOpSlliWB, uimm6)
        else if funct3 = 5 then
          if funct6 = 0 then (itypeOpSrliWB, uimm6)
          else if funct6 = 0x10 then (itypeOpSraiWB, uimm6)
          else (itypeInvalid, imm12)
        else (itypeInvalid, imm12)
      else if opcode = opcodeOPIMM32 then
        if funct3 = 0 then (itypeOpAddiwWB, imm12)
        else if funct3 = 1 then
          if funct7FromImm \<noteq> 0 then (itypeInvalid, imm12) else (itypeOpSlliwWB, uimm5)
        else if funct3 = 5 then
          if funct7FromImm = 0 then (itypeOpSrliwWB, uimm5)
          else if funct7FromImm = 0x20 then (itypeOpSraiwWB, uimm5)
          else (itypeInvalid, imm12)
        else (itypeInvalid, imm12)
      else if opcode = opcodeJALR then
        if funct3 \<noteq> 0 then (itypeInvalid, imm12) else (itypeJalr, imm12)
      else if opcode = opcodeSYSTEM then
        if funct3 = 0 then
          if imm12 = funct12Ecall then (itypeEcall, imm12)
          else if imm12 = funct12Ebreak then (itypeEbreak, imm12)
          else (itypeInvalid, imm12)
        else (itypeInvalid, imm12)
      else (itypeInvalid, imm12))"

definition decodeRTypeSemantic :: "32 word \<Rightarrow> 32 word \<Rightarrow> 32 word \<Rightarrow> 32 word" where
  "decodeRTypeSemantic opcode funct3 funct7 =
     (if opcode = opcodeOP then
        if funct7 = 1 then
          if funct3 = 0 then rtypeOpMulWB
          else if funct3 = 1 then rtypeOpMulhWB
          else if funct3 = 2 then rtypeOpMulhsuWB
          else if funct3 = 3 then rtypeOpMulhuWB
          else if funct3 = 4 then rtypeOpDivWB
          else if funct3 = 5 then rtypeOpDivuWB
          else if funct3 = 6 then rtypeOpRemWB
          else if funct3 = 7 then rtypeOpRemuWB
          else rtypeInvalid
        else if funct7 = 0 then
          if funct3 = 0 then rtypeOpAddWB
          else if funct3 = 1 then rtypeOpSllWB
          else if funct3 = 2 then rtypeOpSltWB
          else if funct3 = 3 then rtypeOpSltuWB
          else if funct3 = 4 then rtypeOpXorWB
          else if funct3 = 5 then rtypeOpSrlWB
          else if funct3 = 6 then rtypeOpOrWB
          else if funct3 = 7 then rtypeOpAndWB
          else rtypeInvalid
        else if funct7 = 0x20 then
          if funct3 = 0 then rtypeOpSubWB
          else if funct3 = 5 then rtypeOpSraWB
          else rtypeInvalid
        else rtypeInvalid
      else if opcode = opcodeOP32 then
        if funct7 = 1 then
          if funct3 = 0 then rtypeOpMulwWB
          else if funct3 = 4 then rtypeOpDivwWB
          else if funct3 = 5 then rtypeOpDivuwWB
          else if funct3 = 6 then rtypeOpRemwWB
          else if funct3 = 7 then rtypeOpRemuwWB
          else rtypeInvalid
        else if funct7 = 0 then
          if funct3 = 0 then rtypeOpAddwWB
          else if funct3 = 1 then rtypeOpSllwWB
          else if funct3 = 5 then rtypeOpSrlwWB
          else rtypeInvalid
        else if funct7 = 0x20 then
          if funct3 = 0 then rtypeOpSubwWB
          else if funct3 = 5 then rtypeOpSrawWB
          else rtypeInvalid
        else rtypeInvalid
      else if opcode = opcodeCUSTOM1 then
        if funct7 \<noteq> 0 then rtypeInvalid
        else if funct3 = 0 then rtypeOpKeccak
        else if funct3 = 1 then rtypeOpPoseidon2
        else rtypeInvalid
      else rtypeInvalid)"

definition decodeSTypeSemantic :: "32 word \<Rightarrow> 32 word" where
  "decodeSTypeSemantic funct3 =
     (if funct3 = 0 then stypeStore8
      else if funct3 = 1 then stypeStore16
      else if funct3 = 2 then stypeStore32
      else if funct3 = 3 then stypeStore64
      else stypeInvalid)"

definition decodeBTypeSemantic :: "32 word \<Rightarrow> 32 word" where
  "decodeBTypeSemantic funct3 = (if funct3 \<in> {0, 1, 4, 5, 6, 7} then funct3 else btypeInvalid)"

definition decodeJTypeSemantic :: "32 word \<Rightarrow> 32 word" where
  "decodeJTypeSemantic opcode = (if opcode = opcodeJAL then jtypeJal else jtypeInvalid)"

definition decodeUTypeSemantic :: "32 word \<Rightarrow> 32 word" where
  "decodeUTypeSemantic opcode =
     (if opcode = opcodeLUI then utypeLuiWB
      else if opcode = opcodeAUIPC then utypeAuipcWB
      else utypeInvalid)"

definition classifyInstruction :: "32 word \<Rightarrow> 32 word" where
  "classifyInstruction instruction =
     (let opcode = instruction AND 0x7f;
          rd = drop_bit 7 instruction AND 0x1f;
          funct3 = drop_bit 12 instruction AND 0x7;
          imm12 = drop_bit 20 instruction AND 0xfff;
          funct7 = drop_bit 25 instruction AND 0x7f;
          instructionType = instructionTypeFromOpcode opcode;
          itypeOp = fst (decodeITypeSemantic opcode funct3 imm12);
          itypeOp = (if instructionType \<noteq> iType then itypeInvalid else itypeOp);
          itypeOp = itypeOpForRd itypeOp rd;
          rtypeOp = decodeRTypeSemantic opcode funct3 funct7;
          rtypeOp = (if instructionType \<noteq> rType then rtypeInvalid else rtypeOp);
          rtypeOp = rtypeOpForRd rtypeOp rd;
          stypeOp = decodeSTypeSemantic funct3;
          stypeOp = (if instructionType \<noteq> sType then stypeInvalid else stypeOp);
          btypeOp = decodeBTypeSemantic funct3;
          btypeOp = (if instructionType \<noteq> bType then btypeInvalid else btypeOp);
          jtypeOp = decodeJTypeSemantic opcode;
          jtypeOp = (if instructionType \<noteq> jType then jtypeInvalid else jtypeOp);
          jtypeOp = jtypeOpForRd jtypeOp rd;
          utypeOp = decodeUTypeSemantic opcode;
          utypeOp = (if instructionType \<noteq> uType then utypeInvalid else utypeOp);
          utypeOp = utypeOpForRd utypeOp rd;
          localOp =
            (if instructionType = miscMemType then 0
             else if instructionType = iType then itypeOp
             else if instructionType = rType then rtypeOp
             else if instructionType = sType then stypeOp
             else if instructionType = bType then btypeOp
             else if instructionType = jType then jtypeOp
             else if instructionType = uType then utypeOp
             else itypeInvalid)
      in finalizeComputeOp instructionType localOp rd opcode)"

section \<open>Immediates\<close>

text \<open>
  \<^verbatim>\<open>int64(int32(x) >> n)\<close>: the arithmetic shift of the signed word, then the sign extension to 64
  bits; \<^verbatim>\<open>uint64\<close> of it keeps the bits.
\<close>

definition signExtend21 :: "32 word \<Rightarrow> 64 word" where
  "signExtend21 x = (let x = x AND 0x1fffff in scast (signed_drop_bit 11 (push_bit 11 x)))"

definition signExtend13 :: "32 word \<Rightarrow> 64 word" where
  "signExtend13 x = (let x = x AND 0x1fff in scast (signed_drop_bit 19 (push_bit 19 x)))"

definition signExtend12 :: "32 word \<Rightarrow> 64 word" where
  "signExtend12 x = (let x = x AND 0xfff in scast (signed_drop_bit 20 (push_bit 20 x)))"

definition assembleJTypeImm :: "32 word \<Rightarrow> 64 word" where
  "assembleJTypeImm instr =
     (let imm20 = drop_bit 31 instr AND 0x1; imm10_1 = drop_bit 21 instr AND 0x3ff;
          imm11 = drop_bit 20 instr AND 0x1; imm19_12 = drop_bit 12 instr AND 0xff;
          imm21 = push_bit 20 imm20 OR push_bit 12 imm19_12 OR push_bit 11 imm11 OR push_bit 1 imm10_1
      in signExtend21 imm21)"

definition assembleBTypeImm :: "32 word \<Rightarrow> 64 word" where
  "assembleBTypeImm instr =
     (let immSign = drop_bit 31 instr AND 0x1; imm10_5 = drop_bit 25 instr AND 0x3f;
          imm4_1 = drop_bit 8 instr AND 0xf; imm11 = drop_bit 7 instr AND 0x1;
          imm13 = push_bit 12 immSign OR push_bit 11 imm11 OR push_bit 5 imm10_5 OR push_bit 1 imm4_1
      in signExtend13 imm13)"

definition assembleUTypeImm :: "32 word \<Rightarrow> 64 word" where
  "assembleUTypeImm instr =
     (let imm20 = drop_bit 12 instr AND 0xfffff; word = push_bit 12 imm20 in scast word)"

definition assembleSTypeImm :: "32 word \<Rightarrow> 64 word" where
  "assembleSTypeImm simm12 = signExtend12 simm12"

definition assembleITypeImm :: "32 word \<Rightarrow> 64 word" where
  "assembleITypeImm normImm12 = assembleSTypeImm normImm12"

text \<open>The operands of a record: immediate, first and second source, destination.\<close>

definition unifiedOperands ::
  "32 word \<Rightarrow> 32 word \<Rightarrow> 32 word \<Rightarrow> 64 word \<Rightarrow> 64 word \<Rightarrow> 64 word \<Rightarrow> 32 word \<Rightarrow> 32 word \<Rightarrow> 32 word
    \<Rightarrow> 64 word \<times> 64 word \<times> 64 word \<times> 64 word" where
  "unifiedOperands instrType normImm12 simm12 bImm jImm uImm rs1 rs2 rd =
     (if instrType = iType then (assembleITypeImm normImm12, ucast rs1, 0, ucast rd)
      else if instrType = rType then (0, ucast rs1, ucast rs2, ucast rd)
      else if instrType = sType then (assembleSTypeImm simm12, ucast rs1, ucast rs2, 0)
      else if instrType = bType then (bImm, ucast rs1, ucast rs2, 0)
      else if instrType = jType then (jImm, 0, 0, ucast rd)
      else if instrType = uType then (uImm, 0, 0, ucast rd)
      else (assembleITypeImm normImm12, ucast rs1, ucast rs2, ucast rd))"

text \<open>The fields that \<^verbatim>\<open>decodeInstruction\<close> writes: the operation and the operands.\<close>

definition instruction_fields :: "32 word \<Rightarrow> 64 word \<times> 64 word \<times> 64 word \<times> 64 word \<times> 64 word" where
  "instruction_fields instruction =
     (let opcode = instruction AND 0x7f;
          rd = drop_bit 7 instruction AND 0x1f;
          funct3 = drop_bit 12 instruction AND 0x7;
          rs1 = drop_bit 15 instruction AND 0x1f;
          rs2 = drop_bit 20 instruction AND 0x1f;
          imm12 = drop_bit 20 instruction AND 0xfff;
          instructionType = instructionTypeFromOpcode opcode;
          simm12 = push_bit 11 (drop_bit 31 instruction AND 1) OR push_bit 5 (drop_bit 25 instruction AND 0x3f)
            OR (drop_bit 7 instruction AND 0x1f);
          normalizedImm12 = snd (decodeITypeSemantic opcode funct3 imm12);
          normalizedImm12 = (if instructionType \<noteq> iType then imm12 else normalizedImm12)
      in (ucast (classifyInstruction instruction),
          unifiedOperands instructionType normalizedImm12 simm12 (assembleBTypeImm instruction)
            (assembleJTypeImm instruction) (assembleUTypeImm instruction) rs1 rs2 rd))"

section \<open>Fields\<close>

text \<open>The masks of the source select the low bits of a word.\<close>

lemma and_masks:
  fixes y :: "32 word"
  shows "y AND 0x1 = take_bit 1 y" "y AND 0x7 = take_bit 3 y" "y AND 0xf = take_bit 4 y"
    "y AND 0x1f = take_bit 5 y" "y AND 0x3f = take_bit 6 y" "y AND 0x7f = take_bit 7 y"
    "y AND 0xff = take_bit 8 y" "y AND 0x3ff = take_bit 10 y" "y AND 0xfff = take_bit 12 y"
    "y AND 0x1fff = take_bit 13 y" "y AND 0xfffff = take_bit 20 y" "y AND 0x1fffff = take_bit 21 y"
  unfolding take_bit_eq_mask by (simp_all add: mask_numeral)

text \<open>The bit field of \<open>w\<close> bits at position \<open>lo\<close>.\<close>

definition field :: "nat \<Rightarrow> nat \<Rightarrow> 32 word \<Rightarrow> 32 word" where
  "field lo w x = take_bit w (drop_bit lo x)"

lemma bit_field: "bit (field lo w x) k \<longleftrightarrow> k < w \<and> bit x (lo + k)"
  by (simp add: field_def bit_take_bit_iff bit_drop_bit_eq)

lemma field_0: "field 0 w x = take_bit w x"
  by (simp add: field_def)

lemma field_field: "i + v \<le> w \<Longrightarrow> field i v (field lo w x) = field (lo + i) v x"
  by (rule bit_word_eqI) (auto simp: bit_field add.assoc)

lemma field_cases3: "field lo 3 x \<in> {0, 1, 2, 3, 4, 5, 6, 7}"
proof -
  have "unat (field lo 3 x) < 2 ^ 3"
    unfolding field_def unsigned_take_bit_eq by (rule take_bit_nat_less_exp)
  then obtain n where n: "field lo 3 x = of_nat n" "n < 8"
    using that [of "unat (field lo 3 x)"] by simp
  hence "n \<in> {0, 1, 2, 3, 4, 5, 6, 7}" by auto
  thus ?thesis unfolding n(1) by (elim insertE) simp_all
qed

text \<open>The immediates, bit by bit.\<close>

lemmas imm_bits = bit_or_iff bit_push_bit_iff bit_take_bit_iff bit_drop_bit_eq o_apply

lemma bit_signExtend:
  "bit (signExtend12 x) k \<longleftrightarrow> k < 64 \<and> bit x (min k 11)"
  "bit (signExtend13 x) k \<longleftrightarrow> k < 64 \<and> bit x (min k 12)"
  "bit (signExtend21 x) k \<longleftrightarrow> k < 64 \<and> bit x (min k 20)"
  unfolding signExtend12_def signExtend13_def signExtend21_def and_masks Let_def
  by (auto simp: bit_simps min_def)

lemma bit_assembleBTypeImm:
  "bit (assembleBTypeImm x) k \<longleftrightarrow> k < 64 \<and>
     (if k = 0 then False else if k \<le> 4 then bit x (k + 7) else if k \<le> 10 then bit x (k + 20)
      else if k = 11 then bit x 7 else bit x 31)"
  unfolding assembleBTypeImm_def and_masks Let_def bit_signExtend imm_bits
  by (auto simp: add.commute bit_imp_possible_bit min_def dest: bit_imp_le_length)

lemma bit_assembleJTypeImm:
  "bit (assembleJTypeImm x) k \<longleftrightarrow> k < 64 \<and>
     (if k = 0 then False else if k \<le> 10 then bit x (k + 20) else if k = 11 then bit x 20
      else if k \<le> 19 then bit x k else bit x 31)"
  unfolding assembleJTypeImm_def and_masks Let_def bit_signExtend imm_bits
  by (auto simp: add.commute bit_imp_possible_bit min_def dest: bit_imp_le_length)

lemma bit_assembleUTypeImm:
  "bit (assembleUTypeImm x) k \<longleftrightarrow> k < 64 \<and> 12 \<le> k \<and> bit x (min k 31)"
  unfolding assembleUTypeImm_def and_masks Let_def by (auto simp: bit_simps min_def)

lemma bit_storeImm:
  "bit (assembleSTypeImm (push_bit 11 (drop_bit 31 x AND 1) OR push_bit 5 (drop_bit 25 x AND 0x3f)
      OR (drop_bit 7 x AND 0x1f))) k \<longleftrightarrow>
   k < 64 \<and> (if k \<le> 4 then bit x (k + 7) else if k \<le> 10 then bit x (k + 20) else bit x 31)"
  unfolding assembleSTypeImm_def and_masks bit_signExtend imm_bits
  by (auto simp: add.commute bit_imp_possible_bit min_def dest: bit_imp_le_length)

lemma bit_assembleITypeImm:
  "w \<le> 12 \<Longrightarrow> bit (assembleITypeImm (field 20 w x)) k \<longleftrightarrow> k < 64 \<and> min k 11 < w \<and> bit x (20 + min k 11)"
  unfolding assembleITypeImm_def assembleSTypeImm_def bit_signExtend bit_field by auto

end
