(* ===== verification/Riscv_Isa.thy ===== *)
theory Riscv_Isa
  imports Riscv_Decode
begin

text \<open>
  The specification of the instruction decoder, from the RISC-V instruction formats and the list of
  \<^verbatim>\<open>ComputeOp\<close> constants that the interpreter uses (\<^verbatim>\<open>arithmetization/src/main/common/constants.zkc\<close>): a
  table of instructions with the bit fields that select them, and the bits of the immediate of each
  format. The decoder of \<open>Riscv_Decode\<close> agrees with both on every 32-bit word.
\<close>

section \<open>The instruction table\<close>

text \<open>
  The rows of each opcode: the mnemonic, the \<^verbatim>\<open>compute_op\<close> when the destination register is not \<^verbatim>\<open>x0\<close>, the one when it
  is (0 is \<^verbatim>\<open>NO_OP\<close>), and the other
  fields (position, width, value) that select the instruction. For stores
  and branches the bits of \<^verbatim>\<open>rd\<close> belong to the immediate: both operations are the same.
\<close>

definition isa_table :: "(32 word \<times> (string \<times> 32 word \<times> 32 word \<times> (nat \<times> nat \<times> 32 word) list) list) list" where
  "isa_table =
     [(3,
       [(''LB'', 1, 0, [(12, 3, 0)]), (''LH'', 2, 0, [(12, 3, 1)]), (''LW'', 3, 0, [(12, 3, 2)]),
        (''LD'', 4, 0, [(12, 3, 3)]), (''LBU'', 5, 0, [(12, 3, 4)]), (''LHU'', 6, 0, [(12, 3, 5)]),
        (''LWU'', 7, 0, [(12, 3, 6)])]),
      (19,
       [(''ADDI'', 8, 0, [(12, 3, 0)]), (''SLTI'', 9, 0, [(12, 3, 2)]),
        (''SLTIU'', 10, 0, [(12, 3, 3)]), (''XORI'', 11, 0, [(12, 3, 4)]),
        (''ORI'', 12, 0, [(12, 3, 6)]), (''ANDI'', 13, 0, [(12, 3, 7)]),
        (''SLLI'', 14, 0, [(12, 3, 1), (26, 6, 0)]), (''SRLI'', 15, 0, [(12, 3, 5), (26, 6, 0)]),
        (''SRAI'', 16, 0, [(12, 3, 5), (26, 6, 16)])]),
      (27,
       [(''ADDIW'', 17, 0, [(12, 3, 0)]), (''SLLIW'', 18, 0, [(12, 3, 1), (25, 7, 0)]),
        (''SRLIW'', 19, 0, [(12, 3, 5), (25, 7, 0)]), (''SRAIW'', 20, 0, [(12, 3, 5), (25, 7, 32)])]),
      (103,
       [(''JALR'', 22, 21, [(12, 3, 0)])]),
      (115,
       [(''ECALL'', 23, 23, [(12, 3, 0), (20, 12, 0)]),
        (''EBREAK'', 24, 24, [(12, 3, 0), (20, 12, 1)])]),
      (51,
       [(''ADD'', 25, 0, [(12, 3, 0), (25, 7, 0)]), (''SUB'', 26, 0, [(12, 3, 0), (25, 7, 32)]),
        (''SLL'', 27, 0, [(12, 3, 1), (25, 7, 0)]), (''SLT'', 28, 0, [(12, 3, 2), (25, 7, 0)]),
        (''SLTU'', 29, 0, [(12, 3, 3), (25, 7, 0)]), (''XOR'', 30, 0, [(12, 3, 4), (25, 7, 0)]),
        (''SRL'', 31, 0, [(12, 3, 5), (25, 7, 0)]), (''SRA'', 32, 0, [(12, 3, 5), (25, 7, 32)]),
        (''OR'', 33, 0, [(12, 3, 6), (25, 7, 0)]), (''AND'', 34, 0, [(12, 3, 7), (25, 7, 0)]),
        (''MUL'', 35, 0, [(12, 3, 0), (25, 7, 1)]), (''MULH'', 36, 0, [(12, 3, 1), (25, 7, 1)]),
        (''MULHSU'', 37, 0, [(12, 3, 2), (25, 7, 1)]), (''MULHU'', 38, 0, [(12, 3, 3), (25, 7, 1)]),
        (''DIV'', 39, 0, [(12, 3, 4), (25, 7, 1)]), (''DIVU'', 40, 0, [(12, 3, 5), (25, 7, 1)]),
        (''REM'', 41, 0, [(12, 3, 6), (25, 7, 1)]), (''REMU'', 42, 0, [(12, 3, 7), (25, 7, 1)])]),
      (59,
       [(''ADDW'', 43, 0, [(12, 3, 0), (25, 7, 0)]), (''SUBW'', 44, 0, [(12, 3, 0), (25, 7, 32)]),
        (''SLLW'', 45, 0, [(12, 3, 1), (25, 7, 0)]), (''SRLW'', 46, 0, [(12, 3, 5), (25, 7, 0)]),
        (''SRAW'', 47, 0, [(12, 3, 5), (25, 7, 32)]), (''MULW'', 48, 0, [(12, 3, 0), (25, 7, 1)]),
        (''DIVW'', 49, 0, [(12, 3, 4), (25, 7, 1)]), (''DIVUW'', 50, 0, [(12, 3, 5), (25, 7, 1)]),
        (''REMW'', 51, 0, [(12, 3, 6), (25, 7, 1)]), (''REMUW'', 52, 0, [(12, 3, 7), (25, 7, 1)])]),
      (43,
       [(''KECCAK'', 53, 53, [(12, 3, 0), (25, 7, 0)]),
        (''POSEIDON2'', 54, 54, [(12, 3, 1), (25, 7, 0)])]),
      (35,
       [(''SB'', 56, 56, [(12, 3, 0)]), (''SH'', 57, 57, [(12, 3, 1)]), (''SW'', 58, 58, [(12, 3, 2)]),
        (''SD'', 59, 59, [(12, 3, 3)])]),
      (99,
       [(''BEQ'', 60, 60, [(12, 3, 0)]), (''BNE'', 61, 61, [(12, 3, 1)]),
        (''BLT'', 62, 62, [(12, 3, 4)]), (''BGE'', 63, 63, [(12, 3, 5)]),
        (''BLTU'', 64, 64, [(12, 3, 6)]), (''BGEU'', 65, 65, [(12, 3, 7)])]),
      (111,
       [(''JAL'', 67, 66, [])]),
      (55,
       [(''LUI'', 68, 0, [])]),
      (23,
       [(''AUIPC'', 69, 0, [])]),
      (15,
       [(''FENCE'', 0, 0, [])])]"

definition isa_rows :: "32 word \<Rightarrow> (string \<times> 32 word \<times> 32 word \<times> (nat \<times> nat \<times> 32 word) list) list" where
  "isa_rows opcode = (case map_of isa_table opcode of None \<Rightarrow> [] | Some rows \<Rightarrow> rows)"

definition selects :: "32 word \<Rightarrow> string \<times> 32 word \<times> 32 word \<times> (nat \<times> nat \<times> 32 word) list \<Rightarrow> bool" where
  "selects x row = list_all (\<lambda>(lo, w, v). field lo w x = v) (snd (snd (snd row)))"

definition isa_compute_op :: "32 word \<Rightarrow> 32 word" where
  "isa_compute_op x =
     (case List.find (selects x) (isa_rows (field 0 7 x)) of
        None \<Rightarrow> 255
      | Some row \<Rightarrow> if field 7 5 x = 0 then fst (snd (snd row)) else fst (snd row))"

section \<open>The decoder implements the table\<close>

lemma classify_fields:
  "classifyInstruction x =
    (let opcode = field 0 7 x; rd = field 7 5 x; funct3 = field 12 3 x; imm12 = field 20 12 x; funct7 = field 25 7 x;
         t = instructionTypeFromOpcode opcode in
     finalizeComputeOp t
       (if t = miscMemType then 0 else if t = iType then itypeOpForRd (fst (decodeITypeSemantic opcode funct3 imm12)) rd
        else if t = rType then decodeRTypeSemantic opcode funct3 funct7 else if t = sType then decodeSTypeSemantic funct3
        else if t = bType then decodeBTypeSemantic funct3 else if t = jType then jtypeOpForRd (decodeJTypeSemantic opcode) rd
        else if t = uType then decodeUTypeSemantic opcode else itypeInvalid) rd opcode)"
  unfolding classifyInstruction_def and_masks Let_def field_def rtypeOpForRd_def utypeOpForRd_def
  by simp


lemma finalize_if:
  "finalizeComputeOp t (if b then l else m) rd opcode =
     (if b then finalizeComputeOp t l rd opcode else finalizeComputeOp t m rd opcode)"
  "itypeOpForRd (if b then l else m) rd = (if b then itypeOpForRd l rd else itypeOpForRd m rd)"
  "fst (if b then p else q) = (if b then fst p else fst q)"
  by simp_all

lemmas decode_semantics = classify_fields instructionTypeFromOpcode_def
  decodeITypeSemantic_def decodeRTypeSemantic_def decodeSTypeSemantic_def decodeBTypeSemantic_def
  decodeJTypeSemantic_def decodeUTypeSemantic_def jtypeOpForRd_def

lemmas decode_finalize = bTypeUnifiedIndex_def itypeOpForRd_def
  finalizeComputeOp_def unifiedComputeOp_def shouldUseNoOp_def

lemma imm12_functs:
  "drop_bit 6 (field 20 12 x) AND 0x3f = field 26 6 x" "drop_bit 5 (field 20 12 x) AND 0x7f = field 25 7 x"
  unfolding and_masks using field_field [of 6 6 12 20 x] field_field [of 5 7 12 20 x] by (simp_all add: field_def)

lemmas isa_spec = isa_compute_op_def isa_rows_def isa_table_def selects_def

lemma classify_funct3:
  "field 0 7 x \<in> {3, 19, 27, 103, 115, 51, 59, 43, 35, 99} \<Longrightarrow> classifyInstruction x = isa_compute_op x"
  using field_cases3 [of 12 x]
  by (elim insertE emptyE; simp add: decode_semantics imm12_functs finalize_if isa_spec;
      simp add: decode_finalize)

lemma classify_opcode:
  "field 0 7 x \<in> {111, 55, 23, 15} \<Longrightarrow> classifyInstruction x = isa_compute_op x"
  by (elim insertE emptyE; simp add: decode_semantics finalize_if isa_spec; simp add: decode_finalize)

lemma classify_other:
  "field 0 7 x \<notin> {3, 19, 27, 103, 115, 51, 59, 43, 35, 99} \<union> {111, 55, 23, 15} \<Longrightarrow>
   classifyInstruction x = isa_compute_op x"
  by (simp add: decode_semantics finalize_if isa_spec; simp add: decode_finalize)

lemma classify_isa_op: "classifyInstruction x = isa_compute_op x"
  using classify_funct3 classify_opcode classify_other by blast

section \<open>Operands\<close>

datatype isa_format = FormR | FormI | FormS | FormB | FormU | FormJ

definition isa_format :: "32 word \<Rightarrow> isa_format" where
  "isa_format x =
     (let opcode = field 0 7 x in
      if opcode \<in> {51, 59, 43} then FormR
      else if opcode = 35 then FormS
      else if opcode = 99 then FormB
      else if opcode \<in> {55, 23} then FormU
      else if opcode = 111 then FormJ
      else FormI)"

text \<open>The width of the shift amount of the immediate shifts.\<close>

definition isa_shamt :: "32 word \<Rightarrow> nat option" where
  "isa_shamt x =
     (if field 0 7 x = 19 \<and> (field 12 3 x = 1 \<and> field 26 6 x = 0 \<or> field 12 3 x = 5 \<and> field 26 6 x \<in> {0, 16})
      then Some 6
      else if field 0 7 x = 27 \<and> (field 12 3 x = 1 \<and> field 25 7 x = 0 \<or> field 12 3 x = 5 \<and> field 25 7 x \<in> {0, 32})
      then Some 5
      else None)"

text \<open>Bit \<open>k\<close> of the sign-extended immediate, for each format.\<close>

definition isa_imm_bit :: "32 word \<Rightarrow> nat \<Rightarrow> bool" where
  "isa_imm_bit x k =
     (case isa_format x of
        FormR \<Rightarrow> False
      | FormI \<Rightarrow> (case isa_shamt x of Some w \<Rightarrow> k < w \<and> bit x (k + 20) | None \<Rightarrow> bit x (min (k + 20) 31))
      | FormS \<Rightarrow> if k \<le> 4 then bit x (k + 7) else if k \<le> 10 then bit x (k + 20) else bit x 31
      | FormB \<Rightarrow> if k = 0 then False else if k \<le> 4 then bit x (k + 7) else if k \<le> 10 then bit x (k + 20)
          else if k = 11 then bit x 7 else bit x 31
      | FormU \<Rightarrow> 12 \<le> k \<and> bit x (min k 31)
      | FormJ \<Rightarrow> if k = 0 then False else if k \<le> 10 then bit x (k + 20) else if k = 11 then bit x 20
          else bit x (if k \<le> 19 then k else 31))"

text \<open>The registers that a format has, 0 in the place of the others.\<close>

definition isa_registers :: "32 word \<Rightarrow> 32 word \<times> 32 word \<times> 32 word" where
  "isa_registers x =
     (let rd = field 7 5 x; rs1 = field 15 5 x; rs2 = field 20 5 x in
      case isa_format x of
        FormR \<Rightarrow> (rs1, rs2, rd)
      | FormI \<Rightarrow> (rs1, 0, rd)
      | FormS \<Rightarrow> (rs1, rs2, 0)
      | FormB \<Rightarrow> (rs1, rs2, 0)
      | FormU \<Rightarrow> (0, 0, rd)
      | FormJ \<Rightarrow> (0, 0, rd))"

text \<open>
  The words whose record keeps the bits 20 to 24 as \<^verbatim>\<open>rs2\<close> although they have the format I, which has no
  such register: \<^verbatim>\<open>FENCE\<close> and the words with an opcode that the table does not have.
\<close>

definition keeps_rs2 :: "32 word \<Rightarrow> bool" where
  "keeps_rs2 x \<longleftrightarrow> field 0 7 x = 15 \<or> isa_rows (field 0 7 x) = []"

text \<open>The immediate of a record has the bits of the format.\<close>

definition isa_imm :: "64 word \<Rightarrow> 32 word \<Rightarrow> bool" where
  "isa_imm imm x \<longleftrightarrow> (\<forall>k < 64. bit imm k = isa_imm_bit x k)"

text \<open>The 12-bit immediate with the function bits of the shifts removed.\<close>

definition normalized :: "32 word \<Rightarrow> 32 word" where
  "normalized x = field 20 (case isa_shamt x of Some w \<Rightarrow> w | None \<Rightarrow> 12) x"

lemma imm12_uimm:
  "field 20 12 x AND 0x3f = field 20 6 x" "field 20 12 x AND 0x1f = field 20 5 x"
  unfolding and_masks using field_field [of 0 6 12 20 x] field_field [of 0 5 12 20 x] by (simp_all add: field_0)

lemma normalized_imm:
  "snd (decodeITypeSemantic (field 0 7 x) (field 12 3 x) (field 20 12 x)) = normalized x"
proof -
  consider "field 0 7 x = 19" | "field 0 7 x = 27" | "field 0 7 x \<notin> {19, 27}" by blast
  thus ?thesis
    by cases (simp_all add: decodeITypeSemantic_def normalized_def isa_shamt_def imm12_functs imm12_uimm Let_def)
qed

lemma normalized_other: "field 0 7 x \<notin> {19, 27} \<Longrightarrow> normalized x = field 20 12 x"
  by (simp add: normalized_def isa_shamt_def)

lemma type_iType: "instructionTypeFromOpcode opcode = iType \<longleftrightarrow> opcode \<in> {3, 19, 27, 103, 115}"
  by (simp add: instructionTypeFromOpcode_def)

lemma fields_isa:
  "instruction_fields x =
    (ucast (classifyInstruction x),
     unifiedOperands (instructionTypeFromOpcode (field 0 7 x)) (normalized x)
      (push_bit 11 (drop_bit 31 x AND 1) OR push_bit 5 (drop_bit 25 x AND 0x3f) OR (drop_bit 7 x AND 0x1f))
      (assembleBTypeImm x) (assembleJTypeImm x) (assembleUTypeImm x) (field 15 5 x) (field 20 5 x) (field 7 5 x))"
  using normalized_imm [of x] normalized_other [of x] type_iType [of "field 0 7 x"]
  unfolding instruction_fields_def and_masks Let_def field_0 [symmetric] by (simp add: field_def)

lemma normalized_bits: "isa_format x = FormI \<Longrightarrow> isa_imm (assembleITypeImm (normalized x)) x"
  by (auto simp: isa_imm_def normalized_def isa_imm_bit_def bit_assembleITypeImm isa_shamt_def min_def add.commute
      split: option.splits)

lemma isa_imms:
  "isa_format x = FormS \<Longrightarrow> isa_imm (assembleSTypeImm (push_bit 11 (drop_bit 31 x AND 1) OR push_bit 5 (drop_bit 25 x AND 0x3f)
      OR (drop_bit 7 x AND 0x1f))) x"
  "isa_format x = FormB \<Longrightarrow> isa_imm (assembleBTypeImm x) x"
  "isa_format x = FormU \<Longrightarrow> isa_imm (assembleUTypeImm x) x"
  "isa_format x = FormJ \<Longrightarrow> isa_imm (assembleJTypeImm x) x"
  "isa_format x = FormR \<Longrightarrow> isa_imm 0 x"
  unfolding bit_storeImm isa_imm_def bit_assembleBTypeImm bit_assembleJTypeImm bit_assembleUTypeImm
  by (auto simp: isa_imm_bit_def min_def)

text \<open>
  C16: On every 32-bit word, the record that \<open>decodeInstruction\<close> writes has the operation of the
  instruction table (the \<^verbatim>\<open>ComputeOp\<close> constant of the interpreter for the instruction that the opcode,
  \<^verbatim>\<open>funct3\<close>, \<^verbatim>\<open>funct6\<close>, \<^verbatim>\<open>funct7\<close> and \<^verbatim>\<open>funct12\<close> fields select, its variant without write-back or \<^verbatim>\<open>NO_OP\<close>
  when the destination is \<^verbatim>\<open>x0\<close>, and \<^verbatim>\<open>COMPUTE_INVALID\<close> when no row matches), the immediate whose 64 bits are the bits the format of the word scatters over the instruction (sign
  bit repeated; for immediate shifts, only the shift amount), and the registers of the format, 0 for
  those it does not have. There is one exception to the last point: \<^verbatim>\<open>FENCE\<close> and the words with an opcode
  outside the table, which are read in the format I, keep their bits 20 to 24 as \<^verbatim>\<open>rs2\<close>.
\<close>

theorem operands_isa:
  "case instruction_fields x of (op, imm, rs1, rs2, rd) \<Rightarrow>
     op = ucast (isa_compute_op x) \<and> isa_imm imm x \<and>
     (rs1, rs2, rd) = (case isa_registers x of (a, b, c) \<Rightarrow>
       (ucast a, ucast (if keeps_rs2 x then field 20 5 x else b), ucast c))"
  using classify_isa_op [of x] normalized_bits [of x] isa_imms [of x]
  unfolding fields_isa unifiedOperands_def
  by (simp add: isa_format_def instructionTypeFromOpcode_def isa_registers_def keeps_rs2_def isa_rows_def isa_table_def
      split: if_splits)

end
