(* ===== verification/Bit_Stream.thy ===== *)
theory Bit_Stream
  imports Go_Prelude
begin

text \<open>
  Byte strings read as streams of bits, most significant bit first: the layout in which the R5 inputs
  are packed. Shared by the encoders of \<open>Elf_Map\<close> and \<open>Riscv_Pack\<close>, which set bits of a byte buffer
  with \<^verbatim>\<open>buf[k/8] |= 1 << (7 - k%8)\<close>.
\<close>

named_theorems bit_stream_simps \<open>reading a bit of an updated buffer\<close>

definition bit_at :: "bytes \<Rightarrow> nat \<Rightarrow> bool" where
  "bit_at bs k = bit (bs ! (k div 8)) (7 - k mod 8)"

definition set_bit_at :: "bytes \<Rightarrow> nat \<Rightarrow> bytes" where
  "set_bit_at bs k = bs[k div 8 := bs ! (k div 8) OR push_bit (7 - k mod 8) 1]"

lemma length_set_bit_at [simp]: "length (set_bit_at bs k) = length bs"
  by (simp add: set_bit_at_def)

lemma bit_at_set [bit_stream_simps]:
  assumes "k < 8 * length bs"
  shows "bit_at (set_bit_at bs k) j \<longleftrightarrow> j = k \<or> bit_at bs j"
proof (cases "j div 8 = k div 8")
  case True
  have len: "k div 8 < length bs" using assms by (simp add: less_mult_imp_div_less mult.commute)
  have "7 - j mod 8 = 7 - k mod 8 \<longleftrightarrow> j mod 8 = k mod 8"
    using mod_less_divisor [of 8 j] mod_less_divisor [of 8 k] by linarith
  also have "\<dots> \<longleftrightarrow> j = k" using True by (metis div_mult_mod_eq)
  finally show ?thesis
    using True len by (auto simp: bit_at_def set_bit_at_def bit_simps possible_bit_word)
next
  case False
  hence "j \<noteq> k" by auto
  thus ?thesis using False by (simp add: bit_at_def set_bit_at_def)
qed

lemma bit_at_append [bit_stream_simps]: "k < 8 * length bs \<Longrightarrow> bit_at (bs @ cs) k = bit_at bs k"
  by (simp add: bit_at_def nth_append less_mult_imp_div_less mult.commute)

lemma bit_at_append_zero [bit_stream_simps]:
  "8 * length bs \<le> k \<Longrightarrow> k < 8 * (length bs + n) \<Longrightarrow> \<not> bit_at (bs @ replicate n 0) k"
  by (auto simp: bit_at_def nth_append)

lemma bit_at_replicate [bit_stream_simps]: "k < 8 * n \<Longrightarrow> \<not> bit_at (replicate n 0) k"
  using bit_at_append_zero [of "[]" k n] by simp

text \<open>The number in \<open>w\<close> bits of a stream, the first one most significant.\<close>

definition read_bits :: "bytes \<Rightarrow> nat \<Rightarrow> nat \<Rightarrow> 64 word" where
  "read_bits bs pos w = horner_sum of_bool 2 (rev (map (bit_at bs) [pos..<pos + w]))"

lemma read_bits_word:
  assumes "map (bit_at bs) [pos..<pos + w] = map (bit v) (rev [0..<w])"
  shows "read_bits bs pos w = take_bit w v"
  unfolding read_bits_def assms by (simp add: rev_map horner_sum_bit_eq_take_bit)

end
