(* ===== verification/Elf_Map.thy ===== *)
theory Elf_Map
  imports Bit_Stream
begin

text \<open>
  The mapping of a guest program to the public inputs of the R5 interpreter
  (\<^verbatim>\<open>arithmetization/gopkg/elfmapping/elfmapping.go\<close>). \<^verbatim>\<open>uint64\<close> values are 64-bit words with their
  wrap-around. The parsed ELF file is a record of the fields the source reads; the parser
  (\<^verbatim>\<open>debug/elf\<close>), the order in which \<^verbatim>\<open>sort.Slice\<close> leaves equal elements, the array constructor
  \<^verbatim>\<open>bit.NewArray\<close> of the zkc module and the diagnostic writer are arguments of the definitions.
\<close>

section \<open>Blobs and options\<close>

record Blob =
  Address :: "64 word"
  Data :: bytes
  Name :: string
  Executable :: bool

record Program =
  EntryPoint :: "64 word"
  Blobs :: "Blob list"

definition blob_len :: "Blob \<Rightarrow> 64 word" where
  "blob_len b = word_of_nat (length (Data b))"

abbreviation (input) MaxUint32 :: "64 word" where "MaxUint32 \<equiv> 0xffffffff"

definition DefaultInputOrigin :: "64 word" where
  "DefaultInputOrigin = 0x08800000"

text \<open>
  The rows of the diagnostic table. A writer gives the outcome of the last of a sequence of writes,
  so that it may depend on what was written before.
\<close>

datatype section_row = HeaderRow | BlobRow nat Blob

type_synonym sections_writer = "section_row list \<Rightarrow> unit go"

record config =
  includeExecutable :: bool
  sectionsWriter :: "sections_writer option"

record dataConfig =
  name :: string
  lengthPrefix :: bool

text \<open>An option is a function on the configuration that may fail, or \<^verbatim>\<open>nil\<close>.\<close>

type_synonym 'c go_option = "('c \<Rightarrow> 'c go) option"

definition WithName :: "string \<Rightarrow> dataConfig go_option" where
  "WithName n = Some (\<lambda>cfg. if n = [] then Err ''blob name is empty'' else Ret (cfg\<lparr>name := n\<rparr>))"

definition WithLengthPrefix :: "dataConfig go_option" where
  "WithLengthPrefix = Some (\<lambda>cfg. Ret (cfg\<lparr>lengthPrefix := True\<rparr>))"

definition WithIncludeExecutable :: "config go_option" where
  "WithIncludeExecutable = Some (\<lambda>cfg. Ret (cfg\<lparr>includeExecutable := True\<rparr>))"

definition WithSectionsWriter :: "sections_writer option \<Rightarrow> config go_option" where
  "WithSectionsWriter writer =
     Some (\<lambda>cfg. if writer = None then Err ''sections writer is nil'' else Ret (cfg\<lparr>sectionsWriter := writer\<rparr>))"

text \<open>The loop that applies the options.\<close>

primrec apply_options :: "'c go_option list \<Rightarrow> 'c \<Rightarrow> 'c go" where
  "apply_options [] cfg = Ret cfg"
| "apply_options (opt # opts) cfg =
     (case opt of None \<Rightarrow> Err ''nil option'' | Some f \<Rightarrow> go_bind (f cfg) (apply_options opts))"

section \<open>Loading\<close>

record elf_prog =
  Prog_Type :: "32 word"
  Vaddr :: "64 word"
  Filesz :: "64 word"
  Memsz :: "64 word"

record elf_section =
  Section_Name :: string
  Section_Type :: "32 word"
  Flags :: "32 word"
  Addr :: "64 word"
  Size :: "64 word"
  Contents :: "bytes go"

record elf_file =
  Entry :: "64 word"
  Progs :: "elf_prog list"
  Sections :: "elf_section list"

abbreviation (input) PT_LOAD :: "32 word" where "PT_LOAD \<equiv> 1"
abbreviation (input) SHT_NOBITS :: "32 word" where "SHT_NOBITS \<equiv> 8"
abbreviation (input) SHF_ALLOC :: "32 word" where "SHF_ALLOC \<equiv> 2"
abbreviation (input) SHF_EXECINSTR :: "32 word" where "SHF_EXECINSTR \<equiv> 4"

text \<open>The inner loop, over the sections, for one loadable segment.\<close>

primrec section_loop :: "elf_prog \<Rightarrow> 64 word \<Rightarrow> elf_section list \<Rightarrow> Blob list \<Rightarrow> Blob list go" where
  "section_loop programHeader programEnd [] programBlobs = Ret programBlobs"
| "section_loop programHeader programEnd (s # ss) programBlobs =
     (if Size s = 0 \<or> Section_Type s = SHT_NOBITS \<or> Flags s AND SHF_ALLOC = 0
      then section_loop programHeader programEnd ss programBlobs
      else
        let sectionEnd = Addr s + Size s in
        if sectionEnd < Addr s then Err ''section address overflow''
        else if Addr s < Vaddr programHeader \<or> sectionEnd > programEnd
        then section_loop programHeader programEnd ss programBlobs
        else go_bind (Contents s) (\<lambda>data.
          if word_of_nat (length data) \<noteq> Size s then Err ''short read for section''
          else section_loop programHeader programEnd ss (programBlobs @
            [\<lparr>Address = Addr s, Data = data, Name = Section_Name s,
              Executable = (Flags s AND SHF_EXECINSTR \<noteq> 0)\<rparr>])))"

primrec segment_loop ::
  "(Blob list \<Rightarrow> Blob list) \<Rightarrow> elf_section list \<Rightarrow> elf_prog list \<Rightarrow> Blob list \<Rightarrow> Blob list go" where
  "segment_loop sort_slice sections [] blobs = Ret blobs"
| "segment_loop sort_slice sections (p # ps) blobs =
     (if Prog_Type p \<noteq> PT_LOAD \<or> Memsz p = 0 then segment_loop sort_slice sections ps blobs
      else if Filesz p > Memsz p then Err ''loadable segment has file size larger than memory size''
      else
        let programEnd = Vaddr p + Memsz p in
        if programEnd < Vaddr p then Err ''loadable segment address overflow''
        else go_bind (section_loop p programEnd sections []) (\<lambda>programBlobs.
          segment_loop sort_slice sections ps (blobs @ sort_slice programBlobs)))"

definition extractBlobs :: "(Blob list \<Rightarrow> Blob list) \<Rightarrow> elf_file \<Rightarrow> Blob list go" where
  "extractBlobs sort_slice elfFile =
     go_bind (segment_loop sort_slice (Sections elfFile) (Progs elfFile) []) (\<lambda>blobs.
     if blobs = [] then Err ''guest ELF has no loadable sections'' else Ret blobs)"

definition Load :: "(bytes \<Rightarrow> elf_file go) \<Rightarrow> (Blob list \<Rightarrow> Blob list) \<Rightarrow> bytes \<Rightarrow> Program go" where
  "Load new_file sort_slice r =
     go_bind (new_file r) (\<lambda>elfFile.
     go_bind (extractBlobs sort_slice elfFile) (\<lambda>blobs.
     Ret \<lparr>EntryPoint = Entry elfFile, Blobs = blobs\<rparr>))"

section \<open>Input data\<close>

text \<open>\<^verbatim>\<open>binary.LittleEndian.PutUint64\<close> and \<^verbatim>\<open>binary.BigEndian.AppendUint32\<close>.\<close>

definition le_uint64 :: "64 word \<Rightarrow> bytes" where
  "le_uint64 v = rev (be_bytes 8 (unat v))"

definition be_uint32 :: "32 word \<Rightarrow> bytes" where
  "be_uint32 v = be_bytes 4 (unat v)"

definition NewData :: "64 word \<Rightarrow> bytes \<Rightarrow> dataConfig go_option list \<Rightarrow> Blob list go" where
  "NewData address data options =
     go_bind (apply_options options \<lparr>name = [], lengthPrefix = False\<rparr>) (\<lambda>cfg.
     if \<not> lengthPrefix cfg then
       if data = [] then Ret []
       else Ret [\<lparr>Address = address, Data = data, Name = name cfg, Executable = False\<rparr>]
     else
       let payloadAddress = address + 8 in
       if payloadAddress < address then Err ''data input offset overflow''
       else
         let prefix8 = le_uint64 (word_of_nat (length data));
             lengthName = (if name cfg \<noteq> [] then name cfg @ ''_length'' else []);
             payloadName = (if name cfg \<noteq> [] then name cfg @ ''_payload'' else [])
         in Ret ([\<lparr>Address = address, Data = prefix8, Name = lengthName, Executable = False\<rparr>] @
              (if data \<noteq> []
               then [\<lparr>Address = payloadAddress, Data = data, Name = payloadName, Executable = False\<rparr>]
               else [])))"

section \<open>Encoding\<close>

primrec sections_loop :: "sections_writer \<Rightarrow> section_row list \<Rightarrow> nat \<Rightarrow> Blob list \<Rightarrow> unit go" where
  "sections_loop writer rows i [] = Ret ()"
| "sections_loop writer rows i (b # bs) =
     go_bind (writer (rows @ [BlobRow i b])) (\<lambda>_. sections_loop writer (rows @ [BlobRow i b]) (i + 1) bs)"

definition writeSections :: "sections_writer \<Rightarrow> Blob list \<Rightarrow> unit go" where
  "writeSections writer blobs =
     go_bind (writer [HeaderRow]) (\<lambda>_. sections_loop writer [HeaderRow] 0 blobs)"

primrec address_loop :: "Blob list \<Rightarrow> 32 word list \<Rightarrow> 32 word list go" where
  "address_loop [] addresses = Ret addresses"
| "address_loop (b # bs) addresses =
     (if Address b > MaxUint32 \<or> blob_len b > MaxUint32 + 1 - Address b
      then Err ''memory blob is outside the 32-bit address space''
      else address_loop bs (addresses @ [ucast (Address b)]))"

definition addressSpace32 :: "64 word \<Rightarrow> Blob list \<Rightarrow> (32 word \<times> 32 word list) go" where
  "addressSpace32 entryPoint blobs =
     (if entryPoint > MaxUint32 then Err ''entry point is outside the 32-bit address space''
      else go_bind (address_loop blobs []) (\<lambda>addresses. Ret (ucast entryPoint, addresses)))"

definition blobDataSize :: "Blob list \<Rightarrow> 64 word" where
  "blobDataSize blobs = foldl (\<lambda>size b. size + blob_len b) 0 blobs"

primrec executable_loop :: "nat \<Rightarrow> Blob list \<Rightarrow> bytes \<Rightarrow> bytes" where
  "executable_loop i [] bits = bits"
| "executable_loop i (b # bs) bits =
     executable_loop (i + 1) bs
       (if Executable b then set_bit_at bits i else bits)"

definition encodeExecutableBits :: "Blob list \<Rightarrow> bytes" where
  "encodeExecutableBits blobs = executable_loop 0 blobs (replicate ((length blobs + 7) div 8) 0)"

primrec validate_loop :: "Blob list \<Rightarrow> 64 word \<Rightarrow> bool \<Rightarrow> unit go" where
  "validate_loop [] previousEnd hasPrevious = Ret ()"
| "validate_loop (b # bs) previousEnd hasPrevious =
     (if Data b = [] then validate_loop bs previousEnd hasPrevious
      else
        let stop = Address b + blob_len b in
        if stop < Address b then Err ''memory blob overflows address space''
        else if hasPrevious \<and> Address b < previousEnd then Err ''memory blob overlaps blob''
        else validate_loop bs stop True)"

definition validateRanges :: "Blob list \<Rightarrow> unit go" where
  "validateRanges blobs = validate_loop blobs 0 False"

definition BitArrayFromBytes :: "(bytes \<Rightarrow> nat \<Rightarrow> 'a) \<Rightarrow> bytes \<Rightarrow> 'a" where
  "BitArrayFromBytes new_array b = new_array b (length b * 8)"

definition sort_blobs :: "Blob list \<Rightarrow> Blob list" where
  "sort_blobs = sort_key Address"

primrec encode_loop :: "Blob list \<Rightarrow> 32 word list \<Rightarrow> bytes \<times> bytes \<Rightarrow> bytes \<times> bytes" where
  "encode_loop [] addresses acc = acc"
| "encode_loop (b # bs) addresses acc =
     encode_loop bs (tl addresses)
       (fst acc @ be_uint32 (hd addresses) @ be_uint32 (word_of_nat (length (Data b))), snd acc @ Data b)"

text \<open>The length of a list of blobs as \<^verbatim>\<open>uint64\<close>.\<close>

definition blob_count :: "Blob list \<Rightarrow> 64 word" where
  "blob_count blobs = word_of_nat (length blobs)"

text \<open>The construction of the inputs, after the checks.\<close>

definition encode_tables ::
  "(bytes \<Rightarrow> nat \<Rightarrow> 'a) \<Rightarrow> bool \<Rightarrow> Blob list \<Rightarrow> 32 word \<times> 32 word list \<Rightarrow> (string \<rightharpoonup> 'a)" where
  "encode_tables new_array executable blobs = (\<lambda>(entryPoint, addresses).
     let entryAndCount = be_uint32 entryPoint @ be_uint32 (word_of_nat (length blobs));
         tables = encode_loop blobs addresses ([], []);
         inputs =
           [''entry_point_and_blobs_count'' \<mapsto> BitArrayFromBytes new_array entryAndCount,
            ''blobs_offset_and_size'' \<mapsto> BitArrayFromBytes new_array (fst tables),
            ''blobs_data'' \<mapsto> BitArrayFromBytes new_array (snd tables)]
     in if executable
        then inputs(''blobs_executable'' \<mapsto> BitArrayFromBytes new_array (encodeExecutableBits blobs))
        else inputs)"

definition EncodeInputs ::
  "(bytes \<Rightarrow> nat \<Rightarrow> 'a) \<Rightarrow> Program \<Rightarrow> Blob list \<Rightarrow> config go_option list \<Rightarrow> (string \<rightharpoonup> 'a) go" where
  "EncodeInputs new_array program additional options =
     go_bind (apply_options options \<lparr>includeExecutable = False, sectionsWriter = None\<rparr>) (\<lambda>cfg.
     let blobs = sort_blobs (Blobs program @ additional) in
     go_bind (validateRanges blobs) (\<lambda>_.
     go_bind (case sectionsWriter cfg of None \<Rightarrow> Ret () | Some writer \<Rightarrow> writeSections writer blobs) (\<lambda>_.
     go_bind (addressSpace32 (EntryPoint program) blobs) (\<lambda>space.
     let dataSize = blobDataSize blobs in
     if blob_count blobs > MaxUint32 \<or> dataSize > MaxUint32 then Err ''memory blobs exceed the u32 input limit''
     else Ret (encode_tables new_array (includeExecutable cfg) blobs space)))))"

definition elf_PrepareInputs ::
  "(bytes \<Rightarrow> elf_file go) \<Rightarrow> (Blob list \<Rightarrow> Blob list) \<Rightarrow> (bytes \<Rightarrow> nat \<Rightarrow> 'a) \<Rightarrow> bytes \<Rightarrow> bytes
    \<Rightarrow> config go_option list \<Rightarrow> (string \<rightharpoonup> 'a) go" where
  "elf_PrepareInputs new_file sort_slice new_array elfBytes inputData options =
     go_bind (Load new_file sort_slice elfBytes) (\<lambda>program.
     go_bind (NewData DefaultInputOrigin inputData [WithLengthPrefix]) (\<lambda>inputBlobs.
     EncodeInputs new_array program inputBlobs options))"

section \<open>Ranges\<close>

text \<open>
  The end of a blob, as a number; a Go slice has fewer than \<open>2^63\<close> bytes. Two blobs are in order when
  the first ends before the second starts.
\<close>

definition blob_end :: "Blob \<Rightarrow> nat" where
  "blob_end b = unat (Address b) + length (Data b)"

definition slice_ok :: "Blob \<Rightarrow> bool" where
  "slice_ok b \<longleftrightarrow> length (Data b) < 2 ^ 63"

abbreviation non_empty :: "Blob list \<Rightarrow> Blob list" where
  "non_empty \<equiv> filter (\<lambda>b. Data b \<noteq> [])"

definition ordered_blobs :: "Blob list \<Rightarrow> bool" where
  "ordered_blobs bs \<longleftrightarrow> sorted_wrt (\<lambda>b c. blob_end b \<le> unat (Address c)) (non_empty bs)"

lemma unat_blob_len: "slice_ok b \<Longrightarrow> unat (blob_len b) = length (Data b)"
  by (simp add: slice_ok_def blob_len_def unat_of_nat)

lemma blob_no_overflow:
  "slice_ok b \<Longrightarrow> Address b + blob_len b < Address b \<longleftrightarrow> \<not> blob_end b < 2 ^ 64"
  using no_olen_add_nat [of "Address b" "blob_len b"]
  by (simp add: unat_blob_len blob_end_def not_le [symmetric])

lemma unat_blob_end: "slice_ok b \<Longrightarrow> blob_end b < 2 ^ 64 \<Longrightarrow> unat (Address b + blob_len b) = blob_end b"
  using unat_add_lem [of "Address b" "blob_len b"] by (simp add: unat_blob_len blob_end_def)

lemma validate_loop_Ret:
  assumes "\<forall>b \<in> set bs. slice_ok b"
  shows "validate_loop bs previousEnd hasPrevious = Ret () \<longleftrightarrow>
    ordered_blobs bs \<and> (\<forall>b \<in> set (non_empty bs). blob_end b < 2 ^ 64 \<and>
      (hasPrevious \<longrightarrow> unat previousEnd \<le> unat (Address b)))"
  using assms
proof (induction bs arbitrary: previousEnd hasPrevious)
  case Nil
  then show ?case by (simp add: ordered_blobs_def)
next
  case (Cons b bs)
  show ?case
  proof (cases "Data b = [] \<or> \<not> blob_end b < 2 ^ 64")
    case True
    then show ?thesis using Cons by (auto simp: ordered_blobs_def blob_no_overflow Let_def)
  next
    case False
    hence e: "unat (Address b + blob_len b) = blob_end b" "\<not> Address b + blob_len b < Address b"
      using Cons.prems by (auto simp: unat_blob_end blob_no_overflow)
    have "unat previousEnd \<le> unat (Address b) \<Longrightarrow> blob_end b \<le> unat (Address c) \<Longrightarrow>
        unat previousEnd \<le> unat (Address c)" for c
      by (simp add: blob_end_def)
    then show ?thesis
      using False Cons e by (auto simp: ordered_blobs_def word_less_nat_alt Let_def not_less)
  qed
qed

lemma validateRanges_Ret:
  "\<forall>b \<in> set bs. slice_ok b \<Longrightarrow>
   validateRanges bs = Ret () \<longleftrightarrow> ordered_blobs bs \<and> (\<forall>b \<in> set (non_empty bs). blob_end b < 2 ^ 64)"
  by (simp add: validateRanges_def validate_loop_Ret)

lemma address_space_blob:
  assumes "slice_ok b"
  shows "Address b > MaxUint32 \<or> blob_len b > MaxUint32 + 1 - Address b \<longleftrightarrow>
    \<not> (unat (Address b) < 2 ^ 32 \<and> blob_end b \<le> 2 ^ 32)"
proof (cases "Address b > MaxUint32")
  case True
  then show ?thesis by (simp add: word_less_nat_alt)
next
  case False
  hence "unat (0x100000000 - Address b) = 2 ^ 32 - unat (Address b)" "unat (Address b) < 2 ^ 32"
    by (simp_all add: unat_sub_if' word_less_nat_alt)
  then show ?thesis
    using False assms by (auto simp: word_less_nat_alt unat_blob_len blob_end_def)
qed

lemma address_loop_Ret:
  assumes "\<forall>b \<in> set bs. slice_ok b"
  shows "address_loop bs acc = Ret addresses \<longleftrightarrow>
    (\<forall>b \<in> set bs. unat (Address b) < 2 ^ 32 \<and> blob_end b \<le> 2 ^ 32) \<and>
    addresses = acc @ map (\<lambda>b. ucast (Address b)) bs"
  using assms address_space_blob by (induction bs arbitrary: acc) (auto simp del: word_less_nat_alt)

lemma ordered_size:
  assumes "sorted_wrt (\<lambda>b c. blob_end b \<le> unat (Address c)) bs" "\<forall>b \<in> set bs. blob_end b \<le> m"
    "\<forall>b \<in> set bs. lo \<le> unat (Address b)" "lo \<le> m"
  shows "lo + sum_list (map (\<lambda>b. length (Data b)) bs) \<le> m"
  using assms
proof (induction bs arbitrary: lo)
  case Nil
  then show ?case by simp
next
  case (Cons b bs)
  have "blob_end b + sum_list (map (\<lambda>b. length (Data b)) bs) \<le> m" using Cons by auto
  moreover have "lo + length (Data b) \<le> blob_end b" using Cons.prems by (simp add: blob_end_def)
  ultimately show ?case by simp
qed

lemma sum_non_empty: "sum_list (map (\<lambda>b. length (Data b)) (non_empty bs)) = sum_list (map (\<lambda>b. length (Data b)) bs)"
  by (induction bs) auto

lemma blobDataSize_sum: "blobDataSize bs = word_of_nat (sum_list (map (\<lambda>b. length (Data b)) bs))"
proof -
  have "foldl (\<lambda>size b. size + blob_len b) a bs = a + word_of_nat (sum_list (map (\<lambda>b. length (Data b)) bs))" for a
    by (induction bs arbitrary: a) (simp_all add: blob_len_def)
  thus ?thesis by (simp add: blobDataSize_def)
qed

section \<open>The encoded tables\<close>

text \<open>
  How the interpreter reads the tables: the header, and one entry of address and size for each blob,
  whose bytes follow each other in the data.
\<close>

primrec read_blobs :: "nat \<Rightarrow> bytes \<Rightarrow> bytes \<Rightarrow> (nat \<times> bytes) list" where
  "read_blobs 0 offsets data = []"
| "read_blobs (Suc n) offsets data =
     (let size = be_nat (take 4 (drop 4 offsets)) in
      (be_nat (take 4 offsets), take size data) # read_blobs n (drop 8 offsets) (drop size data))"

lemma length_be_uint32 [simp]: "length (be_uint32 v) = 4"
  by (simp add: be_uint32_def)

lemma be_nat_uint32 [simp]: "be_nat (be_uint32 v) = unat v"
proof -
  have "unat v < 2 ^ LENGTH(32)" by (rule unsigned_less)
  thus ?thesis by (simp add: be_uint32_def)
qed

lemma unat_uint32_small: "n < 2 ^ 32 \<Longrightarrow> unat (word_of_nat n :: 32 word) = n"
  by (simp add: unat_of_nat)

lemma unat_ucast_address: "unat a < 2 ^ 32 \<Longrightarrow> unat (ucast (a :: 64 word) :: 32 word) = unat a"
  by (simp add: unsigned_ucast_eq take_bit_nat_eq_self)

definition encode_entry :: "Blob \<Rightarrow> bytes" where
  "encode_entry b = be_uint32 (ucast (Address b)) @ be_uint32 (word_of_nat (length (Data b)))"

lemma encode_loop_eq:
  "encode_loop bs (map (\<lambda>b. ucast (Address b)) bs) (offsets, data) =
     (offsets @ concat (map encode_entry bs), data @ concat (map Data bs))"
  by (induction bs arbitrary: offsets data) (simp_all add: encode_entry_def)

lemma read_encoded:
  assumes "\<forall>b \<in> set bs. unat (Address b) < 2 ^ 32 \<and> length (Data b) < 2 ^ 32"
  shows "read_blobs (length bs) (concat (map encode_entry bs)) (concat (map Data bs)) =
    map (\<lambda>b. (unat (Address b), Data b)) bs"
  using assms by (induction bs) (simp_all add: encode_entry_def unat_uint32_small unat_ucast_address)

lemma bit_at_executable_loop:
  "i + length bs \<le> 8 * length bits \<Longrightarrow>
   bit_at (executable_loop i bs bits) j \<longleftrightarrow>
     bit_at bits j \<or> (i \<le> j \<and> j < i + length bs \<and> Executable (bs ! (j - i)))"
proof (induction bs arbitrary: i bits)
  case (Cons b bs)
  have "bit_at (executable_loop (i + 1) bs (if Executable b then set_bit_at bits i else bits)) j \<longleftrightarrow>
    bit_at (if Executable b then set_bit_at bits i else bits) j \<or>
    (i + 1 \<le> j \<and> j < i + 1 + length bs \<and> Executable (bs ! (j - (i + 1))))"
    using Cons.prems by (intro Cons.IH) simp
  moreover have "bit_at (if Executable b then set_bit_at bits i else bits) j \<longleftrightarrow>
    bit_at bits j \<or> (j = i \<and> Executable b)"
    using Cons.prems by (auto simp: bit_stream_simps)
  moreover have "(b # bs) ! (j - i) = (if j = i then b else bs ! (j - (i + 1)))" if "i \<le> j"
    using that by (auto simp: nth_Cons')
  ultimately show ?case by (cases "j = i") auto
qed auto

lemma bit_at_executable:
  "i < length bs \<Longrightarrow> bit_at (encodeExecutableBits bs) i \<longleftrightarrow> Executable (bs ! i)"
  using bit_at_executable_loop [of 0 bs "replicate ((length bs + 7) div 8) 0" i]
  by (simp add: encodeExecutableBits_def bit_stream_simps)

text \<open>The checks of \<^verbatim>\<open>EncodeInputs\<close> leave 32-bit sizes: the sum of the sizes does not wrap.\<close>

lemma encoded_sizes:
  assumes "ordered_blobs bs" "\<forall>b \<in> set bs. blob_end b \<le> 2 ^ 32" "\<not> blobDataSize bs > MaxUint32" "b \<in> set bs"
  shows "length (Data b) < 2 ^ 32"
proof -
  let ?n = "sum_list (map (\<lambda>b. length (Data b)) bs)"
  have "?n \<le> 2 ^ 32"
    using ordered_size [of "non_empty bs" "2 ^ 32" 0] assms(1,2) by (simp add: ordered_blobs_def sum_non_empty)
  hence "unat (blobDataSize bs) = ?n" by (simp add: blobDataSize_sum unat_of_nat)
  hence "?n < 2 ^ 32" using assms(3) by (simp add: word_less_nat_alt)
  moreover have "length (Data b) \<le> ?n" using assms(4) by (intro member_le_sum_list) simp_all
  ultimately show ?thesis by simp
qed

lemma err_guard: "(if c then Err e else m) = Ret y \<longleftrightarrow> \<not> c \<and> m = Ret y"
  by simp

lemma sort_blobs_set [simp]: "set (sort_blobs bs) = set bs" "length (sort_blobs bs) = length bs"
  by (simp_all add: sort_blobs_def)

text \<open>
  C22: When \<open>EncodeInputs\<close> succeeds, reading its tables back gives the entry point, the number of
  blobs, and every blob of the program and of the additional data with its address and bytes, in the
  order of the addresses; no two non-empty blobs overlap and none leaves the 32-bit address space, so
  that no address, size or count was truncated; and the optional bitmap marks the executable blobs.
\<close>

theorem encode_inputs_tables:
  assumes enc: "EncodeInputs new_array program additional options = Ret inputs"
    and slices: "\<forall>b \<in> set (Blobs program @ additional). slice_ok b"
    and count: "length (Blobs program @ additional) < 2 ^ 63"
  shows "let bs = sort_blobs (Blobs program @ additional) in
    ordered_blobs bs \<and> (\<forall>b \<in> set bs. blob_end b \<le> 2 ^ 32) \<and>
    (\<exists>header offsets data.
      inputs ''entry_point_and_blobs_count'' = Some (BitArrayFromBytes new_array header) \<and>
      inputs ''blobs_offset_and_size'' = Some (BitArrayFromBytes new_array offsets) \<and>
      inputs ''blobs_data'' = Some (BitArrayFromBytes new_array data) \<and>
      be_nat (take 4 header) = unat (EntryPoint program) \<and> be_nat (drop 4 header) = length bs \<and>
      read_blobs (length bs) offsets data = map (\<lambda>b. (unat (Address b), Data b)) bs) \<and>
    (\<forall>e. inputs ''blobs_executable'' = Some e \<longrightarrow>
      (\<exists>bits. e = BitArrayFromBytes new_array bits \<and> (\<forall>i < length bs. bit_at bits i = Executable (bs ! i))))"
proof -
  define bs where "bs = sort_blobs (Blobs program @ additional)"
  have ok: "\<forall>b \<in> set bs. slice_ok b" using slices by (simp add: bs_def)
  obtain cfg :: config and entryPoint addresses where run:
    "validateRanges bs = Ret ()" "addressSpace32 (EntryPoint program) bs = Ret (entryPoint, addresses)"
    "\<not> blob_count bs > MaxUint32" "\<not> blobDataSize bs > MaxUint32" and
    out: "encode_tables new_array (includeExecutable cfg) bs (entryPoint, addresses) = inputs"
    using enc unfolding EncodeInputs_def bs_def [symmetric] Let_def
    by (simp add: go_simps err_guard del: if_split) blast
  have ordered: "ordered_blobs bs" using run(1) ok by (simp add: validateRanges_Ret)
  have space: "\<forall>b \<in> set bs. unat (Address b) < 2 ^ 32 \<and> blob_end b \<le> 2 ^ 32"
    and addrs: "addresses = map (\<lambda>b. ucast (Address b)) bs"
    and entry: "\<not> EntryPoint program > MaxUint32" "entryPoint = ucast (EntryPoint program)"
    using run(2) ok by (auto simp: addressSpace32_def go_simps address_loop_Ret split: if_splits)
  have tables: "encode_loop bs addresses ([], []) = (concat (map encode_entry bs), concat (map Data bs))"
    by (simp add: addrs encode_loop_eq)
  have "length bs < 2 ^ 63" using count by (simp add: bs_def)
  hence "unat (blob_count bs) = length bs" by (simp add: blob_count_def unat_of_nat)
  hence small: "length bs < 2 ^ 32" "unat (EntryPoint program) < 2 ^ 32"
    using run(3) entry(1) by (simp_all add: word_less_nat_alt)
  let ?header = "be_uint32 entryPoint @ be_uint32 (word_of_nat (length bs))"
  have header: "be_nat (take 4 ?header) = unat (EntryPoint program)" "be_nat (drop 4 ?header) = length bs"
    using small by (simp_all add: entry(2) unat_uint32_small unat_ucast_address)
  have blobs: "read_blobs (length bs) (concat (map encode_entry bs)) (concat (map Data bs)) =
      map (\<lambda>b. (unat (Address b), Data b)) bs"
    using space ordered run(4) encoded_sizes [of bs] by (intro read_encoded) auto
  have inputs: "inputs ''entry_point_and_blobs_count'' = Some (BitArrayFromBytes new_array ?header)"
    "inputs ''blobs_offset_and_size'' = Some (BitArrayFromBytes new_array (concat (map encode_entry bs)))"
    "inputs ''blobs_data'' = Some (BitArrayFromBytes new_array (concat (map Data bs)))"
    "inputs ''blobs_executable'' = Some e \<Longrightarrow> e = BitArrayFromBytes new_array (encodeExecutableBits bs)" for e
    unfolding out [symmetric] encode_tables_def prod.case tables Let_def by (simp_all split: if_splits)
  show ?thesis
    unfolding bs_def [symmetric] Let_def
    using ordered space inputs header blobs bit_at_executable [where bs = bs] by blast
qed

text \<open>A program with a text section and, below it, read-only data.\<close>

definition demo_program :: Program where
  "demo_program =
     \<lparr>EntryPoint = 0x2000, Blobs =
       [\<lparr>Address = 0x2000, Data = [0x93, 0, 0x10, 0, 0x73, 0, 0, 0], Name = ''.text'', Executable = True\<rparr>,
        \<lparr>Address = 0x1000, Data = [7], Name = ''.rodata'', Executable = False\<rparr>]\<rparr>"

lemma demo_encoded:
  "sort_blobs (Blobs demo_program @ []) = rev (Blobs demo_program)"
  "EncodeInputs Pair demo_program [] [WithIncludeExecutable] =
     Ret (encode_tables Pair True (rev (Blobs demo_program)) (0x2000, [0x1000, 0x2000]))"
proof -
  show bs: "sort_blobs (Blobs demo_program @ []) = rev (Blobs demo_program)"
    by (simp add: sort_blobs_def demo_program_def)
  have "validateRanges (rev (Blobs demo_program)) = Ret ()"
    "addressSpace32 (EntryPoint demo_program) (rev (Blobs demo_program)) = Ret (0x2000, [0x1000, 0x2000])"
    "blobDataSize (rev (Blobs demo_program)) = 9" "blob_count (rev (Blobs demo_program)) = 2"
    by (simp_all add: demo_program_def validateRanges_def addressSpace32_def blobDataSize_def blob_len_def
        blob_count_def)
  thus "EncodeInputs Pair demo_program [] [WithIncludeExecutable] =
     Ret (encode_tables Pair True (rev (Blobs demo_program)) (0x2000, [0x1000, 0x2000]))"
    unfolding EncodeInputs_def bs by (simp add: WithIncludeExecutable_def Let_def)
qed

theorem encode_inputs_tables_witness:
  "\<exists>inputs header offsets data bits.
     EncodeInputs Pair demo_program [] [WithIncludeExecutable] = Ret inputs \<and>
     inputs ''entry_point_and_blobs_count'' = Some (BitArrayFromBytes Pair header) \<and>
     inputs ''blobs_executable'' = Some (BitArrayFromBytes Pair bits) \<and>
     inputs ''blobs_offset_and_size'' = Some (BitArrayFromBytes Pair offsets) \<and>
     inputs ''blobs_data'' = Some (BitArrayFromBytes Pair data) \<and>
     be_nat (take 4 header) = 0x2000 \<and>
     read_blobs 2 offsets data = [(0x1000, [7]), (0x2000, [0x93, 0, 0x10, 0, 0x73, 0, 0, 0])] \<and>
     \<not> bit_at bits 0 \<and> bit_at bits 1"
proof -
  note bs = demo_encoded(1)
  obtain inputs e where enc: "EncodeInputs Pair demo_program [] [WithIncludeExecutable] = Ret inputs"
    "inputs ''blobs_executable'' = Some e"
    by (rule that [OF demo_encoded(2)]) (simp add: encode_tables_def Let_def)
  have hyps: "\<forall>b \<in> set (Blobs demo_program @ []). slice_ok b" "length (Blobs demo_program @ []) < 2 ^ 63"
    by (simp_all add: demo_program_def slice_ok_def)
  note tables = encode_inputs_tables [OF enc(1) hyps, unfolded Let_def bs]
  obtain header offsets data where t:
    "inputs ''entry_point_and_blobs_count'' = Some (BitArrayFromBytes Pair header)"
    "inputs ''blobs_offset_and_size'' = Some (BitArrayFromBytes Pair offsets)"
    "inputs ''blobs_data'' = Some (BitArrayFromBytes Pair data)"
    "be_nat (take 4 header) = unat (EntryPoint demo_program)"
    "read_blobs (length (rev (Blobs demo_program))) offsets data =
       map (\<lambda>b. (unat (Address b), Data b)) (rev (Blobs demo_program))"
    using tables by blast
  obtain bits where b: "e = BitArrayFromBytes Pair bits"
    "\<forall>i < length (rev (Blobs demo_program)). bit_at bits i = Executable (rev (Blobs demo_program) ! i)"
    using tables enc(2) by blast
  have f: "length (rev (Blobs demo_program)) = 2" "unat (EntryPoint demo_program) = 0x2000"
    "map (\<lambda>b. (unat (Address b), Data b)) (rev (Blobs demo_program)) =
       [(0x1000, [7]), (0x2000, [0x93, 0, 0x10, 0, 0x73, 0, 0, 0])]"
    "Executable (rev (Blobs demo_program) ! 0) = False" "Executable (rev (Blobs demo_program) ! 1) = True"
    by (simp_all add: demo_program_def)
  have bits: "\<not> bit_at bits 0" "bit_at bits 1"
    using b(2) f(4,5) unfolding f(1) by simp_all
  show ?thesis
    using enc(1) t(1) enc(2) [unfolded b(1)] t(2,3) t(4) [unfolded f(2)] t(5) [unfolded f(1,3)] bits by blast
qed

end
