(* ===== verification/Riscv_Pack.thy ===== *)
theory Riscv_Pack
  imports Riscv_Isa Elf_Map
begin

text \<open>
  The rest of the R5 predecoder (\<^verbatim>\<open>arithmetization/gopkg/predecoding/decode.go\<close>): the image of the
  executable blobs, and the table of packed 87-bit records. Addresses and lengths are \<^verbatim>\<open>uint64\<close> words,
  with their wrap-around; the slice expressions panic out of range, as in Go. The lemmas show that a
  record is read back as it was written and that the image is the memory the blobs describe.
\<close>

section \<open>The bit writer\<close>

record bitWriter =
  buf :: bytes
  nbits :: nat

text \<open>\<open>writeBits w val width\<close>: the loop writes bit \<^verbatim>\<open>width - 1\<close> first.\<close>

primrec writeBits :: "bitWriter \<Rightarrow> 64 word \<Rightarrow> nat \<Rightarrow> bitWriter" where
  "writeBits w val 0 = w"
| "writeBits w val (Suc i) =
     (let b = (if nbits w mod 8 = 0 then buf w @ [0] else buf w);
          b = (if drop_bit i val AND 1 = 1 then set_bit_at b (nbits w) else b)
      in writeBits \<lparr>buf = b, nbits = nbits w + 1\<rparr> val i)"

definition decodeInstruction :: "bitWriter \<Rightarrow> 32 word \<Rightarrow> bitWriter" where
  "decodeInstruction decoded instruction =
     (case instruction_fields instruction of (op, imm, operandRS1, operandRS2, operandRD) \<Rightarrow>
      let decoded = writeBits decoded op 8;
          decoded = writeBits decoded imm 64;
          decoded = writeBits decoded operandRS1 5;
          decoded = writeBits decoded operandRS2 5
      in writeBits decoded operandRD 5)"

text \<open>\<^verbatim>\<open>binary.LittleEndian.Uint32\<close> of four bytes.\<close>

definition le_uint32 :: "bytes \<Rightarrow> 32 word" where
  "le_uint32 b = ucast (b ! 0) OR push_bit 8 (ucast (b ! 1)) OR push_bit 16 (ucast (b ! 2)) OR push_bit 24 (ucast (b ! 3))"

primrec decode_loop :: "bytes \<Rightarrow> 64 word \<Rightarrow> nat \<Rightarrow> bitWriter \<Rightarrow> bitWriter go" where
  "decode_loop img rcd 0 decoded = Ret decoded"
| "decode_loop img rcd (Suc n) decoded =
     (let offset = rcd * 4 in
      if offset + 4 < offset \<or> length img < unat (offset + 4) then Panic ''slice bounds out of range''
      else decode_loop img (rcd + 1) n
        (decodeInstruction decoded (le_uint32 (take 4 (drop (unat offset) img)))))"

definition decodeImage :: "bytes \<Rightarrow> 64 word \<Rightarrow> bytes go" where
  "decodeImage img records =
     go_bind (decode_loop img 0 (unat records) \<lparr>buf = [], nbits = 0\<rparr>) (\<lambda>decoded. Ret (buf decoded))"

section \<open>The executable image\<close>

text \<open>The loop over the sorted blobs; \<open>first\<close> is \<^verbatim>\<open>i == 0\<close>. It returns the largest end.\<close>

primrec span_loop :: "bool \<Rightarrow> Blob list \<Rightarrow> 64 word \<Rightarrow> 64 word \<Rightarrow> 64 word go" where
  "span_loop first [] previousEnd maxEnd = Ret maxEnd"
| "span_loop first (b # bs) previousEnd maxEnd =
     (let stop = Address b + blob_len b in
      if stop < Address b then Err ''executable blob overflows address space''
      else if \<not> first \<and> Data b \<noteq> [] \<and> Address b < previousEnd then Err ''executable blob overlaps preceding blob''
      else span_loop False bs (if Data b \<noteq> [] then stop else previousEnd) (if maxEnd < stop then stop else maxEnd))"

text \<open>\<^verbatim>\<open>copy(img[lo:], data)\<close>.\<close>

definition copy_at :: "bytes \<Rightarrow> 64 word \<Rightarrow> bytes \<Rightarrow> bytes go" where
  "copy_at img lo data =
     (if length img < unat lo then Panic ''slice bounds out of range''
      else Ret (take (unat lo) img @ take (length img - unat lo) data @ drop (unat lo + length data) img))"

primrec copy_loop :: "64 word \<Rightarrow> Blob list \<Rightarrow> bytes \<Rightarrow> bytes go" where
  "copy_loop base [] img = Ret img"
| "copy_loop base (b # bs) img = go_bind (copy_at img (Address b - base) (Data b)) (copy_loop base bs)"

text \<open>\<^verbatim>\<open>a &^ uint64(3)\<close>.\<close>

definition align4 :: "64 word \<Rightarrow> 64 word" where
  "align4 a = a AND NOT 3"

definition executableImage :: "Blob list \<Rightarrow> 64 word \<Rightarrow> (64 word \<times> bytes \<times> 64 word) go" where
  "executableImage blobs maxRecords =
     (let executable = filter Executable blobs in
      if executable = [] then Err ''no executable blobs found for instruction decoding''
      else
        let executable = sort_blobs executable;
            base = align4 (Address (hd executable))
        in go_bind (span_loop True executable 0 0) (\<lambda>maxEnd.
           if maxEnd > 0xffffffff - 3 then Err ''executable span end is outside the 32-bit address space''
           else
             let alignedEnd = align4 (maxEnd + 3);
                 records = (alignedEnd - base) div 4
             in if records > maxRecords then Err ''decoded program has too many records''
                else
                  let span = alignedEnd - base in
                  if span > 0x7fffffffffffffff then Err ''executable span has unsupported size''
                  else go_bind (copy_loop base executable (replicate (unat span) 0)) (\<lambda>img.
                       Ret (base, img, records))))"

section \<open>Predecoding\<close>

record DecodedProgram =
  InstructionBase :: "64 word"
  Decoded :: bytes

definition predecode :: "Program \<Rightarrow> 64 word \<Rightarrow> DecodedProgram go" where
  "predecode program maxDecodedRecords =
     go_bind (executableImage (Blobs program) maxDecodedRecords) (\<lambda>(base, img, records).
     go_bind (decodeImage img records) (\<lambda>decoded.
     Ret \<lparr>InstructionBase = base, Decoded = decoded\<rparr>))"

text \<open>The options of the predecoder.\<close>

record predecode_config =
  maxDecodedRecords :: "64 word"
  mappingOptions :: "config go_option list"

definition DefaultMaxDecodedRecords :: "64 word" where
  "DefaultMaxDecodedRecords = 2000000"

definition WithMaxDecodedRecords :: "64 word \<Rightarrow> predecode_config go_option" where
  "WithMaxDecodedRecords maximum = Some (\<lambda>cfg. Ret (cfg\<lparr>maxDecodedRecords := maximum\<rparr>))"

definition predecode_WithIncludeExecutable :: "predecode_config go_option" where
  "predecode_WithIncludeExecutable =
     Some (\<lambda>cfg. Ret (cfg\<lparr>mappingOptions := mappingOptions cfg @ [WithIncludeExecutable]\<rparr>))"

definition predecode_WithSectionsWriter :: "sections_writer option \<Rightarrow> predecode_config go_option" where
  "predecode_WithSectionsWriter writer =
     Some (\<lambda>cfg. if writer = None then Err ''sections writer is nil''
                 else Ret (cfg\<lparr>mappingOptions := mappingOptions cfg @ [WithSectionsWriter writer]\<rparr>))"

definition applyOptions :: "predecode_config go_option list \<Rightarrow> predecode_config go" where
  "applyOptions options =
     apply_options options \<lparr>maxDecodedRecords = DefaultMaxDecodedRecords, mappingOptions = []\<rparr>"

definition Predecode :: "Program \<Rightarrow> predecode_config go_option list \<Rightarrow> DecodedProgram go" where
  "Predecode program options =
     go_bind (applyOptions options) (\<lambda>cfg. predecode program (maxDecodedRecords cfg))"

definition decoded_EncodeInputs :: "(bytes \<Rightarrow> nat \<Rightarrow> 'a) \<Rightarrow> DecodedProgram \<Rightarrow> (string \<rightharpoonup> 'a)" where
  "decoded_EncodeInputs new_array program =
     [''instruction_base'' \<mapsto> BitArrayFromBytes new_array (be_uint32 (ucast (InstructionBase program))),
      ''decoded'' \<mapsto> BitArrayFromBytes new_array (Decoded program)]"

definition PrepareInputs ::
  "(bytes \<Rightarrow> elf_file go) \<Rightarrow> (Blob list \<Rightarrow> Blob list) \<Rightarrow> (bytes \<Rightarrow> nat \<Rightarrow> 'a) \<Rightarrow> bytes \<Rightarrow> bytes
    \<Rightarrow> predecode_config go_option list \<Rightarrow> (string \<rightharpoonup> 'a) go" where
  "PrepareInputs new_file sort_slice new_array elfBytes inputData options =
     go_bind (applyOptions options) (\<lambda>cfg.
     go_bind (Load new_file sort_slice elfBytes) (\<lambda>program.
     go_bind (predecode program (maxDecodedRecords cfg)) (\<lambda>decoded.
     go_bind (NewData DefaultInputOrigin inputData [WithLengthPrefix]) (\<lambda>inputBlobs.
     go_bind (EncodeInputs new_array program inputBlobs (mappingOptions cfg)) (\<lambda>inputs.
     Ret (inputs ++ decoded_EncodeInputs new_array decoded))))))"

section \<open>The bit stream\<close>

text \<open>The bits written so far. The buffer has no byte more than needed, and zero padding.\<close>

definition stream_of :: "bitWriter \<Rightarrow> bool list" where
  "stream_of w = map (bit_at (buf w)) [0..<nbits w]"

definition writer_wf :: "bitWriter \<Rightarrow> bool" where
  "writer_wf w \<longleftrightarrow> length (buf w) = (nbits w + 7) div 8 \<and>
     (\<forall>k. nbits w \<le> k \<and> k < 8 * length (buf w) \<longrightarrow> \<not> bit_at (buf w) k)"

definition write_bit :: "bitWriter \<Rightarrow> bool \<Rightarrow> bitWriter" where
  "write_bit w v =
     (let b = (if nbits w mod 8 = 0 then buf w @ [0] else buf w)
      in \<lparr>buf = (if v then set_bit_at b (nbits w) else b), nbits = nbits w + 1\<rparr>)"

lemma bit_test: "drop_bit i (v :: 64 word) AND 1 = 1 \<longleftrightarrow> bit v i"
  by (simp add: bit_iff_odd_drop_bit and_one_eq odd_iff_mod_2_eq_one)

lemma writeBits_Suc: "writeBits w val (Suc i) = writeBits (write_bit w (bit val i)) val i"
  by (simp add: write_bit_def bit_test Let_def)

lemma write_bit_wf:
  assumes "writer_wf w"
  shows "writer_wf (write_bit w v) \<and> stream_of (write_bit w v) = stream_of w @ [v]"
proof -
  define b where "b = (if nbits w mod 8 = 0 then buf w @ replicate 1 0 else buf w)"
  have len: "length b = (nbits w + 8) div 8" "nbits w < 8 * length b" "nbits w \<le> 8 * length (buf w)"
    using assms by (auto simp: b_def writer_wf_def) presburger+
  have old: "bit_at b k \<longleftrightarrow> k < nbits w \<and> bit_at (buf w) k" if "k < 8 * length b" for k
  proof (cases "k < 8 * length (buf w)")
    case True
    hence "bit_at b k = bit_at (buf w) k" by (simp add: b_def bit_at_append)
    thus ?thesis using True assms by (auto simp: writer_wf_def not_less [symmetric])
  next
    case False
    hence "\<not> bit_at b k" using that bit_at_append_zero [of "buf w" k 1] by (auto simp: b_def)
    thus ?thesis using False len(3) by simp
  qed
  have new: "write_bit w v = \<lparr>buf = (if v then set_bit_at b (nbits w) else b), nbits = nbits w + 1\<rparr>"
    by (simp add: write_bit_def b_def Let_def)
  have bits: "bit_at (buf (write_bit w v)) k \<longleftrightarrow> k < nbits w \<and> bit_at (buf w) k \<or> k = nbits w \<and> v"
    if "k < 8 * length b" for k
    using old [OF that] old [OF len(2)] bit_at_set [OF len(2)] by (auto simp: new)
  have "writer_wf (write_bit w v)" using len bits by (auto simp: writer_wf_def new)
  moreover have "stream_of (write_bit w v) = stream_of w @ [v]"
    using bits len(2) by (simp add: stream_of_def new)
  ultimately show ?thesis by simp
qed

lemma writeBits_stream:
  "writer_wf w \<Longrightarrow> writer_wf (writeBits w val n) \<and>
     stream_of (writeBits w val n) = stream_of w @ map (bit val) (rev [0..<n])"
proof (induction n arbitrary: w)
  case (Suc n)
  have "writer_wf (write_bit w (bit val n))" "stream_of (write_bit w (bit val n)) = stream_of w @ [bit val n]"
    using write_bit_wf Suc.prems by auto
  thus ?case using Suc.IH [of "write_bit w (bit val n)"] unfolding writeBits_Suc by simp
qed simp

text \<open>The 87 bits of a record.\<close>

definition record_bits :: "32 word \<Rightarrow> bool list" where
  "record_bits x =
     (case instruction_fields x of (op, imm, rs1, rs2, rd) \<Rightarrow>
      map (bit op) (rev [0..<8]) @ map (bit imm) (rev [0..<64]) @ map (bit rs1) (rev [0..<5])
      @ map (bit rs2) (rev [0..<5]) @ map (bit rd) (rev [0..<5]))"

lemma length_record_bits [simp]: "length (record_bits x) = 87"
  by (simp add: record_bits_def split: prod.splits)

lemma decodeInstruction_stream:
  "writer_wf w \<Longrightarrow> writer_wf (decodeInstruction w x) \<and>
     stream_of (decodeInstruction w x) = stream_of w @ record_bits x"
  by (auto simp: decodeInstruction_def record_bits_def writeBits_stream Let_def simp del: upt_rec_numeral
      split: prod.splits)

section \<open>Reading the table\<close>

text \<open>Record \<open>i\<close> of the table, as the interpreter reads it: fields of 8, 64, 5, 5 and 5 bits.\<close>

definition read_record :: "bytes \<Rightarrow> nat \<Rightarrow> 64 word \<times> 64 word \<times> 64 word \<times> 64 word \<times> 64 word" where
  "read_record bs i =
     (read_bits bs (87 * i) 8, read_bits bs (87 * i + 8) 64, read_bits bs (87 * i + 72) 5,
      read_bits bs (87 * i + 77) 5, read_bits bs (87 * i + 82) 5)"

lemma isa_compute_op_byte: "isa_compute_op x < 256"
proof -
  have rows: "list_all (list_all (\<lambda>r. fst (snd r) < 256 \<and> fst (snd (snd r)) < 256) \<circ> snd) isa_table"
    by (simp add: isa_table_def)
  have "list_all (\<lambda>r. fst (snd r) < 256 \<and> fst (snd (snd r)) < 256) (isa_rows opcode)" for opcode
    using rows by (cases "map_of isa_table opcode") (fastforce simp: isa_rows_def list_all_iff dest: map_of_SomeD)+
  hence "fst (snd r) < 256 \<and> fst (snd (snd r)) < 256"
    if "List.find (selects x) (isa_rows (field 0 7 x)) = Some r" for r
    using that by (auto simp: find_Some_iff list_all_length)
  thus ?thesis
    by (cases "List.find (selects x) (isa_rows (field 0 7 x))") (simp_all add: isa_compute_op_def)
qed

lemma take_bit_byte:
  assumes "(y :: 32 word) < 256"
  shows "take_bit 8 (ucast y :: 64 word) = ucast y"
proof -
  have "unat (take_bit 8 y) = unat y"
    using assms by (simp add: unsigned_take_bit_eq take_bit_nat_eq_self word_less_nat_alt)
  hence "y = take_bit 8 y" by (simp add: word_unat_eq_iff)
  moreover have "take_bit 8 (ucast y :: 64 word) = ucast (take_bit 8 y)"
    by (rule bit_word_eqI) (auto simp: bit_simps)
  ultimately show ?thesis by simp
qed

lemma take_bit_field5: "take_bit 5 (ucast (field lo 5 x) :: 64 word) = ucast (field lo 5 x)"
  by (rule bit_word_eqI) (auto simp: bit_simps bit_field)

lemma fields_narrow:
  assumes "instruction_fields x = (op, imm, rs1, rs2, rd)"
  shows "take_bit 8 op = op" "take_bit 64 imm = imm" "take_bit 5 rs1 = rs1" "take_bit 5 rs2 = rs2"
    "take_bit 5 rd = rd"
proof -
  have "op = ucast (isa_compute_op x)" using assms by (simp add: fields_isa classify_isa_op)
  thus "take_bit 8 op = op" by (simp add: take_bit_byte isa_compute_op_byte)
  show "take_bit 5 rs1 = rs1" "take_bit 5 rs2 = rs2" "take_bit 5 rd = rd"
    using assms unfolding fields_isa unifiedOperands_def by (auto simp: take_bit_field5 split: if_splits)
  show "take_bit 64 imm = imm" by (rule bit_word_eqI) (simp add: bit_simps)
qed

lemma read_record_bits:
  assumes "map (bit_at bs) [87 * i..<87 * i + 87] = record_bits x"
  shows "read_record bs i = instruction_fields x"
proof -
  obtain op imm rs1 rs2 rd where f: "instruction_fields x = (op, imm, rs1, rs2, rd)" by (metis prod_cases5)
  let ?p = "87 * i"
  have split: "[?p..<?p + 87] = [?p..<?p + 8] @ [?p + 8..<?p + 8 + 64] @ [?p + 72..<?p + 72 + 5]
      @ [?p + 77..<?p + 77 + 5] @ [?p + 82..<?p + 82 + 5]"
    using upt_add_eq_append [of ?p "?p + 8" 79] upt_add_eq_append [of "?p + 8" "?p + 72" 15]
      upt_add_eq_append [of "?p + 72" "?p + 77" 10] upt_add_eq_append [of "?p + 77" "?p + 82" 5]
    by (simp add: add.commute)
  have "map (bit_at bs) [?p..<?p + 8] = map (bit op) (rev [0..<8]) \<and>
      map (bit_at bs) [?p + 8..<?p + 8 + 64] = map (bit imm) (rev [0..<64]) \<and>
      map (bit_at bs) [?p + 72..<?p + 72 + 5] = map (bit rs1) (rev [0..<5]) \<and>
      map (bit_at bs) [?p + 77..<?p + 77 + 5] = map (bit rs2) (rev [0..<5]) \<and>
      map (bit_at bs) [?p + 82..<?p + 82 + 5] = map (bit rd) (rev [0..<5])"
    using assms unfolding split record_bits_def f by (simp del: upt_rec_numeral)
  thus ?thesis
    by (elim conjE) (simp only: read_record_def f read_bits_word fields_narrow [OF f])
qed

text \<open>The instruction word at index \<open>i\<close> of an image.\<close>

definition word_at :: "bytes \<Rightarrow> nat \<Rightarrow> 32 word" where
  "word_at img i = le_uint32 (take 4 (drop (4 * i) img))"

lemma decode_loop_stream:
  assumes "4 * (unat rcd + n) \<le> length img" "length img < 2 ^ 63" "writer_wf w"
  shows "\<exists>w'. decode_loop img rcd n w = Ret w' \<and> writer_wf w' \<and>
    stream_of w' = stream_of w @ concat (map (\<lambda>i. record_bits (word_at img i)) [unat rcd..<unat rcd + n])"
  using assms
proof (induction n arbitrary: rcd w)
  case (Suc n)
  let ?w = "decodeInstruction w (word_at img (unat rcd))"
  have off: "unat (rcd * 4) = 4 * unat rcd" "unat (rcd * 4 + 4) = 4 * unat rcd + 4" "unat (rcd + 1) = unat rcd + 1"
    using Suc.prems(1,2) by (simp_all add: unat_word_ariths)
  have step: "writer_wf ?w" "stream_of ?w = stream_of w @ record_bits (word_at img (unat rcd))"
    using decodeInstruction_stream [OF Suc.prems(3)] by simp_all
  obtain w' where w': "decode_loop img (rcd + 1) n ?w = Ret w'" "writer_wf w'"
    "stream_of w' = stream_of ?w @ concat (map (\<lambda>i. record_bits (word_at img i)) [unat rcd + 1..<unat rcd + 1 + n])"
    using Suc.IH [of "rcd + 1" ?w, unfolded off(3)] Suc.prems(1,2) step(1) by (auto simp del: upt_Suc)
  have "decode_loop img rcd (Suc n) w = decode_loop img (rcd + 1) n ?w"
    using Suc.prems(1) off by (simp add: word_at_def word_less_nat_alt Let_def)
  moreover have "[unat rcd..<unat rcd + Suc n] = unat rcd # [unat rcd + 1..<unat rcd + 1 + n]"
    by (simp add: upt_conv_Cons del: upt_Suc)
  ultimately show ?case using w' step by (simp del: upt_Suc decode_loop.simps)
qed simp

lemma segment_stream:
  "segment 87 i (stream_of w) = map (bit_at (buf w)) [87 * i..<87 * i + 87]" if "87 * i + 87 \<le> nbits w"
  using that by (simp add: segment_def stream_of_def drop_map take_map add.commute)

lemma decodeImage_records:
  assumes "4 * unat records \<le> length img" "length img < 2 ^ 63"
  shows "\<exists>bs. decodeImage img records = Ret bs \<and> length bs = (87 * unat records + 7) div 8 \<and>
    (\<forall>i < unat records. read_record bs i = instruction_fields (word_at img i))"
proof -
  have "writer_wf \<lparr>buf = [], nbits = 0\<rparr>" by (simp add: writer_wf_def)
  then obtain w where w: "decode_loop img 0 (unat records) \<lparr>buf = [], nbits = 0\<rparr> = Ret w" "writer_wf w"
    "stream_of w = concat (map (\<lambda>i. record_bits (word_at img i)) [0..<unat records])"
    using decode_loop_stream [of 0 "unat records" img "\<lparr>buf = [], nbits = 0\<rparr>"] assms
    by (auto simp: stream_of_def)
  have "nbits w = length (stream_of w)" by (simp add: stream_of_def)
  also have "\<dots> = 87 * unat records" by (simp add: w(3) length_concat o_def sum_list_triv)
  finally have n: "nbits w = 87 * unat records" .
  have "read_record (buf w) i = instruction_fields (word_at img i)" if i: "i < unat records" for i
  proof (rule read_record_bits)
    have "segment 87 i (stream_of w) = record_bits (word_at img i)"
      using segment_concat [of "map (\<lambda>i. record_bits (word_at img i)) [0..<unat records]" 87 i] i by (simp add: w(3))
    thus "map (bit_at (buf w)) [87 * i..<87 * i + 87] = record_bits (word_at img i)"
      using segment_stream [of i w] i n by simp
  qed
  thus ?thesis using w n by (simp add: decodeImage_def writer_wf_def)
qed

section \<open>The image is the memory of the executable blobs\<close>

lemma unat_align: "unat (align4 a) = unat a - unat a mod 4"
proof -
  have "(a AND NOT 3) + (a AND 3) = (a AND NOT 3) OR (a AND 3)"
    by (rule disjunctive_add) (auto simp: bit_simps)
  also have "\<dots> = a" by (rule bit_word_eqI) (auto simp: bit_simps)
  finally have "a AND NOT 3 = a - (a AND 3)" by (metis add_diff_cancel_right')
  also have "a AND 3 = a mod 4"
    using take_bit_eq_mask [of 2 a] by (simp add: mask_numeral take_bit_eq_mod)
  finally show ?thesis by (simp add: align4_def unat_sub_if' unat_mod)
qed

lemma span_loop_Ret:
  assumes "\<forall>b \<in> set bs. slice_ok b" "first \<longrightarrow> previousEnd = 0"
  shows "span_loop first bs previousEnd maxEnd = Ret m \<longleftrightarrow>
    ordered_blobs bs \<and> (\<forall>b \<in> set bs. blob_end b < 2 ^ 64) \<and>
    (\<forall>b \<in> set (non_empty bs). unat previousEnd \<le> unat (Address b)) \<and>
    unat m = fold max (map blob_end bs) (unat maxEnd)"
  using assms
proof (induction bs arbitrary: first previousEnd maxEnd)
  case Nil
  then show ?case by (auto simp: ordered_blobs_def word_unat_eq_iff)
next
  case (Cons b bs)
  show ?case
  proof (cases "blob_end b < 2 ^ 64")
    case False
    then show ?thesis using Cons.prems by (simp add: blob_no_overflow)
  next
    case True
    let ?stop = "Address b + blob_len b"
    have stop: "unat ?stop = blob_end b" "\<not> ?stop < Address b"
      using True Cons.prems by (auto simp: unat_blob_end blob_no_overflow)
    have mx: "unat (if maxEnd < ?stop then ?stop else maxEnd) = max (blob_end b) (unat maxEnd)"
      by (simp add: word_less_nat_alt stop(1))
    have pass: "blob_end b \<le> unat (Address c) \<Longrightarrow> unat previousEnd \<le> unat (Address b) \<Longrightarrow>
        unat previousEnd \<le> unat (Address c)" for c
      by (simp add: blob_end_def)
    have guard: "\<not> first \<and> Data b \<noteq> [] \<and> Address b < previousEnd \<longleftrightarrow>
        Data b \<noteq> [] \<and> \<not> unat previousEnd \<le> unat (Address b)"
      using Cons.prems(2) by (auto simp: word_less_nat_alt not_le)
    show ?thesis
      using Cons.IH [of False "if Data b \<noteq> [] then ?stop else previousEnd" "if maxEnd < ?stop then ?stop else maxEnd"]
        Cons.prems True stop pass mx guard
      by (cases "Data b = []") (auto simp: Let_def ordered_blobs_def)
  qed
qed

text \<open>The byte that a sequence of copies leaves at an address: the last blob that covers it wins.\<close>

primrec overlay :: "Blob list \<Rightarrow> nat \<Rightarrow> byte option" where
  "overlay [] a = None"
| "overlay (b # bs) a =
     (case overlay bs a of
        Some v \<Rightarrow> Some v
      | None \<Rightarrow> if unat (Address b) \<le> a \<and> a < blob_end b then Some (Data b ! (a - unat (Address b))) else None)"

lemma copy_at_Ret:
  assumes "unat base \<le> unat (Address b)" "blob_end b \<le> unat base + length img"
  shows "\<exists>img'. copy_at img (Address b - base) (Data b) = Ret img' \<and> length img' = length img \<and>
    (\<forall>p < length img. img' ! p = (if unat (Address b) \<le> unat base + p \<and> unat base + p < blob_end b
       then Data b ! (unat base + p - unat (Address b)) else img ! p))"
proof -
  have lo: "unat (Address b - base) = unat (Address b) - unat base"
    using assms(1) by (simp add: unat_sub_if')
  let ?lo = "unat (Address b) - unat base"
  have fit: "?lo + length (Data b) \<le> length img" using assms by (simp add: blob_end_def)
  let ?new = "take ?lo img @ Data b @ drop (?lo + length (Data b)) img"
  have "copy_at img (Address b - base) (Data b) = Ret ?new" using fit by (simp add: copy_at_def lo)
  moreover have "length ?new = length img" using fit by simp
  moreover have "?new ! p = (if ?lo \<le> p \<and> p < ?lo + length (Data b) then Data b ! (p - ?lo) else img ! p)"
    if "p < length img" for p
    using fit that by (auto simp: nth_append min_def)
  moreover have "?lo \<le> p \<and> p < ?lo + length (Data b) \<longleftrightarrow> unat (Address b) \<le> unat base + p \<and> unat base + p < blob_end b"
    "p - ?lo = unat base + p - unat (Address b)" for p
    using assms(1) by (auto simp: blob_end_def)
  ultimately show ?thesis by auto
qed

lemma copy_loop_Ret:
  assumes "\<forall>b \<in> set bs. unat base \<le> unat (Address b) \<and> blob_end b \<le> unat base + length img"
  shows "\<exists>img'. copy_loop base bs img = Ret img' \<and> length img' = length img \<and>
    (\<forall>p < length img. img' ! p = (case overlay bs (unat base + p) of Some v \<Rightarrow> v | None \<Rightarrow> img ! p))"
  using assms
proof (induction bs arbitrary: img)
  case (Cons b bs)
  obtain img1 where img1: "copy_at img (Address b - base) (Data b) = Ret img1" "length img1 = length img"
    "\<forall>p < length img. img1 ! p = (if unat (Address b) \<le> unat base + p \<and> unat base + p < blob_end b
       then Data b ! (unat base + p - unat (Address b)) else img ! p)"
    using copy_at_Ret [of base b img] Cons.prems by auto
  obtain img2 where "copy_loop base bs img1 = Ret img2" "length img2 = length img1"
    "\<forall>p < length img1. img2 ! p = (case overlay bs (unat base + p) of Some v \<Rightarrow> v | None \<Rightarrow> img1 ! p)"
    using Cons.IH [of img1] Cons.prems img1(2) by auto
  thus ?case using img1 by (auto split: option.splits)
qed simp

lemma overlay_None: "overlay bs a = None \<longleftrightarrow> (\<forall>b \<in> set bs. \<not> (unat (Address b) \<le> a \<and> a < blob_end b))"
  by (induction bs) (auto split: option.splits)

lemma overlay_ordered:
  assumes "ordered_blobs bs" "b \<in> set bs" "unat (Address b) \<le> a" "a < blob_end b"
  shows "overlay bs a = Some (Data b ! (a - unat (Address b)))"
  using assms
proof (induction bs)
  case (Cons c bs)
  have "Data b \<noteq> []" using Cons.prems(3,4) by (auto simp: blob_end_def)
  show ?case
  proof (cases "b \<in> set bs")
    case True
    then show ?thesis using Cons by (auto simp: ordered_blobs_def split: if_splits)
  next
    case False
    hence c: "c = b" using Cons.prems(2) by simp
    have "\<not> (unat (Address d) \<le> a \<and> a < blob_end d)" if "d \<in> set bs" for d
      using Cons.prems \<open>Data b \<noteq> []\<close> that c by (fastforce simp: ordered_blobs_def blob_end_def)
    hence "overlay bs a = None" by (simp add: overlay_None)
    then show ?thesis using Cons.prems(3,4) c by simp
  qed
qed simp

text \<open>
  The memory that the executable blobs describe, and when their image can be decoded: the blobs do not
  overlap, they end below the last word of the 32-bit address space, and the number of words of the
  aligned span is within the limit.
\<close>

definition exec_byte :: "Blob list \<Rightarrow> nat \<Rightarrow> byte" where
  "exec_byte blobs a =
     (case List.find (\<lambda>b. Executable b \<and> unat (Address b) \<le> a \<and> a < blob_end b) blobs of
        None \<Rightarrow> 0
      | Some b \<Rightarrow> Data b ! (a - unat (Address b)))"

definition exec_blobs :: "Blob list \<Rightarrow> Blob list" where
  "exec_blobs blobs = sort_blobs (filter Executable blobs)"

definition image_base :: "Blob list \<Rightarrow> nat" where
  "image_base blobs = (let a = unat (Address (hd (exec_blobs blobs))) in a - a mod 4)"

definition image_records :: "Blob list \<Rightarrow> nat" where
  "image_records blobs =
     (let e = Max (blob_end ` set (exec_blobs blobs)) + 3 in (e - e mod 4 - image_base blobs) div 4)"

definition image_ok :: "Blob list \<Rightarrow> 64 word \<Rightarrow> bool" where
  "image_ok blobs maxRecords \<longleftrightarrow>
     exec_blobs blobs \<noteq> [] \<and> ordered_blobs (exec_blobs blobs) \<and>
     (\<forall>b \<in> set (exec_blobs blobs). blob_end b \<le> 2 ^ 32 - 4) \<and> image_records blobs \<le> unat maxRecords"

lemma set_exec_blobs: "set (exec_blobs blobs) = {b \<in> set blobs. Executable b}"
  by (simp add: exec_blobs_def)

lemma exec_blobs_Nil: "filter Executable blobs = [] \<longleftrightarrow> exec_blobs blobs = []"
  using sort_blobs_set(2) [of "filter Executable blobs"] by (metis exec_blobs_def length_0_conv)

lemma overlay_exec_byte:
  assumes "ordered_blobs (exec_blobs blobs)"
  shows "(case overlay (exec_blobs blobs) a of Some v \<Rightarrow> v | None \<Rightarrow> 0) = exec_byte blobs a"
proof (cases "List.find (\<lambda>b. Executable b \<and> unat (Address b) \<le> a \<and> a < blob_end b) blobs")
  case None
  hence "overlay (exec_blobs blobs) a = None"
    by (auto simp: overlay_None set_exec_blobs find_None_iff)
  then show ?thesis using None by (simp add: exec_byte_def)
next
  case (Some b)
  hence "b \<in> set (exec_blobs blobs)" "unat (Address b) \<le> a" "a < blob_end b"
    by (auto simp: set_exec_blobs find_Some_iff)
  then show ?thesis using Some overlay_ordered [OF assms] by (simp add: exec_byte_def)
qed

lemma exec_blobs_hd:
  assumes "exec_blobs blobs \<noteq> []" "b \<in> set (exec_blobs blobs)"
  shows "unat (Address (hd (exec_blobs blobs))) \<le> unat (Address b)"
proof -
  have "sorted (map Address (exec_blobs blobs))" by (simp add: exec_blobs_def sort_blobs_def)
  hence "Address (hd (exec_blobs blobs)) \<le> Address b"
    using assms by (cases "exec_blobs blobs") auto
  thus ?thesis by (simp add: word_le_nat_alt)
qed

lemma span_exec:
  assumes "\<forall>b \<in> set (exec_blobs blobs). slice_ok b" "exec_blobs blobs \<noteq> []"
  shows "span_loop True (exec_blobs blobs) 0 0 = Ret m \<longleftrightarrow>
    ordered_blobs (exec_blobs blobs) \<and> unat m = Max (blob_end ` set (exec_blobs blobs))"
proof -
  let ?e = "exec_blobs blobs"
  have "fold max (map blob_end ?e) 0 = Max (insert 0 (blob_end ` set ?e))"
    using Max.set_eq_fold [of 0 "map blob_end ?e"] by simp
  also have "\<dots> = Max (blob_end ` set ?e)" using assms(2) by (subst Max_insert) auto
  finally have top: "fold max (map blob_end ?e) 0 = Max (blob_end ` set ?e)" .
  have "blob_end b < 2 ^ 64" if "unat m = Max (blob_end ` set ?e)" "b \<in> set ?e" for b
  proof -
    have "blob_end b \<le> unat m" using that by simp
    also have "unat m < 2 ^ LENGTH(64)" by (rule unsigned_less)
    finally show ?thesis by simp
  qed
  thus ?thesis using span_loop_Ret [OF assms(1), of True 0 0 m] by (auto simp: top)
qed

lemma image_span:
  assumes "exec_blobs blobs \<noteq> []" "\<forall>b \<in> set (exec_blobs blobs). blob_end b \<le> 2 ^ 32 - 4"
    "unat m = Max (blob_end ` set (exec_blobs blobs))"
  defines "base \<equiv> align4 (Address (hd (exec_blobs blobs)))" and "stop \<equiv> align4 (m + 3)"
  shows "unat base = image_base blobs" "unat (stop - base) = 4 * image_records blobs"
    "unat ((stop - base) div 4) = image_records blobs" "image_base blobs + 4 * image_records blobs < 2 ^ 32"
    "b \<in> set (exec_blobs blobs) \<Longrightarrow>
      image_base blobs \<le> unat (Address b) \<and> blob_end b \<le> image_base blobs + 4 * image_records blobs"
proof -
  let ?e = "exec_blobs blobs"
  show base: "unat base = image_base blobs" by (simp add: base_def unat_align image_base_def Let_def)
  have m: "unat m \<le> 2 ^ 32 - 4" using assms(1,2) unfolding assms(3) by simp
  hence "unat (m + 3) = unat m + 3" by (simp add: unat_word_ariths)
  hence stop: "unat stop = unat m + 3 - (unat m + 3) mod 4" by (simp add: stop_def unat_align)
  hence up: "unat m \<le> unat stop" "4 dvd unat stop" by (presburger, simp add: minus_mod_eq_mult_div)
  have blob: "image_base blobs \<le> unat (Address b)" "blob_end b \<le> unat stop" if "b \<in> set ?e" for b
  proof -
    show "image_base blobs \<le> unat (Address b)"
      using exec_blobs_hd [OF assms(1) that] by (simp add: image_base_def Let_def)
    have "blob_end b \<le> unat m" unfolding assms(3) using that by simp
    thus "blob_end b \<le> unat stop" using up(1) by simp
  qed
  have "image_base blobs \<le> blob_end (hd ?e)" using assms(1) by (simp add: image_base_def blob_end_def Let_def)
  hence le: "image_base blobs \<le> unat stop" using blob(2) [of "hd ?e"] assms(1) by simp
  have "4 dvd image_base blobs" by (simp add: image_base_def Let_def minus_mod_eq_mult_div)
  hence "4 dvd unat stop - image_base blobs" using up(2) by simp
  moreover have rec: "image_records blobs = (unat stop - image_base blobs) div 4"
    by (simp add: image_records_def stop assms(3) Let_def)
  ultimately have all: "image_base blobs + 4 * image_records blobs = unat stop" using le by simp
  have diff: "unat (stop - base) = unat stop - image_base blobs" using le by (simp add: unat_sub_if' base)
  show "unat (stop - base) = 4 * image_records blobs" using diff all by simp
  show "unat ((stop - base) div 4) = image_records blobs" by (simp add: unat_div diff rec)
  show "image_base blobs + 4 * image_records blobs < 2 ^ 32" using stop m all by simp
  show "image_base blobs \<le> unat (Address b) \<and> blob_end b \<le> image_base blobs + 4 * image_records blobs"
    if "b \<in> set ?e" using blob [OF that] all by simp
qed

lemma executableImage_ok:
  assumes "\<forall>b \<in> set blobs. slice_ok b" "image_ok blobs maxRecords"
  shows "\<exists>base img records. executableImage blobs maxRecords = Ret (base, img, records) \<and>
    unat base = image_base blobs \<and> unat records = image_records blobs \<and>
    length img = 4 * image_records blobs \<and> length img < 2 ^ 32 \<and>
    (\<forall>p < length img. img ! p = exec_byte blobs (image_base blobs + p))"
proof -
  let ?e = "exec_blobs blobs"
  have e: "?e \<noteq> []" "ordered_blobs ?e" "\<forall>b \<in> set ?e. blob_end b \<le> 2 ^ 32 - 4" "image_records blobs \<le> unat maxRecords"
    "\<forall>b \<in> set ?e. slice_ok b"
    using assms by (auto simp: image_ok_def set_exec_blobs)
  have "Max (blob_end ` set ?e) \<le> 2 ^ 32 - 4" using e(1,3) by simp
  hence "unat (word_of_nat (Max (blob_end ` set ?e)) :: 64 word) = Max (blob_end ` set ?e)"
    by (simp add: unat_of_nat)
  then obtain m where m: "unat m = Max (blob_end ` set ?e)" "unat (m :: 64 word) \<le> 2 ^ 32 - 4"
    using \<open>Max (blob_end ` set ?e) \<le> 2 ^ 32 - 4\<close> by metis
  let ?base = "align4 (Address (hd ?e))" and ?stop = "align4 (m + 3)"
  note s = image_span [OF e(1,3) m(1)]
  obtain img where img: "copy_loop ?base ?e (replicate (unat (?stop - ?base)) 0) = Ret img"
    "length img = 4 * image_records blobs"
    "\<forall>p < length img. img ! p = (case overlay ?e (image_base blobs + p) of Some v \<Rightarrow> v | None \<Rightarrow> 0)"
    using copy_loop_Ret [of ?e ?base "replicate (unat (?stop - ?base)) 0"] s(5)
    by (auto simp: s(1,2) cong: option.case_cong)
  have "span_loop True ?e 0 0 = Ret m" using span_exec [OF e(5,1), of m] m(1) e(2) by simp
  hence "executableImage blobs maxRecords = Ret (?base, img, (?stop - ?base) div 4)"
    using e(1,4) m(2) s(2,3,4) img(1)
    unfolding executableImage_def Let_def exec_blobs_def [symmetric]
    by (auto simp: Let_def word_less_nat_alt exec_blobs_Nil)
  thus ?thesis using s(1,3,4) img(2,3) overlay_exec_byte [OF e(2)] by auto
qed

lemma span_loop_outcome: "(\<exists>m. span_loop first bs previousEnd maxEnd = Ret m) \<or> (\<exists>e. span_loop first bs previousEnd maxEnd = Err e)"
  by (induction bs arbitrary: first previousEnd maxEnd) (auto simp: Let_def)

lemma executableImage_refused:
  assumes "\<forall>b \<in> set blobs. slice_ok b" "\<not> image_ok blobs maxRecords"
  shows "\<exists>e. executableImage blobs maxRecords = Err e"
proof (cases "exec_blobs blobs = [] \<or> (\<forall>m. span_loop True (exec_blobs blobs) 0 0 \<noteq> Ret m)")
  case True
  then show ?thesis
    using span_loop_outcome [of True "exec_blobs blobs" 0 0]
    unfolding executableImage_def Let_def exec_blobs_def [symmetric] by (auto simp: Let_def exec_blobs_Nil)
next
  case False
  let ?e = "exec_blobs blobs"
  obtain m where run: "span_loop True ?e 0 0 = Ret m" and ne: "?e \<noteq> []" using False by auto
  have ok: "\<forall>b \<in> set ?e. slice_ok b" using assms(1) by (simp add: set_exec_blobs)
  have m: "ordered_blobs ?e" "unat m = Max (blob_end ` set ?e)" using run span_exec [OF ok ne] by auto
  show ?thesis
  proof (cases "unat m \<le> 2 ^ 32 - 4")
    case True
    hence ends: "\<forall>b \<in> set ?e. blob_end b \<le> 2 ^ 32 - 4" using ne unfolding m(2) by simp
    hence "\<not> image_records blobs \<le> unat maxRecords" using assms(2) ne m(1) by (simp add: image_ok_def)
    thus ?thesis
      using True run ne image_span(3) [OF ne ends m(2)]
      unfolding executableImage_def Let_def exec_blobs_def [symmetric]
      by (auto simp: Let_def word_less_nat_alt exec_blobs_Nil)
  next
    case False
    thus ?thesis
      using run ne unfolding executableImage_def Let_def exec_blobs_def [symmetric]
      by (auto simp: Let_def word_less_nat_alt exec_blobs_Nil)
  qed
qed

text \<open>The instruction word at an address of the executable memory.\<close>

definition exec_word :: "Blob list \<Rightarrow> nat \<Rightarrow> 32 word" where
  "exec_word blobs a = le_uint32 (map (\<lambda>j. exec_byte blobs (a + j)) [0..<4])"

lemma word_at_image:
  assumes "\<forall>p < length img. img ! p = exec_byte blobs (base + p)" "4 * i + 4 \<le> length img"
  shows "word_at img i = exec_word blobs (base + 4 * i)"
proof -
  have "take 4 (drop (4 * i) img) = map (\<lambda>j. exec_byte blobs (base + 4 * i + j)) [0..<4]"
    using assms by (intro nth_equalityI) (auto simp: add.assoc simp del: upt_rec_numeral)
  thus ?thesis by (simp only: word_at_def exec_word_def)
qed

text \<open>
  C17: Predecoding a program never panics. It succeeds exactly when the executable blobs do not overlap,
  end at least four bytes below the end of the 32-bit address space and span no more words than the
  limit. Then the base is the address of the first executable blob rounded down to a word, the table
  has one 87-bit record per word of the span, without gaps and padded to a byte, and reading record
  \<open>i\<close> back gives the decoded fields of the little-endian word at \<open>base + 4 i\<close> of the memory that the
  executable blobs describe, with zeros between them. Otherwise it returns an error.
\<close>

theorem predecode_table:
  assumes "\<forall>b \<in> set (Blobs program). slice_ok b"
  shows "if image_ok (Blobs program) limit
    then \<exists>d. predecode program limit = Ret d \<and>
      unat (InstructionBase d) = image_base (Blobs program) \<and>
      length (Decoded d) = (87 * image_records (Blobs program) + 7) div 8 \<and>
      (\<forall>i < image_records (Blobs program). read_record (Decoded d) i =
        instruction_fields (exec_word (Blobs program) (image_base (Blobs program) + 4 * i)))
    else \<exists>e. predecode program limit = Err e"
proof (cases "image_ok (Blobs program) limit")
  case False
  then show ?thesis using executableImage_refused [OF assms False] by (auto simp: predecode_def)
next
  case True
  obtain base img records where img: "executableImage (Blobs program) limit = Ret (base, img, records)"
    "unat base = image_base (Blobs program)" "unat records = image_records (Blobs program)"
    "length img = 4 * image_records (Blobs program)" "length img < 2 ^ 32"
    "\<forall>p < length img. img ! p = exec_byte (Blobs program) (image_base (Blobs program) + p)"
    using executableImage_ok [OF assms True] by blast
  obtain bs where "decodeImage img records = Ret bs" "length bs = (87 * unat records + 7) div 8"
    "\<forall>i < unat records. read_record bs i = instruction_fields (word_at img i)"
    using decodeImage_records [of records img] img(3-5) by auto
  thus ?thesis using True img word_at_image [OF img(6)] by (simp add: predecode_def)
qed

text \<open>The program of \<open>Elf_Map\<close> has the instructions \<^verbatim>\<open>addi x1, x0, 1\<close> and \<^verbatim>\<open>ecall\<close>.\<close>

lemma demo_exec: "exec_blobs (Blobs demo_program) = [hd (Blobs demo_program)]"
  by (simp add: exec_blobs_def sort_blobs_def demo_program_def)

lemma demo_image: "image_ok (Blobs demo_program) 10" "image_base (Blobs demo_program) = 0x2000"
  "image_records (Blobs demo_program) = 2" "\<forall>b \<in> set (Blobs demo_program). slice_ok b"
  unfolding image_ok_def image_records_def image_base_def demo_exec
  by (simp_all add: ordered_blobs_def blob_end_def demo_program_def slice_ok_def Let_def)

lemma demo_words: "exec_word (Blobs demo_program) 0x2000 = 0x00100093" "exec_word (Blobs demo_program) 0x2004 = 0x73"
  by (simp_all add: exec_word_def exec_byte_def demo_program_def blob_end_def le_uint32_def)

lemma demo_fields: "instruction_fields 0x00100093 = (8, 1, 0, 0, 1)" "instruction_fields 0x73 = (23, 0, 0, 0, 0)"
  by code_simp+

theorem predecode_table_witness:
  "\<exists>d. predecode demo_program 10 = Ret d \<and> unat (InstructionBase d) = 0x2000 \<and> length (Decoded d) = 22 \<and>
     read_record (Decoded d) 0 = (8, 1, 0, 0, 1) \<and> read_record (Decoded d) 1 = (23, 0, 0, 0, 0)"
proof -
  obtain d where d: "predecode demo_program 10 = Ret d" "unat (InstructionBase d) = 0x2000"
    "length (Decoded d) = 22"
    "\<forall>i < 2. read_record (Decoded d) i = instruction_fields (exec_word (Blobs demo_program) (0x2000 + 4 * i))"
    using predecode_table [OF demo_image(4), of 10] by (auto simp: demo_image)
  show ?thesis
    using d(1-3) d(4) [rule_format, of 0] d(4) [rule_format, of 1] by (simp add: demo_words demo_fields)
qed

end
