(* ===== verification/Circular.thy ===== *)
theory Circular
  imports Go_Prelude
begin

text \<open>
  Intervals over a discretised circle (\<^verbatim>\<open>prover/maths/common/smartvectors/circular_interval.go\<close>)
  and \<^verbatim>\<open>utils.PositiveMod\<close>. An interval denotes the set \<open>points\<close> of the positions it covers; the
  lemmas show that the methods of the source compute with these sets: inclusion of a point,
  inclusion of an interval, union of two intervals that touch, and the smallest interval that
  covers a list of intervals. The loop of \<^verbatim>\<open>SmallestCoverInterval\<close> that has no bound in the
  source is a partial function whose value \<open>None\<close> means that the loop does not return.

  Go's \<^verbatim>\<open>int\<close> is \<open>int\<close>: all the values are positions on a circle or differences of two
  positions, and the size of a circle is the length of a slice.
\<close>

section \<open>Arithmetic on the circle\<close>

text \<open>
  Go's \<^verbatim>\<open>%\<close> truncates: the remainder has the sign of the dividend. It panics on a zero modulus; the callers
  pass the length of a non-empty vector or of a circle, and the one that may not is guarded where it is
  modelled. Positions are unbounded: sums of two of them wrap in Go only on circles above \<open>2 ^ 62\<close>.
\<close>

definition go_rem :: "int \<Rightarrow> int \<Rightarrow> int" where
  "go_rem a n = (if a < 0 then - ((- a) mod \<bar>n\<bar>) else a mod \<bar>n\<bar>)"

definition PositiveMod :: "int \<Rightarrow> int \<Rightarrow> int" where
  "PositiveMod a n = (let res = go_rem a n in if res < 0 then res + n else res)"

lemma PositiveMod_mod:
  assumes "0 < n"
  shows "PositiveMod a n = a mod n"
proof -
  have "\<not> a mod n < 0" using assms by (simp add: not_less)
  moreover have "a mod n < n" using assms by simp
  ultimately show ?thesis using assms by (auto simp: PositiveMod_def go_rem_def Let_def zmod_zminus1_eq_if)
qed

lemma diff_mod_cases:
  assumes "0 \<le> a" and "a < n" and "0 \<le> b" and "b < (n::int)"
  shows "(a - b) mod n = (if b \<le> a then a - b else a - b + n)"
proof (cases "b \<le> a")
  case False
  then have "(a - b) mod n = (a - b + n) mod n" by simp
  also have "\<dots> = a - b + n" by (rule mod_pos_pos_trivial) (use assms False in linarith)+
  finally show ?thesis using False by simp
qed (use assms in simp)

lemma add_mod_cases:
  assumes "0 \<le> a" and "a < n" and "0 \<le> b" and "b \<le> (n::int)"
  shows "(a + b) mod n = (if a + b < n then a + b else a + b - n)"
proof (cases "a + b < n")
  case False
  then have "(a + b) mod n = (a + b - n) mod n" by simp
  also have "\<dots> = a + b - n" by (rule mod_pos_pos_trivial) (use assms False in linarith)+
  finally show ?thesis using False by simp
qed (use assms in simp)

section \<open>Intervals\<close>

record CircularInterval =
  circleSize :: int
  istart :: int
  IntervalLen :: int

definition IvalWithFullLen :: "int \<Rightarrow> CircularInterval go" where
  "IvalWithFullLen n = (if n \<le> 0 then Panic ''zero or negative length interval is not allowed''
    else Ret \<lparr>circleSize = n, istart = 0, IntervalLen = n\<rparr>)"

definition IvalWithStartLen :: "int \<Rightarrow> int \<Rightarrow> int \<Rightarrow> CircularInterval go" where
  "IvalWithStartLen start len n =
    (if len = 0 then Panic ''empty interval''
     else if 0 > start \<or> start \<ge> n then Panic ''Start out of bounds''
     else if len \<ge> n then Panic ''full length is forbidden''
     else Ret \<lparr>circleSize = n, istart = start, IntervalLen = len\<rparr>)"

definition IvalWithStartStop :: "int \<Rightarrow> int \<Rightarrow> int \<Rightarrow> CircularInterval go" where
  "IvalWithStartStop start stop n =
    (if start = stop then Panic ''empty interval''
     else if 0 > start \<or> start \<ge> n then Panic ''Start out of bounds''
     else if 0 > stop \<or> stop \<ge> n then Panic ''Stop out of bound''
     else Ret \<lparr>circleSize = n, istart = start, IntervalLen = PositiveMod (stop - start) n\<rparr>)"

definition Start :: "CircularInterval \<Rightarrow> int" where
  "Start c = istart c"

definition Stop :: "CircularInterval \<Rightarrow> int" where
  "Stop c = PositiveMod (istart c + IntervalLen c) (circleSize c)"

definition DoesWrapAround :: "CircularInterval \<Rightarrow> bool" where
  "DoesWrapAround c = (Stop c < Start c)"

definition IsFullCircle :: "CircularInterval \<Rightarrow> bool" where
  "IsFullCircle c = (IntervalLen c = circleSize c)"

definition DoesInclude :: "CircularInterval \<Rightarrow> int \<Rightarrow> bool go" where
  "DoesInclude c p =
    (if p < 0 \<or> p > circleSize c then Panic ''point does not belong to the circle''
     else if IsFullCircle c then Ret True
     else if DoesWrapAround c then Ret (p < Stop c \<or> p \<ge> Start c)
     else Ret (p \<ge> Start c \<and> p < Stop c))"

definition DoesFullyContain :: "CircularInterval \<Rightarrow> CircularInterval \<Rightarrow> bool go" where
  "DoesFullyContain c other =
    (if IsFullCircle c then Ret True
     else if \<not> IsFullCircle c \<and> IsFullCircle other then Ret False
     else if \<not> DoesWrapAround c then
       go_bind (DoesInclude c (Start other)) (\<lambda>b1.
         if \<not> b1 then Ret False
         else go_bind (DoesInclude c (Stop other - 1)) (\<lambda>b2.
           if \<not> b2 then Ret False else Ret (\<not> DoesWrapAround other)))
     else if \<not> DoesWrapAround other \<and> Stop other \<le> Stop c then Ret True
     else if \<not> DoesWrapAround other \<and> Start other \<ge> Start c then Ret True
     else if DoesWrapAround other \<and> Start other \<ge> Start c \<and> Stop other \<le> Stop c then Ret True
     else Ret False)"

text \<open>The zero value \<^verbatim>\<open>CircularInterval{}\<close> that a failed \<^verbatim>\<open>TryOverlapWith\<close> returns.\<close>

definition no_interval :: CircularInterval where
  "no_interval = \<lparr>circleSize = 0, istart = 0, IntervalLen = 0\<rparr>"

definition TryOverlapWith :: "CircularInterval \<Rightarrow> CircularInterval \<Rightarrow> (bool \<times> CircularInterval) go" where
  "TryOverlapWith c other =
    (if circleSize c \<noteq> circleSize other then Panic ''not the same circle size'' else
     let n = circleSize c; found = (\<lambda>r. go_bind r (\<lambda>w. Ret (True, w))) in
     if IsFullCircle c \<or> IsFullCircle other then found (IvalWithFullLen n) else
     let c1 = PositiveMod (Stop c - Start c) n;
         o0 = PositiveMod (Start other - Start c) n;
         o1 = PositiveMod (Stop other - Start c) n in
     if 0 \<le> o0 \<and> o0 < o1 \<and> o1 \<le> c1 then Ret (True, c)
     else if 0 \<le> o1 \<and> o1 < o0 \<and> o0 \<le> c1 then found (IvalWithFullLen n)
     else if 0 \<le> o0 \<and> o0 \<le> c1 \<and> c1 \<le> o1 then found (IvalWithStartStop (Start c) (Stop other) n)
     else if 0 \<le> o1 \<and> o1 \<le> c1 \<and> c1 < o0 then found (IvalWithStartStop (Start other) (Stop c) n)
     else if 0 \<le> c1 \<and> c1 \<le> o1 \<and> o1 < o0 then Ret (True, other)
     else Ret (False, no_interval))"

section \<open>The smallest interval that covers a list\<close>

text \<open>
  The three loops of \<^verbatim>\<open>SmallestCoverInterval\<close>. \<open>group_loop\<close> merges each interval into the last
  bucket or opens a new one. \<open>wrap_loop\<close> merges the last bucket with the first ones, as long as
  they touch; \<open>None\<close> means that the loop does not return. \<open>gap_loop\<close> looks for the largest gap
  between a bucket and the next one. \<^verbatim>\<open>sort.Slice\<close> by \<^verbatim>\<open>Start\<close> is \<open>sort_key\<close>; Go leaves the
  order of intervals with the same start open.
\<close>

fun group_loop :: "int \<Rightarrow> int \<Rightarrow> CircularInterval list \<Rightarrow> CircularInterval list \<Rightarrow> CircularInterval list go" where
  "group_loop circle0 circle overlaps [] = Ret overlaps"
| "group_loop circle0 circle overlaps (interval # intervals) =
    (if circle0 \<noteq> circle then Panic ''inconsistent sizes''
     else if overlaps = [] then Panic ''index out of range''
     else go_bind (TryOverlapWith (last overlaps) interval) (\<lambda>(ok, newW).
       if ok then group_loop circle0 circle (butlast overlaps @ [newW]) intervals
       else group_loop circle0 circle (overlaps @ [interval]) intervals))"

partial_function (option) wrap_loop :: "CircularInterval list \<Rightarrow> CircularInterval list go option" where
  "wrap_loop overlaps =
    (if length overlaps = 1 then Some (Ret overlaps)
     else if overlaps = [] then Some (Panic ''index out of range'')
     else case TryOverlapWith (last overlaps) (hd overlaps) of
       Ret r \<Rightarrow> if fst r then wrap_loop (tl (butlast overlaps @ [snd r])) else Some (Ret overlaps)
     | Err e \<Rightarrow> Some (Err e)
     | Panic m \<Rightarrow> Some (Panic m))"

fun gap_loop :: "int \<Rightarrow> CircularInterval list \<Rightarrow> nat \<Rightarrow> CircularInterval list \<Rightarrow> int \<times> nat \<Rightarrow> int \<times> nat" where
  "gap_loop circle overlaps i [] acc = acc"
| "gap_loop circle overlaps i (w # ws) (maxGap, posMaxGap) =
    (let nextW = overlaps ! ((i + 1) mod length overlaps);
         gap = PositiveMod (Start nextW - Stop w) circle in
     gap_loop circle overlaps (i + 1) ws (if gap > maxGap then (gap, i) else (maxGap, posMaxGap)))"

definition largest_gap_complement :: "int \<Rightarrow> CircularInterval list \<Rightarrow> CircularInterval go" where
  "largest_gap_complement circle overlaps =
    (if length overlaps = 1 then Ret (hd overlaps) else
     let (maxGap, posMaxGap) = gap_loop circle overlaps 0 overlaps (0, 0) in
     if maxGap < 1 then Panic ''Max gap is''
     else IvalWithStartStop (Start (overlaps ! ((posMaxGap + 1) mod length overlaps)))
            (Stop (overlaps ! posMaxGap)) circle)"

text \<open>
  \<^verbatim>\<open>sort.Slice\<close> may order intervals with the same start in any way; here they keep their order. The merge
  of overlapping intervals gives the same buckets for every order of such ties.
\<close>

definition SmallestCoverInterval :: "CircularInterval list \<Rightarrow> CircularInterval go" where
  "SmallestCoverInterval intervals =
    (case intervals of
       [] \<Rightarrow> Panic ''no windows passed''
     | i0 # _ \<Rightarrow>
       let circle = circleSize i0; srt = sort_key Start intervals in
       go_bind (group_loop (circleSize (hd srt)) circle [hd srt] (tl srt)) (\<lambda>overlaps.
       case wrap_loop overlaps of
         None \<Rightarrow> Panic ''the loop does not return''
       | Some r \<Rightarrow> go_bind r (largest_gap_complement circle)))"

section \<open>What an interval denotes\<close>

text \<open>
  \<open>ival_ok\<close> holds of what the constructors build. \<open>points\<close> is the set of positions of the circle
  an interval covers.
\<close>

definition ival_ok :: "int \<Rightarrow> CircularInterval \<Rightarrow> bool" where
  "ival_ok n c \<longleftrightarrow> circleSize c = n \<and> 0 \<le> istart c \<and> istart c < n \<and> 0 < IntervalLen c \<and> IntervalLen c \<le> n
    \<and> (IntervalLen c = n \<longrightarrow> istart c = 0)"

definition points :: "CircularInterval \<Rightarrow> int set" where
  "points c = {p. 0 \<le> p \<and> p < circleSize c \<and> (p - istart c) mod circleSize c < IntervalLen c}"

lemma points_iff:
  assumes "ival_ok n c"
  shows "p \<in> points c \<longleftrightarrow> 0 \<le> p \<and> p < n
    \<and> (if istart c \<le> p then p - istart c < IntervalLen c else p - istart c + n < IntervalLen c)"
proof (cases "0 \<le> p \<and> p < n")
  case True
  then show ?thesis using assms diff_mod_cases [of p n "istart c"] by (auto simp: points_def ival_ok_def)
qed (use assms in \<open>auto simp: points_def ival_ok_def\<close>)

lemma Stop_iff:
  assumes "ival_ok n c"
  shows "Stop c = (if istart c + IntervalLen c < n then istart c + IntervalLen c else istart c + IntervalLen c - n)"
  using assms add_mod_cases [of "istart c" n "IntervalLen c"] by (simp add: Stop_def ival_ok_def PositiveMod_mod)

lemma ival_constructors_ok:
  "0 < n \<Longrightarrow> \<exists>c. IvalWithFullLen n = Ret c \<and> ival_ok n c \<and> points c = {0..<n}"
  "0 < l \<Longrightarrow> l < n \<Longrightarrow> 0 \<le> s \<Longrightarrow> s < n \<Longrightarrow> \<exists>c. IvalWithStartLen s l n = Ret c \<and> ival_ok n c"
  by (auto simp: IvalWithFullLen_def IvalWithStartLen_def ival_ok_def points_def)

lemma IvalWithStartStop_ok:
  assumes "0 \<le> s" and "s < n" and "0 \<le> e" and "e < n" and "s \<noteq> e"
  obtains c where "IvalWithStartStop s e n = Ret c" and "ival_ok n c" and "istart c = s"
    and "IntervalLen c = (if s \<le> e then e - s else e - s + n)"
proof -
  have "PositiveMod (e - s) n = (if s \<le> e then e - s else e - s + n)"
    using assms diff_mod_cases [of e n s] by (simp add: PositiveMod_mod)
  then show ?thesis using assms
    by (intro that [of "\<lparr>circleSize = n, istart = s, IntervalLen = PositiveMod (e - s) n\<rparr>"])
      (auto simp: IvalWithStartStop_def ival_ok_def)
qed

lemma DoesInclude_points:
  assumes "ival_ok n c" and "0 \<le> p" and "p < n"
  shows "DoesInclude c p = Ret (p \<in> points c)"
proof -
  have s: "circleSize c = n" using assms(1) by (simp add: ival_ok_def)
  show ?thesis using assms points_iff [OF assms(1), of p] Stop_iff [OF assms(1)]
    by (auto simp: DoesInclude_def DoesWrapAround_def IsFullCircle_def Start_def ival_ok_def s)
qed

text \<open>Inclusion of intervals in coordinates relative to the start of the larger one.\<close>

definition rel :: "int \<Rightarrow> CircularInterval \<Rightarrow> CircularInterval \<Rightarrow> int" where
  "rel n c other = (if istart c \<le> istart other then istart other - istart c else istart other - istart c + n)"

lemma points_subset_iff:
  assumes c: "ival_ok n c" and w: "ival_ok n other" and l: "IntervalLen c < n"
  shows "points other \<subseteq> points c \<longleftrightarrow> rel n c other + IntervalLen other \<le> IntervalLen c"
proof
  assume sub: "points other \<subseteq> points c"
  define p where "p = (if istart c + IntervalLen c < n then istart c + IntervalLen c else istart c + IntervalLen c - n)"
  have "p \<notin> points c" using c l by (auto simp: points_iff [OF c] p_def ival_ok_def)
  then have "p \<notin> points other" using sub by blast
  moreover have "istart other \<in> points c" using sub w by (auto simp: points_iff [OF w] ival_ok_def)
  ultimately show "rel n c other + IntervalLen other \<le> IntervalLen c"
    using c w l unfolding points_iff [OF c] points_iff [OF w] ival_ok_def rel_def p_def
    by (auto split: if_splits)
next
  assume "rel n c other + IntervalLen other \<le> IntervalLen c"
  then show "points other \<subseteq> points c"
    using c w l by (auto simp: points_iff [OF c] points_iff [OF w] rel_def ival_ok_def split: if_splits)
qed

lemma points_range: "ival_ok n c \<Longrightarrow> points c \<subseteq> {0..<n}"
  by (auto simp: points_def ival_ok_def)

lemma points_full:
  assumes "ival_ok n c"
  shows "IntervalLen c = n \<longleftrightarrow> points c = {0..<n}"
proof
  assume "IntervalLen c = n"
  then show "points c = {0..<n}" using assms by (auto simp: points_iff [OF assms] ival_ok_def)
next
  assume all: "points c = {0..<n}"
  define p where "p = (if istart c + IntervalLen c < n then istart c + IntervalLen c else istart c + IntervalLen c - n)"
  have "p \<in> points c" unfolding all using assms by (auto simp: p_def ival_ok_def)
  then show "IntervalLen c = n" using assms
    by (auto simp: points_iff [OF assms] p_def ival_ok_def split: if_splits)
qed

lemma DoesFullyContain_points:
  assumes c: "ival_ok n c" and w: "ival_ok n other"
  shows "DoesFullyContain c other =
    (if \<not> IsFullCircle c \<and> \<not> IsFullCircle other \<and> \<not> DoesWrapAround c \<and> Stop other = 0 \<and> Start other \<in> points c
     then Panic ''point does not belong to the circle'' else Ret (points other \<subseteq> points c))"
proof -
  have sz: "circleSize c = n" "circleSize other = n" using c w by (auto simp: ival_ok_def)
  consider "IntervalLen c = n" | "IntervalLen c < n" "IntervalLen other = n" | "IntervalLen c < n" "IntervalLen other < n"
    using c w by (force simp: ival_ok_def)
  then show ?thesis
  proof cases
    case 1
    then have "points c = {0..<n}" using points_full [OF c] by blast
    then have "points other \<subseteq> points c" using points_range [OF w] by blast
    then show ?thesis using 1 by (simp add: DoesFullyContain_def IsFullCircle_def sz)
  next
    case 2
    then have "\<not> points other \<subseteq> points c" using c w by (auto simp: points_subset_iff [OF c w] ival_ok_def rel_def)
    then show ?thesis using 2 by (simp add: DoesFullyContain_def IsFullCircle_def sz)
  next
    case 3
    then show ?thesis using c w
      unfolding points_subset_iff [OF c w 3(1)] points_iff [OF c] DoesFullyContain_def DoesInclude_def
        DoesWrapAround_def IsFullCircle_def Stop_iff [OF c] Stop_iff [OF w] Start_def rel_def sz
      by (cases "istart c + IntervalLen c < n"; cases "istart other + IntervalLen other < n"; cases "istart c \<le> istart other")
        (simp_all add: ival_ok_def)
  qed
qed

section \<open>Merging two intervals\<close>

lemma points_union:
  assumes c: "ival_ok n c" and w: "ival_ok n other" and u: "ival_ok n u"
    and "istart u = istart c" and "rel n c other \<le> IntervalLen c"
    and "IntervalLen u = max (IntervalLen c) (rel n c other + IntervalLen other)"
  shows "points u = points c \<union> points other"
  using assms unfolding set_eq_iff Un_iff points_iff [OF c] points_iff [OF w] points_iff [OF u] rel_def ival_ok_def
  by (auto split: if_splits)

lemma TryOverlap_coords:
  assumes c: "ival_ok n c" and w: "ival_ok n other" and l: "IntervalLen c < n" "IntervalLen other < n"
  shows "PositiveMod (Stop c - Start c) n = IntervalLen c"
    and "PositiveMod (Start other - Start c) n = rel n c other"
    and "PositiveMod (Stop other - Start c) n =
      (if rel n c other + IntervalLen other < n then rel n c other + IntervalLen other
       else rel n c other + IntervalLen other - n)"
proof -
  have b: "0 < n" "0 \<le> Start c" "Start c < n" "0 \<le> Start other" "Start other < n"
    "0 \<le> Stop c" "Stop c < n" "0 \<le> Stop other" "Stop other < n"
    using c w by (auto simp: ival_ok_def Start_def Stop_iff [OF c] Stop_iff [OF w])
  note eqs = PositiveMod_mod [OF b(1)] diff_mod_cases [OF b(6,7,2,3)] diff_mod_cases [OF b(4,5,2,3)] diff_mod_cases [OF b(8,9,2,3)]
  show "PositiveMod (Stop c - Start c) n = IntervalLen c"
    unfolding eqs using c l by (auto simp: Start_def Stop_iff [OF c] ival_ok_def)
  show "PositiveMod (Start other - Start c) n = rel n c other"
    unfolding eqs by (simp add: Start_def rel_def)
  show "PositiveMod (Stop other - Start c) n =
      (if rel n c other + IntervalLen other < n then rel n c other + IntervalLen other
       else rel n c other + IntervalLen other - n)"
    unfolding eqs using c w l by (auto simp: Start_def Stop_iff [OF w] rel_def ival_ok_def)
qed

text \<open>
  Two intervals either touch, and \<^verbatim>\<open>TryOverlapWith\<close> returns their union, or there is a gap on
  both sides.
\<close>

lemma full_circle_ok: "0 < n \<Longrightarrow> ival_ok n \<lparr>circleSize = n, istart = 0, IntervalLen = n\<rparr>"
  by (simp add: ival_ok_def)

lemma union_full:
  assumes c: "ival_ok n c" and w: "ival_ok n other" and "rel n c other \<le> IntervalLen c" "n \<le> rel n c other + IntervalLen other"
  shows "points c \<union> points other = {0..<n}"
  using assms unfolding set_eq_iff Un_iff points_iff [OF c] points_iff [OF w] rel_def ival_ok_def
  by (auto split: if_splits)

lemma rel_swap:
  assumes "ival_ok n c" and "ival_ok n other" and "0 < rel n c other"
  shows "rel n other c = n - rel n c other"
  using assms by (auto simp: rel_def ival_ok_def split: if_splits)

lemma extend_right:
  assumes c: "ival_ok n c" and w: "ival_ok n other" and "rel n c other \<le> IntervalLen c"
    and "rel n c other + IntervalLen other < n" and "IntervalLen c \<le> rel n c other + IntervalLen other"
  obtains u where "IvalWithStartStop (Start c) (Stop other) n = Ret u" "ival_ok n u" "istart u = istart c"
    "points u = points c \<union> points other"
proof -
  have st: "Stop other \<noteq> Start c" using assms
    by (auto simp: Start_def Stop_iff [OF w] rel_def ival_ok_def split: if_splits)
  obtain u where u: "IvalWithStartStop (Start c) (Stop other) n = Ret u" "ival_ok n u" "istart u = Start c"
    "IntervalLen u = (if Start c \<le> Stop other then Stop other - Start c else Stop other - Start c + n)"
    by (rule IvalWithStartStop_ok [of "Start c" n "Stop other"])
      (use st c w in \<open>auto simp: Start_def Stop_iff [OF w] ival_ok_def\<close>)
  have "IntervalLen u = rel n c other + IntervalLen other" unfolding u(4) using assms
    by (auto simp: Start_def Stop_iff [OF w] rel_def ival_ok_def split: if_splits)
  then have "points u = points c \<union> points other"
    using points_union [OF c w u(2)] u(3) assms by (simp add: Start_def)
  then show ?thesis using that u by (simp add: Start_def)
qed

lemma TryOverlapWith_form:
  assumes c: "ival_ok n c" and w: "ival_ok n other" and l: "IntervalLen c < n" "IntervalLen other < n"
    and "r = rel n c other" and "o1 = (if r + IntervalLen other < n then r + IntervalLen other else r + IntervalLen other - n)"
  shows "TryOverlapWith c other =
    (let found = (\<lambda>r. go_bind r (\<lambda>w. Ret (True, w))) in
     if r < o1 \<and> o1 \<le> IntervalLen c then Ret (True, c)
     else if o1 < r \<and> r \<le> IntervalLen c then found (IvalWithFullLen n)
     else if r \<le> IntervalLen c \<and> IntervalLen c \<le> o1 then found (IvalWithStartStop (Start c) (Stop other) n)
     else if o1 \<le> IntervalLen c \<and> IntervalLen c < r then found (IvalWithStartStop (Start other) (Stop c) n)
     else if IntervalLen c \<le> o1 \<and> o1 < r then Ret (True, other)
     else Ret (False, no_interval))"
proof -
  have sz: "circleSize c = n" "circleSize other = n" and nn: "0 \<le> r" "0 \<le> o1" "0 \<le> IntervalLen c"
    using c w unfolding assms(5,6) by (auto simp: ival_ok_def rel_def)
  show ?thesis using l nn
    unfolding TryOverlapWith_def Let_def sz TryOverlap_coords [OF c w l] assms(5) [symmetric] assms(6) [symmetric]
    by (simp add: IsFullCircle_def sz)
qed

lemma TryOverlapWith_full:
  assumes c: "ival_ok n c" and w: "ival_ok n other" and f: "IntervalLen c = n \<or> IntervalLen other = n"
  obtains u where "TryOverlapWith c other = Ret (True, u)" "ival_ok n u" "points u = points c \<union> points other" "IntervalLen u = n"
proof -
  let ?u = "\<lparr>circleSize = n, istart = 0, IntervalLen = n\<rparr>"
  have n: "0 < n" using c by (simp add: ival_ok_def)
  have "points ?u = {0..<n}" using points_full [OF full_circle_ok [OF n]] by simp
  moreover have "points c = {0..<n} \<or> points other = {0..<n}" using f points_full [OF c] points_full [OF w] by blast
  ultimately have "points ?u = points c \<union> points other" using points_range [OF c] points_range [OF w] by blast
  moreover have "TryOverlapWith c other = Ret (True, ?u)"
    using f c w n by (auto simp: TryOverlapWith_def IsFullCircle_def IvalWithFullLen_def ival_ok_def)
  ultimately show ?thesis using that full_circle_ok [OF n] by simp
qed

lemma TryOverlapWith_cases:
  assumes c: "ival_ok n c" and w: "ival_ok n other"
  obtains (touch) u where "TryOverlapWith c other = Ret (True, u)" "ival_ok n u" "points u = points c \<union> points other"
      "IntervalLen u = n \<or> istart u = istart c \<or> istart u = istart other"
  | (apart) "TryOverlapWith c other = Ret (False, no_interval)"
      "IntervalLen c < n" "IntervalLen other < n"
      "IntervalLen c < rel n c other" "rel n c other + IntervalLen other < n"
proof (cases "IntervalLen c = n \<or> IntervalLen other = n")
  case True
  then show ?thesis using touch TryOverlapWith_full [OF c w True] by blast
next
  case False
  define r lc lo where "r = rel n c other" and "lc = IntervalLen c" and "lo = IntervalLen other"
  have l: "IntervalLen c < n" "IntervalLen other < n" and pos: "0 < lc" "0 < lo" "0 \<le> r" "r < n" "lc < n" "lo < n"
    using False c w by (auto simp: ival_ok_def lc_def lo_def r_def rel_def)
  note defs = r_def lc_def lo_def
  note T = TryOverlapWith_form [OF c w l r_def refl, folded lc_def lo_def] Let_def
  have swap: "0 < r \<Longrightarrow> rel n other c = n - r" using rel_swap [OF c w] by (simp add: defs)
  consider (1) "r + lo < n" "r + lo \<le> lc" | (2) "n \<le> r + lo" "r \<le> lc" | (3) "r + lo < n" "r \<le> lc" "lc < r + lo"
    | (4) "n \<le> r + lo" "lc < r" "r + lo - n \<le> lc" | (5) "n \<le> r + lo" "lc < r" "lc < r + lo - n"
    | (6) "r + lo < n" "lc < r"
    by linarith
  then show ?thesis
  proof cases
    case 1
    then show ?thesis using touch [of c] points_union [OF c w c] c pos by (simp add: T defs [symmetric])
  next
    case 2
    let ?u = "\<lparr>circleSize = n, istart = 0, IntervalLen = n\<rparr>"
    have "points ?u = points c \<union> points other"
      using union_full [OF c w] 2 points_full [OF full_circle_ok, of n] pos by (simp add: defs)
    then show ?thesis using 2 pos touch [of ?u] full_circle_ok [of n] by (auto simp: T IvalWithFullLen_def)
  next
    case 3
    then obtain u where "IvalWithStartStop (Start c) (Stop other) n = Ret u" "ival_ok n u" "istart u = istart c"
      "points u = points c \<union> points other" using extend_right [OF c w] by (auto simp: defs)
    then show ?thesis using 3 pos touch [of u] by (auto simp: T)
  next
    case 4
    then obtain u where "IvalWithStartStop (Start other) (Stop c) n = Ret u" "ival_ok n u" "istart u = istart other"
      "points u = points other \<union> points c" using extend_right [OF w c] swap pos by (auto simp: lc_def lo_def)
    then show ?thesis using 4 pos touch [of u] by (auto simp: T)
  next
    case 5
    have "points other = points other \<union> points c"
      using points_union [OF w c w] 5 swap pos by (simp add: lc_def lo_def)
    then show ?thesis using 5 pos w touch [of other] by (auto simp: T)
  next
    case 6
    then show ?thesis using apart pos l by (simp add: T defs [symmetric])
  qed
qed

section \<open>The smallest cover\<close>

text \<open>
  The buckets: each but the last ends strictly before the next one starts, or the last one is
  the full circle. Positions are linear here: the end of a bucket is not reduced.
\<close>

definition ends :: "CircularInterval \<Rightarrow> int" where
  "ends c = istart c + IntervalLen c"

definition before :: "CircularInterval \<Rightarrow> CircularInterval \<Rightarrow> bool" where
  "before a b \<longleftrightarrow> ends a < istart b"

definition buckets :: "int \<Rightarrow> CircularInterval list \<Rightarrow> bool" where
  "buckets n ov \<longleftrightarrow> ov \<noteq> [] \<and> (\<forall>c\<in>set ov. ival_ok n c)
    \<and> (IntervalLen (last ov) = n \<or> sorted_wrt before ov)"

definition all_points :: "CircularInterval list \<Rightarrow> int set" where
  "all_points ov = (\<Union>c\<in>set ov. points c)"

lemma buckets_snoc:
  "buckets n (bs @ [l]) \<longleftrightarrow> (\<forall>c\<in>set bs. ival_ok n c) \<and> ival_ok n l
    \<and> (IntervalLen l = n \<or> sorted_wrt before bs \<and> (\<forall>b\<in>set bs. before b l))"
  by (auto simp: buckets_def sorted_wrt_append)

lemma apart_before:
  assumes "IntervalLen c < rel n c other" and "istart c \<le> istart other"
  shows "before c other"
  using assms by (simp add: before_def ends_def rel_def)

lemma buckets_merge:
  assumes "buckets n (bs @ [l])" and "ival_ok n w" and "ival_ok n u" and "istart l \<le> istart w"
    and "IntervalLen u = n \<or> istart u = istart l \<or> istart u = istart w" and "IntervalLen l = n \<longrightarrow> IntervalLen u = n"
  shows "buckets n (bs @ [u])"
  using assms by (fastforce simp: buckets_snoc before_def)

lemma full_absorbs:
  assumes "ival_ok n c" and "ival_ok n other" and "IntervalLen c = n"
  obtains u where "TryOverlapWith c other = Ret (True, u)" "ival_ok n u" "points u = points c \<union> points other" "IntervalLen u = n"
  using TryOverlapWith_full [OF assms(1,2)] assms(3) by blast

lemma group_step:
  assumes b: "buckets n (bs @ [l])" and w: "ival_ok n w" and le: "IntervalLen l = n \<or> istart l \<le> istart w"
  obtains ov where "group_loop m m (bs @ [l]) (w # ws) = group_loop m m ov ws" and "buckets n ov"
    and "all_points ov = all_points (bs @ [l]) \<union> points w"
    and "IntervalLen (last ov) = n \<or> istart (last ov) \<le> istart w"
proof (cases "IntervalLen l = n")
  case True
  have l: "ival_ok n l" using b by (simp add: buckets_snoc)
  obtain u where "TryOverlapWith l w = Ret (True, u)" "ival_ok n u" "points u = points l \<union> points w" "IntervalLen u = n"
    using full_absorbs [OF l w True] .
  then show ?thesis using that [of "bs @ [u]"] b by (auto simp: buckets_snoc all_points_def)
next
  case False
  have l: "ival_ok n l" using b by (simp add: buckets_snoc)
  show ?thesis using l w
  proof (cases rule: TryOverlapWith_cases)
    case (touch u)
    have u: "buckets n (bs @ [u])" using buckets_merge [OF b w] touch le False by blast
    have pts: "all_points (bs @ [u]) = all_points (bs @ [l]) \<union> points w" using touch(3) by (auto simp: all_points_def)
    show ?thesis using that [OF _ u pts] touch le False by auto
  next
    case apart
    then have "before l w" using le False by (intro apart_before) auto
    then have "buckets n ((bs @ [l]) @ [w])" using b w le False unfolding buckets_snoc [of n "bs @ [l]"]
      by (auto simp: buckets_snoc before_def sorted_wrt_append)
    then show ?thesis using that [of "(bs @ [l]) @ [w]"] apart(1) by (auto simp: all_points_def)
  qed
qed

lemma group_loop_buckets:
  assumes "buckets n ov" and "\<forall>c\<in>set ws. ival_ok n c" and "sorted (map istart ws)"
    and "IntervalLen (last ov) = n \<or> (\<forall>c\<in>set ws. istart (last ov) \<le> istart c)"
  shows "\<exists>ov'. group_loop m m ov ws = Ret ov' \<and> buckets n ov' \<and> all_points ov' = all_points ov \<union> all_points ws"
  using assms
proof (induction ws arbitrary: ov)
  case (Cons w ws)
  have ov: "ov = butlast ov @ [last ov]" using Cons.prems(1) by (simp add: buckets_def)
  obtain ov' where st: "group_loop m m ov (w # ws) = group_loop m m ov' ws" "buckets n ov'"
    "all_points ov' = all_points ov \<union> points w" "IntervalLen (last ov') = n \<or> istart (last ov') \<le> istart w"
    using group_step [of n "butlast ov" "last ov" w m ws] Cons.prems ov by auto
  have "IntervalLen (last ov') = n \<or> (\<forall>c\<in>set ws. istart (last ov') \<le> istart c)"
    using st(4) Cons.prems(3) by fastforce
  then have "\<exists>ov''. group_loop m m ov' ws = Ret ov'' \<and> buckets n ov'' \<and> all_points ov'' = all_points ov' \<union> all_points ws"
    using Cons.IH [OF st(2)] Cons.prems by simp
  then show ?case using st(1,3) by (auto simp: all_points_def)
qed (simp add: all_points_def)

text \<open>The second loop: it always returns, and it ends with one bucket or with a gap everywhere.\<close>

lemma wrap_loop_returns: "wrap_loop ov \<noteq> None"
proof (induction ov rule: measure_induct_rule [where f = length])
  case (less ov)
  show ?case
  proof (cases "length ov = 1 \<or> ov = []")
    case False
    then have "1 < length ov" by (cases ov) auto
    then have "length (tl (butlast ov @ [u])) < length ov" for u by simp
    then have "wrap_loop (tl (butlast ov @ [u])) \<noteq> None" for u using less.IH by blast
    then show ?thesis using wrap_loop.simps [of ov] False by (auto split: go.splits)
  qed (use wrap_loop.simps [of ov] in auto)
qed

definition closed_buckets :: "int \<Rightarrow> CircularInterval list \<Rightarrow> bool" where
  "closed_buckets n ov \<longleftrightarrow> (\<forall>c\<in>set ov. ival_ok n c) \<and> ov \<noteq> []
    \<and> (length ov = 1 \<or> sorted_wrt before ov \<and> ends (last ov) < istart (hd ov) + n)"

lemma wrap_step:
  assumes b: "buckets n ov" and len: "1 < length ov"
  shows "(\<exists>u. TryOverlapWith (last ov) (hd ov) = Ret (True, u) \<and> buckets n (tl (butlast ov @ [u]))
      \<and> all_points (tl (butlast ov @ [u])) = all_points ov)
    \<or> TryOverlapWith (last ov) (hd ov) = Ret (False, no_interval) \<and> closed_buckets n ov"
proof -
  obtain f bs l where ov: "ov = f # bs @ [l]" using len
    by (cases ov; cases "tl ov" rule: rev_cases) auto
  have f: "ival_ok n f" and l: "ival_ok n l" and fo: "before f l \<or> IntervalLen l = n"
    using b by (auto simp: ov buckets_def)
  show ?thesis using l f
  proof (cases rule: TryOverlapWith_cases)
    case (touch u)
    have "IntervalLen u = n \<or> istart u = istart l \<and> IntervalLen l \<noteq> n"
    proof (cases "IntervalLen l = n")
      case True
      then show ?thesis using full_absorbs [OF l f] touch by auto
    next
      case False
      then have "IntervalLen l < n" "IntervalLen f < n" "before f l" "rel n l f + IntervalLen f < n"
        using f l fo by (auto simp: ival_ok_def before_def ends_def rel_def)
      then show ?thesis using touch(1) l f
        by (auto simp: TryOverlapWith_form [OF l f _ _ refl refl] Let_def IvalWithFullLen_def IvalWithStartStop_def
          Start_def go_simps ival_ok_def split: if_splits)
    qed
    then have "buckets n (bs @ [u])" using b touch(2) by (auto simp: ov buckets_def sorted_wrt_append before_def)
    moreover have "all_points (bs @ [u]) = all_points ov" using touch(3) by (auto simp: ov all_points_def)
    ultimately show ?thesis using touch(1) by (simp add: ov butlast_append)
  next
    case apart
    then show ?thesis using b fo l by (auto simp: ov closed_buckets_def buckets_def ends_def rel_def before_def ival_ok_def split: if_splits)
  qed
qed

lemma wrap_loop_closed:
  assumes "buckets n ov"
  shows "\<exists>ov'. wrap_loop ov = Some (Ret ov') \<and> closed_buckets n ov' \<and> all_points ov' = all_points ov"
  using assms
proof (induction ov rule: measure_induct_rule [where f = length])
  case (less ov)
  show ?case
  proof (cases "length ov = 1")
    case True
    then show ?thesis using less.prems wrap_loop.simps [of ov] by (auto simp: buckets_def closed_buckets_def)
  next
    case False
    then have len: "1 < length ov" using less.prems by (cases ov) (auto simp: buckets_def)
    have sh: "length (tl (butlast ov @ [u])) < length ov" for u using len by simp
    from wrap_step [OF less.prems len] show ?thesis
    proof (elim disjE exE conjE)
      fix u assume "TryOverlapWith (last ov) (hd ov) = Ret (True, u)" "buckets n (tl (butlast ov @ [u]))"
        "all_points (tl (butlast ov @ [u])) = all_points ov"
      then show ?thesis using less.IH [OF sh, of u] len wrap_loop.simps [of ov] by auto
    qed (use len wrap_loop.simps [of ov] in auto)
  qed
qed

text \<open>The gap to the right of bucket \<open>i\<close>, and the loop that looks for the largest.\<close>

definition gap :: "int \<Rightarrow> CircularInterval list \<Rightarrow> nat \<Rightarrow> int" where
  "gap n ov i = (if Suc i < length ov then istart (ov ! Suc i) else istart (ov ! 0) + n) - ends (ov ! i)"

lemma before_nth:
  assumes "closed_buckets n ov" and "i < j" and "j < length ov"
  shows "ends (ov ! i) < istart (ov ! j)"
proof -
  have "sorted_wrt before ov" using assms by (auto simp: closed_buckets_def)
  from sorted_wrt_nth_less [OF this assms(2,3)] show ?thesis by (simp add: before_def)
qed

lemma last_gap:
  assumes "closed_buckets n ov" and "length ov \<noteq> 1"
  shows "ends (ov ! (length ov - 1)) < istart (ov ! 0) + n"
  using assms by (auto simp: closed_buckets_def last_conv_nth hd_conv_nth)

lemma nth_ok:
  assumes "closed_buckets n ov" and "i < length ov"
  shows "ival_ok n (ov ! i)" and "0 \<le> istart (ov ! i)" and "istart (ov ! i) < n" and "istart (ov ! i) < ends (ov ! i)"
  using assms by (auto simp: closed_buckets_def ival_ok_def ends_def)

lemma gap_pos:
  assumes c: "closed_buckets n ov" and i: "i < length ov" and l: "length ov \<noteq> 1"
  shows "0 < gap n ov i" and "PositiveMod (Start (ov ! ((i + 1) mod length ov)) - Stop (ov ! i)) n = gap n ov i"
    and "gap n ov i < n"
proof -
  have n: "0 < n" using nth_ok [OF c i] by simp
  have z: "0 < length ov" using i by linarith
  consider "Suc i < length ov" | "Suc i = length ov" using i by linarith
  then have g: "0 < gap n ov i \<and> gap n ov i < n \<and> PositiveMod (Start (ov ! ((i + 1) mod length ov)) - Stop (ov ! i)) n = gap n ov i"
  proof cases
    case 1
    note b = before_nth [OF c lessI 1] nth_ok [OF c i] nth_ok [OF c 1]
    have "Stop (ov ! i) = ends (ov ! i)" using b by (simp add: Stop_iff ends_def)
    then show ?thesis using 1 b n by (simp add: gap_def Start_def PositiveMod_mod diff_mod_cases ends_def)
  next
    case 2
    then have z2: "0 < i" using l by simp
    note b = last_gap [OF c l] before_nth [OF c z2 i] nth_ok [OF c i] nth_ok [OF c z]
    have i2: "i = length ov - 1" using 2 by simp
    have m: "(i + 1) mod length ov = 0" using 2 by simp
    have "Stop (ov ! i) = (if ends (ov ! i) < n then ends (ov ! i) else ends (ov ! i) - n)"
      using b by (simp add: Stop_iff ends_def)
    moreover have "gap n ov i = istart (ov ! 0) + n - ends (ov ! i)" using 2 by (simp add: gap_def)
    ultimately show ?thesis unfolding m using b i2 n diff_mod_cases [of "istart (ov ! 0)" n "Stop (ov ! i)"]
      by (auto simp: Start_def PositiveMod_mod)
  qed
  then show "0 < gap n ov i" and "gap n ov i < n" 
    and "PositiveMod (Start (ov ! ((i + 1) mod length ov)) - Stop (ov ! i)) n = gap n ov i" by blast+
qed

lemma gap_loop_max:
  assumes "closed_buckets n ov" and "length ov \<noteq> 1" and "drop i ov = ws" and "i + length ws = length ov"
  shows "\<exists>m' p'. gap_loop n ov i ws (m, p) = (m', p') \<and> m \<le> m' \<and> (\<forall>k. i \<le> k \<and> k < length ov \<longrightarrow> gap n ov k \<le> m')
    \<and> ((m', p') = (m, p) \<or> p' < length ov \<and> m' = gap n ov p')"
  using assms(3,4)
proof (induction ws arbitrary: i m p)
  case (Cons w ws)
  have i: "i < length ov" using Cons.prems(2) by simp
  have w: "w = ov ! i" and d: "drop (Suc i) ov = ws" "Suc i + length ws = length ov"
    using Cons.prems by (auto simp: Cons_nth_drop_Suc [OF i, symmetric])
  define mp where "mp = (if gap n ov i > m then (gap n ov i, i) else (m, p))"
  have "gap_loop n ov i (w # ws) (m, p) = gap_loop n ov (Suc i) ws (fst mp, snd mp)"
    using gap_pos(2) [OF assms(1) i assms(2)] by (simp add: w mp_def Let_def)
  moreover obtain m' p' where r: "gap_loop n ov (Suc i) ws (fst mp, snd mp) = (m', p')" "fst mp \<le> m'"
    "\<forall>k. Suc i \<le> k \<and> k < length ov \<longrightarrow> gap n ov k \<le> m'" "(m', p') = mp \<or> p' < length ov \<and> m' = gap n ov p'"
    using Cons.IH [OF d, of "fst mp" "snd mp"] by auto
  moreover have "m \<le> fst mp" "gap n ov i \<le> fst mp" "mp = (m, p) \<or> mp = (gap n ov i, i)" by (auto simp: mp_def)
  moreover have "\<forall>k. i \<le> k \<and> k < length ov \<longrightarrow> gap n ov k \<le> m'"
    using r(2,3) \<open>gap n ov i \<le> fst mp\<close> by (metis Suc_leI dual_order.trans le_neq_implies_less)
  ultimately show ?case using i by (intro exI [of _ m'] exI [of _ p']) auto
qed auto

text \<open>The complement of a gap contains every bucket.\<close>

lemma Stop_range: "ival_ok n c \<Longrightarrow> 0 \<le> Stop c \<and> Stop c < n"
  using Stop_iff [of n c] by (auto simp: ival_ok_def)

lemma ends_mono:
  assumes c: "closed_buckets n ov" and "i \<le> j" and j: "j < length ov"
  shows "ends (ov ! i) \<le> ends (ov ! j)" and "istart (ov ! i) \<le> istart (ov ! j)"
proof -
  have i: "i < length ov" using assms by simp
  show "ends (ov ! i) \<le> ends (ov ! j)" "istart (ov ! i) \<le> istart (ov ! j)"
    using assms(2) before_nth [OF c _ j, of i] nth_ok [OF c i] nth_ok [OF c j] by (cases "i = j"; simp)+
qed

lemma bucket_outside_gap:
  assumes c: "closed_buckets n ov" and l: "length ov \<noteq> 1" and p: "p < length ov" and j: "j < length ov"
    and w: "istart w = istart (ov ! ((p + 1) mod length ov))"
  shows "rel n w (ov ! j) + IntervalLen (ov ! j) \<le> n - gap n ov p"
proof (cases "Suc p < length ov")
  case True
  then have eq: "istart w = istart (ov ! Suc p)" "gap n ov p = istart (ov ! Suc p) - ends (ov ! p)"
    using w by (auto simp: gap_def)
  show ?thesis
  proof (cases "j \<le> p")
    case jp: True
    have "ends (ov ! j) \<le> ends (ov ! p)" "ends (ov ! j) < istart (ov ! Suc p)"
      using ends_mono [OF c jp p] before_nth [OF c _ True, of j] jp by auto
    then show ?thesis using eq nth_ok [OF c j] by (simp add: rel_def ends_def)
  next
    case False
    have "istart (ov ! Suc p) \<le> istart (ov ! j)" using ends_mono [OF c _ j, of "Suc p"] False by simp
    moreover have "ends (ov ! j) \<le> ends (ov ! (length ov - 1))" using ends_mono [OF c _ , of j "length ov - 1"] j by simp
    moreover have "istart (ov ! 0) \<le> ends (ov ! p)" using ends_mono [OF c _ p, of 0] nth_ok [OF c p] by simp
    ultimately show ?thesis using eq last_gap [OF c l] by (simp add: rel_def ends_def)
  qed
next
  case False
  then have pl: "p = length ov - 1" "(p + 1) mod length ov = 0"
    using p by (auto simp: not_less dest: le_antisym [OF _ Suc_leI])
  then have "istart w = istart (ov ! 0)" "gap n ov p = istart (ov ! 0) + n - ends (ov ! p)"
    using w False by (auto simp: gap_def)
  moreover have "ends (ov ! j) \<le> ends (ov ! p)" using ends_mono [OF c _ p, of j] j pl(1) by simp
  moreover have "istart (ov ! 0) \<le> istart (ov ! j)" using ends_mono [OF c _ j, of 0] by simp
  ultimately show ?thesis by (simp add: rel_def ends_def)
qed

lemma gap_complement_covers:
  assumes c: "closed_buckets n ov" and l: "length ov \<noteq> 1" and p: "p < length ov"
  obtains w where "IvalWithStartStop (Start (ov ! ((p + 1) mod length ov))) (Stop (ov ! p)) n = Ret w"
    and "ival_ok n w" and "IntervalLen w = n - gap n ov p" and "all_points ov \<subseteq> points w"
proof -
  let ?q = "(p + 1) mod length ov"
  have q: "?q < length ov" using p by (intro mod_less_divisor) linarith
  note gp = gap_pos [OF c p l] and okp = nth_ok [OF c p] and okq = nth_ok [OF c q]
  note st = Stop_range [OF okp(1)]
  have "(Start (ov ! ?q) - Stop (ov ! p)) mod n = gap n ov p" using gp okp by (simp add: PositiveMod_mod)
  then have ge: "gap n ov p = (if Stop (ov ! p) \<le> Start (ov ! ?q) then Start (ov ! ?q) - Stop (ov ! p)
      else Start (ov ! ?q) - Stop (ov ! p) + n)"
    using diff_mod_cases [of "Start (ov ! ?q)" n "Stop (ov ! p)"] st okq by (simp add: Start_def)
  obtain w where w: "IvalWithStartStop (Start (ov ! ?q)) (Stop (ov ! p)) n = Ret w" "ival_ok n w"
    "istart w = Start (ov ! ?q)"
    "IntervalLen w = (if Start (ov ! ?q) \<le> Stop (ov ! p) then Stop (ov ! p) - Start (ov ! ?q) else Stop (ov ! p) - Start (ov ! ?q) + n)"
    by (rule IvalWithStartStop_ok [of "Start (ov ! ?q)" n "Stop (ov ! p)"])
      (use st okq gp(1) ge in \<open>auto simp: Start_def split: if_splits\<close>)
  have len: "IntervalLen w = n - gap n ov p" using w(4) ge gp(1,3) by (auto split: if_splits)
  have "points (ov ! j) \<subseteq> points w" if j: "j < length ov" for j
    using bucket_outside_gap [OF c l p j, of w] w(3) points_subset_iff [OF w(2) nth_ok(1) [OF c j]] len gp(1)
    by (simp add: Start_def)
  then have "all_points ov \<subseteq> points w" unfolding all_points_def by (metis UN_least in_set_conv_nth)
  then show ?thesis using that w len by blast
qed

text \<open>Any interval that contains every bucket leaves out at most one gap.\<close>

lemma cover_leaves_one_gap:
  assumes c: "closed_buckets n ov" and l: "length ov \<noteq> 1" and w: "ival_ok n w" "IntervalLen w < n" and sub: "all_points ov \<subseteq> points w"
  shows "\<exists>p < length ov. n - IntervalLen w \<le> gap n ov p"
proof -
  have in_w: "rel n w (ov ! j) + IntervalLen (ov ! j) \<le> IntervalLen w" if "j < length ov" for j
    using sub that points_subset_iff [OF w(1) nth_ok(1) [OF c that] w(2)] by (fastforce simp: all_points_def)
  have len: "0 < length ov" using c by (auto simp: closed_buckets_def)
  define below where "below j \<longleftrightarrow> istart (ov ! j) < istart w" for j
  show ?thesis
  proof (cases "\<exists>p. Suc p < length ov \<and> below p \<and> \<not> below (Suc p)")
    case True
    then obtain p where p: "Suc p < length ov" "below p" "\<not> below (Suc p)" by blast
    then show ?thesis using in_w [of p] by (intro exI [of _ p]) (auto simp: gap_def below_def rel_def ends_def)
  next
    case False
    have same: "below j = below 0" if "j < length ov" for j
      using that
    proof (induction j)
      case (Suc j)
      have "below (Suc j) \<Longrightarrow> below j" using ends_mono(2) [OF c, of j "Suc j"] Suc.prems by (simp add: below_def)
      then show ?case using Suc False by auto
    qed simp
    let ?k = "length ov - 1"
    have "n - IntervalLen w \<le> gap n ov ?k"
      using in_w [of ?k] same [of ?k] len nth_ok [OF c, of 0] w(1)
      by (auto simp: gap_def below_def rel_def ends_def ival_ok_def split: if_splits)
    then show ?thesis using len by (intro exI [of _ ?k]) simp
  qed
qed

lemma largest_gap_complement_smallest:
  assumes c: "closed_buckets n ov"
  shows "\<exists>w. largest_gap_complement n ov = Ret w \<and> ival_ok n w \<and> all_points ov \<subseteq> points w
    \<and> (\<forall>w'. ival_ok n w' \<and> all_points ov \<subseteq> points w' \<longrightarrow> IntervalLen w \<le> IntervalLen w')"
proof (cases "length ov = 1")
  case True
  then obtain b where ov: "ov = [b]" by (cases ov) auto
  have b: "ival_ok n b" using c by (simp add: ov closed_buckets_def)
  have "IntervalLen b \<le> IntervalLen w'" if w': "ival_ok n w'" "points b \<subseteq> points w'" for w'
    using points_subset_iff [OF w'(1) b] w' b by (cases "IntervalLen w' = n") (auto simp: rel_def ival_ok_def split: if_splits)
  then show ?thesis using b by (auto simp: ov largest_gap_complement_def all_points_def)
next
  case False
  obtain m p where g: "gap_loop n ov 0 ov (0, 0) = (m, p)" "\<forall>k < length ov. gap n ov k \<le> m"
    "m = 0 \<and> p = 0 \<or> p < length ov \<and> m = gap n ov p"
    using gap_loop_max [OF c False, of 0 ov 0 0] by auto
  have len: "0 < length ov" using c by (auto simp: closed_buckets_def)
  have m: "0 < m" using g(2) gap_pos(1) [OF c len False] len by force
  then have p: "p < length ov" "m = gap n ov p" using g(3) by auto
  obtain w where w: "IvalWithStartStop (Start (ov ! ((p + 1) mod length ov))) (Stop (ov ! p)) n = Ret w"
    "ival_ok n w" "IntervalLen w = n - gap n ov p" "all_points ov \<subseteq> points w"
    using gap_complement_covers [OF c False p(1)] .
  have "IntervalLen w \<le> IntervalLen w'" if w': "ival_ok n w'" "all_points ov \<subseteq> points w'" for w'
  proof (cases "IntervalLen w' = n")
    case True
    then show ?thesis using w(2) by (simp add: ival_ok_def)
  next
    case F: False
    then have "IntervalLen w' < n" using w'(1) by (simp add: ival_ok_def)
    then show ?thesis using cover_leaves_one_gap [OF c False w'(1) _ w'(2)] g(2) w(3) p(2) by force
  qed
  then show ?thesis using w m g(1) False by (auto simp: largest_gap_complement_def)
qed

lemma SmallestCoverInterval_ok:
  assumes ne: "ivs \<noteq> []" and ok: "\<forall>c\<in>set ivs. ival_ok n c"
  shows "\<exists>w. SmallestCoverInterval ivs = Ret w \<and> ival_ok n w \<and> all_points ivs \<subseteq> points w
    \<and> (\<forall>w'. ival_ok n w' \<and> all_points ivs \<subseteq> points w' \<longrightarrow> IntervalLen w \<le> IntervalLen w')"
proof -
  define srt where "srt = sort_key Start ivs"
  have ne2: "srt \<noteq> []" using ne by (metis srt_def set_empty set_sort)
  then obtain s0 ss where s: "srt = s0 # ss" by (cases srt) auto
  have oks: "\<forall>c\<in>set srt. ival_ok n c" using ok by (simp add: srt_def)
  have pts: "all_points srt = all_points ivs" by (simp add: all_points_def srt_def)
  have so: "sorted (map istart srt)" using sorted_sort_key [of Start ivs] by (simp add: srt_def Start_def [abs_def])
  obtain ov where ov: "group_loop n n [s0] ss = Ret ov" "buckets n ov" "all_points ov = all_points srt"
    using group_loop_buckets [of n "[s0]" ss n] oks so by (auto simp: s buckets_def all_points_def)
  obtain ov' where ov': "wrap_loop ov = Some (Ret ov')" "closed_buckets n ov'" "all_points ov' = all_points ov"
    using wrap_loop_closed [OF ov(2)] by blast
  have sz: "circleSize s0 = n" and "circleSize (hd ivs) = n" using ne ok oks by (auto simp: s ival_ok_def)
  then have "SmallestCoverInterval ivs = largest_gap_complement n ov'"
    using ne ov(1) ov'(1) unfolding SmallestCoverInterval_def srt_def [symmetric] Let_def s by (cases ivs) auto
  then show ?thesis using largest_gap_complement_smallest [OF ov'(2)] ov ov' pts by simp
qed

section \<open>Properties\<close>

text \<open>
  C32: The loop of SmallestCoverInterval that merges the last bucket with the first ones has no
  bound in the source, but it returns on every list of buckets, well formed or not: each
  iteration that goes on removes one bucket.
\<close>

theorem cover_loop_terminates: "\<exists>r. wrap_loop overlaps = Some r"
  using wrap_loop_returns [of overlaps] by blast

text \<open>
  C18: SmallestCoverInterval returns, on every non-empty list of intervals of the same circle, an
  interval of that circle that contains all of them, and no interval that contains all of them is
  shorter.
\<close>

theorem smallest_cover:
  assumes "ivs \<noteq> []" and "\<forall>c\<in>set ivs. ival_ok n c"
  shows "\<exists>w. SmallestCoverInterval ivs = Ret w \<and> ival_ok n w \<and> (\<forall>c\<in>set ivs. points c \<subseteq> points w)
    \<and> (\<forall>w'. ival_ok n w' \<and> (\<forall>c\<in>set ivs. points c \<subseteq> points w') \<longrightarrow> IntervalLen w \<le> IntervalLen w')"
  using SmallestCoverInterval_ok [OF assms] unfolding all_points_def UN_subset_iff .

theorem smallest_cover_witness:
  "\<exists>w. SmallestCoverInterval [\<lparr>circleSize = 10, istart = 8, IntervalLen = 3\<rparr>, \<lparr>circleSize = 10, istart = 2, IntervalLen = 2\<rparr>] = Ret w
    \<and> points \<lparr>circleSize = 10, istart = 8, IntervalLen = 3\<rparr> \<subseteq> points w
    \<and> points \<lparr>circleSize = 10, istart = 2, IntervalLen = 2\<rparr> \<subseteq> points w"
proof -
  let ?i = "\<lparr>circleSize = 10, istart = 8, IntervalLen = 3\<rparr>" and ?j = "\<lparr>circleSize = 10, istart = 2, IntervalLen = 2\<rparr>"
  have "\<forall>c\<in>set [?i, ?j]. ival_ok 10 c" by (simp add: ival_ok_def)
  from smallest_cover [OF _ this] show ?thesis by fastforce
qed

text \<open>
  C33: DoesFullyContain decides inclusion of the sets of points of two intervals of the same
  circle, with one exception: when the receiver neither wraps around nor is the full circle and
  contains the start of an argument that ends at the origin of the circle, it panics, because it
  tests the point -1.
\<close>

theorem contains_outcomes:
  assumes "ival_ok n c" and "ival_ok n other"
  shows "DoesFullyContain c other =
    (if \<not> IsFullCircle c \<and> \<not> IsFullCircle other \<and> \<not> DoesWrapAround c \<and> Stop other = 0 \<and> Start other \<in> points c
     then Panic ''point does not belong to the circle'' else Ret (points other \<subseteq> points c))"
  by (rule DoesFullyContain_points [OF assms])

theorem contains_outcomes_witness:
  "DoesFullyContain \<lparr>circleSize = 10, istart = 5, IntervalLen = 4\<rparr> \<lparr>circleSize = 10, istart = 7, IntervalLen = 3\<rparr>
    = Panic ''point does not belong to the circle''"
proof -
  let ?c = "\<lparr>circleSize = 10, istart = 5, IntervalLen = 4\<rparr>" and ?o = "\<lparr>circleSize = 10, istart = 7, IntervalLen = 3\<rparr>"
  have ok: "ival_ok 10 ?c" "ival_ok 10 ?o" by (simp_all add: ival_ok_def)
  have "Stop ?c = 9" "Stop ?o = 0" "Start ?o \<in> points ?c"
    using Stop_iff [OF ok(1)] Stop_iff [OF ok(2)] points_iff [OF ok(1), of 7] by (simp_all add: Start_def)
  then show ?thesis using contains_outcomes [OF ok] by (simp add: IsFullCircle_def DoesWrapAround_def Start_def)
qed

end
