(* ===== verification/Go_Slice.thy ===== *)
theory Go_Slice
  imports Go_Prelude
begin

text \<open>
  Go slices as lists with integer indices: reading an element, slicing \<^verbatim>\<open>xs[a:b]\<close> and the
  sub-list it denotes. An index out of range is a panic. Go bounds a slice expression by the capacity
  of its operand: \<open>go_slice_cap\<close> takes the elements of the backing array beyond the length as an
  argument. \<open>go_slice\<close> is for an operand of no spare capacity (a slice just made) and for bounds that
  the code keeps within the length.
\<close>

definition len :: "'a list \<Rightarrow> int" where
  "len xs = int (length xs)"

definition go_nth :: "'a list \<Rightarrow> int \<Rightarrow> 'a go" where
  "go_nth xs i = (if 0 \<le> i \<and> i < len xs then Ret (xs ! nat i) else Panic ''index out of range'')"

definition sub :: "'a list \<Rightarrow> int \<Rightarrow> int \<Rightarrow> 'a list" where
  "sub xs a b = take (nat (b - a)) (drop (nat a) xs)"

definition go_slice :: "'a list \<Rightarrow> int \<Rightarrow> int \<Rightarrow> 'a list go" where
  "go_slice xs a b = (if 0 \<le> a \<and> a \<le> b \<and> b \<le> len xs then Ret (sub xs a b) else Panic ''slice bounds out of range'')"

definition go_slice_cap :: "'a list \<Rightarrow> 'a list \<Rightarrow> int \<Rightarrow> int \<Rightarrow> 'a list go" where
  "go_slice_cap spare xs a b =
    (if 0 \<le> a \<and> a \<le> b \<and> b \<le> len xs + len spare then Ret (sub (xs @ spare) a b) else Panic ''slice bounds out of range'')"

text \<open>\<^verbatim>\<open>copy(dst[at:], src)\<close> with an offset in range: it copies as many elements as fit.\<close>

definition copy_to :: "'a list \<Rightarrow> int \<Rightarrow> 'a list \<Rightarrow> 'a list" where
  "copy_to dst at src = take (nat at) dst @ take (length dst - nat at) src @ drop (nat at + length src) dst"

lemma len_simps [simp]: "0 \<le> len xs" "nat (len xs) = length xs" "len [] = 0" "len (x # xs) = len xs + 1"
  "len (map f xs) = len xs" "len (xs @ ys) = len xs + len ys" "len (replicate n x) = int n" "len (xs[i := y]) = len xs"
  by (simp_all add: len_def)

lemma len_zero_iff [simp]: "len xs = 0 \<longleftrightarrow> xs = []" "0 = len xs \<longleftrightarrow> xs = []" "len xs \<le> 0 \<longleftrightarrow> xs = []"
  by (simp_all add: len_def)

lemma len_pos [simp]: "xs \<noteq> [] \<Longrightarrow> 0 < len xs"
  by (simp add: len_def)

lemma len_not_neg [simp]: "\<not> len xs < 0"
  by (simp add: len_def)

lemma len_zip [simp]: "len (zip xs ys) = min (len xs) (len ys)"
  by (simp add: len_def)

lemma len_Suc_pos [simp]: "0 < 1 + len xs" "0 < len xs + 1"
  by (simp_all add: len_def)

lemma nat_less_len: "0 \<le> i \<Longrightarrow> nat i < length xs \<longleftrightarrow> i < len xs"
  by (simp add: len_def) linarith

lemma length_sub [simp]: "length (sub xs a b) = min (nat (b - a)) (length xs - nat a)"
  by (simp add: sub_def)

lemma len_sub: "0 \<le> a \<Longrightarrow> a \<le> b \<Longrightarrow> b \<le> len xs \<Longrightarrow> len (sub xs a b) = b - a"
  by (simp add: len_def)

lemma nth_sub:
  assumes "0 \<le> a" and "a + int k < b" and "b \<le> len xs"
  shows "sub xs a b ! k = xs ! nat (a + int k)"
  using assms by (simp add: sub_def len_def nat_add_distrib less_diff_conv)

lemma go_nth_Ret: "0 \<le> i \<Longrightarrow> i < len xs \<Longrightarrow> go_nth xs i = Ret (xs ! nat i)"
  by (simp add: go_nth_def)

lemma go_slice_Ret: "0 \<le> a \<Longrightarrow> a \<le> b \<Longrightarrow> b \<le> len xs \<Longrightarrow> go_slice xs a b = Ret (sub xs a b)"
  by (simp add: go_slice_def)

lemma go_slice_cap_Nil: "go_slice_cap [] = go_slice"
  by (simp add: fun_eq_iff go_slice_cap_def go_slice_def)

lemma sub_append: "0 \<le> a \<Longrightarrow> b \<le> len xs \<Longrightarrow> sub (xs @ ys) a b = sub xs a b"
proof -
  assume "0 \<le> a" "b \<le> len xs"
  then have "nat (b - a) - (length xs - nat a) = 0" by (simp add: len_def)
  then show ?thesis by (simp add: sub_def)
qed

lemma sub_all [simp]: "sub xs 0 (len xs) = xs"
  by (simp add: sub_def len_def)

text \<open>Two lists are equal when they agree at every integer position.\<close>

lemma list_eq_int:
  assumes "len xs = n" and "len ys = n" and "\<And>k. 0 \<le> k \<Longrightarrow> k < n \<Longrightarrow> xs ! nat k = ys ! nat k"
  shows "xs = ys"
proof (rule nth_equalityI)
  show "length xs = length ys" using assms(1,2) by (simp add: len_def)
next
  fix i assume "i < length xs"
  then show "xs ! i = ys ! i" using assms(1) assms(3) [of "int i"] by (simp add: len_def)
qed

lemma nth_sub_int:
  assumes "0 \<le> a" and "0 \<le> k" and "k < b - a" and "b \<le> len xs"
  shows "sub xs a b ! nat k = xs ! nat (a + k)"
  using assms nth_sub [of a "nat k" b xs] by simp

lemma length_copy_to [simp]: "0 \<le> at \<Longrightarrow> at \<le> len dst \<Longrightarrow> length (copy_to dst at src) = length dst"
  by (simp add: copy_to_def len_def)

lemma copy_to_all: "len part = len dst \<Longrightarrow> copy_to dst 0 part = part"
  by (simp add: copy_to_def len_def)

lemma copy_to_two:
  assumes "len p1 = n1" and "len p1 + len p2 = len dst"
  shows "copy_to (copy_to dst 0 p1) n1 p2 = p1 @ p2"
  using assms by (auto simp: copy_to_def len_def)

lemma nth_append_int:
  assumes "0 \<le> k"
  shows "(xs @ ys) ! nat k = (if k < len xs then xs ! nat k else ys ! nat (k - len xs))"
  using assms by (auto simp: nth_append len_def nat_less_iff nat_diff_distrib)

text \<open>A loop that writes one position of a slice per iteration.\<close>

lemma length_fold_update [simp]: "length (fold (\<lambda>i b. b[pos i := f i]) is b) = length b"
  by (induction "is" arbitrary: b) auto

lemma nth_fold_update_other:
  "j \<notin> pos ` set is \<Longrightarrow> fold (\<lambda>i b. b[pos i := f i]) is b ! j = b ! j"
  by (induction "is" arbitrary: b) auto

lemma nth_fold_update:
  assumes "inj_on pos (set is)" and "i \<in> set is" and "pos i < length b"
  shows "fold (\<lambda>i b. b[pos i := f i]) is b ! pos i = f i"
  using assms
proof (induction "is" arbitrary: b)
  case (Cons k ks)
  show ?case
  proof (cases "i \<in> set ks")
    case True
    then show ?thesis using Cons by simp
  next
    case False
    then have "i = k" and "pos k \<notin> pos ` set ks" using Cons.prems False by (auto simp: inj_on_def)
    then show ?thesis using Cons.prems by (simp add: nth_fold_update_other)
  qed
qed simp

end
