(* ===== verification/Smart_Vectors.thy ===== *)
theory Smart_Vectors
  imports Circular Go_Slice
begin

text \<open>
  Smart-vectors over the base field (\<^verbatim>\<open>prover/maths/common/smartvectors\<close>: \<^verbatim>\<open>constant.go\<close>,
  \<^verbatim>\<open>regular.go\<close>, \<^verbatim>\<open>rotated.go\<close>, \<^verbatim>\<open>windowed.go\<close>, \<^verbatim>\<open>vecutil.go\<close> and the conversions of
  \<^verbatim>\<open>smartvectors.go\<close>). The four implementations of the interface are the constructors of one
  datatype, each method is one definition per implementation, and the method call of the
  interface dispatches on the constructor. \<open>vals\<close> is the list a smart-vector stands for; the
  lemmas show that every method computes on the compressed form what it should on that list.
  A method that writes into a slice of the caller returns the new contents of the slice.
\<close>

section \<open>Data and constructors\<close>

text \<open>
  \<open>Constant Value Length\<close>, \<open>Regular v\<close>, \<open>Rotated v offset\<close> and
  \<open>PaddedCircularWindow Window PaddingVal TotLen Offset\<close>, with the fields of the source.
\<close>

datatype 'e SmartVector =
    Constant 'e int
  | Regular "'e list"
  | Rotated "'e list" int
  | PaddedCircularWindow "'e list" 'e int int

definition assertCorrectBound :: "int \<Rightarrow> int \<Rightarrow> unit go" where
  "assertCorrectBound pos n = (if pos \<ge> n then Panic ''Bound assertion failed'' else Ret ())"

definition assertHasLength :: "int \<Rightarrow> int \<Rightarrow> unit go" where
  "assertHasLength a b = (if a \<noteq> b then Panic ''the two slices should have the same length'' else Ret ())"

definition assertStrictPositiveLen :: "int \<Rightarrow> unit go" where
  "assertStrictPositiveLen l =
    (if l = 0 then Panic ''FORBIDDEN : Got a null length vector''
     else if l \<le> 0 then Panic ''FORBIDDEN : Got a negative length'' else Ret ())"

definition NewConstant :: "'e \<Rightarrow> int \<Rightarrow> 'e SmartVector go" where
  "NewConstant val n = (if n \<le> 0 then Panic ''zero or negative length are not allowed'' else Ret (Constant val n))"

definition NewRegular :: "'e list \<Rightarrow> 'e SmartVector go" where
  "NewRegular v = go_bind (assertStrictPositiveLen (len v)) (\<lambda>_. Ret (Regular v))"

definition NewRotated :: "'e list \<Rightarrow> int \<Rightarrow> 'e SmartVector go" where
  "NewRotated reg offset =
    (if len reg = 0 then Panic ''got an empty vector''
     else if offset < 0 \<and> - offset > len reg then Panic ''len is less than, offset''
     else if offset > len reg then Panic ''len, is less than, offset''
     else Ret (Rotated reg offset))"

definition NewPaddedCircularWindow :: "'e list \<Rightarrow> 'e \<Rightarrow> int \<Rightarrow> int \<Rightarrow> 'e SmartVector go" where
  "NewPaddedCircularWindow window paddingVal offset totLen =
    (if len window > totLen then Panic ''The window size is too large''
     else if len window = totLen then Panic ''Forbidden : the window should not take the full length''
     else if len window = 0 then Panic ''Forbidden : empty window''
     else Ret (PaddedCircularWindow window paddingVal totLen (PositiveMod offset totLen)))"

section \<open>Reading\<close>

primrec Len :: "'e SmartVector \<Rightarrow> int" where
  "Len (Constant val n) = n"
| "Len (Regular r) = len r"
| "Len (Rotated r offset) = len r"
| "Len (PaddedCircularWindow w pad totLen offset) = totLen"

definition Rotated_GetBase :: "'e list \<Rightarrow> int \<Rightarrow> int \<Rightarrow> 'e go" where
  "Rotated_GetBase r offset n =
    (if len r = 0 then Panic ''integer divide by zero'' else go_nth r (PositiveMod (n + offset) (len r)))"

definition PaddedCircularWindow_GetBase :: "'e list \<Rightarrow> 'e \<Rightarrow> int \<Rightarrow> int \<Rightarrow> int \<Rightarrow> 'e go" where
  "PaddedCircularWindow_GetBase w pad totLen offset n =
    (let posFromWindowsPoV = PositiveMod (n - offset) totLen in
     if posFromWindowsPoV < len w then go_nth w posFromWindowsPoV else Ret pad)"

primrec GetBase :: "'e SmartVector \<Rightarrow> int \<Rightarrow> 'e go" where
  "GetBase (Constant val m) n = Ret val"
| "GetBase (Regular r) n = go_nth r n"
| "GetBase (Rotated r offset) n = Rotated_GetBase r offset n"
| "GetBase (PaddedCircularWindow w pad totLen offset) n = PaddedCircularWindow_GetBase w pad totLen offset n"

text \<open>\<^verbatim>\<open>Get\<close> panics where \<^verbatim>\<open>GetBase\<close> returns an error.\<close>

definition Get :: "'e SmartVector \<Rightarrow> int \<Rightarrow> 'e go" where
  "Get v n = must (GetBase v n)"

text \<open>\<^verbatim>\<open>GetPtr\<close> returns a pointer into the vector; the model returns the value it points to.\<close>

definition PaddedCircularWindow_GetPtr :: "'e list \<Rightarrow> 'e \<Rightarrow> int \<Rightarrow> int \<Rightarrow> int \<Rightarrow> 'e go" where
  "PaddedCircularWindow_GetPtr w pad totLen offset n =
    (let n1 = n - offset; n2 = (if n1 < 0 then n1 + totLen else n1) in
     if n2 < len w then go_nth w n2 else Ret pad)"

primrec GetPtr :: "'e SmartVector \<Rightarrow> int \<Rightarrow> 'e go" where
  "GetPtr (Constant val m) n = Ret val"
| "GetPtr (Regular r) n = go_nth r n"
| "GetPtr (Rotated r offset) n = Rotated_GetBase r offset n"
| "GetPtr (PaddedCircularWindow w pad totLen offset) n = PaddedCircularWindow_GetPtr w pad totLen offset n"

section \<open>Sub-vectors\<close>

definition Constant_SubVector :: "'e \<Rightarrow> int \<Rightarrow> int \<Rightarrow> int \<Rightarrow> 'e SmartVector go" where
  "Constant_SubVector val n start stop =
    (if start > stop then Panic ''negative length are not allowed''
     else if start = stop then Panic ''zero length are not allowed''
     else go_bind (assertCorrectBound start n) (\<lambda>_.
       go_bind (assertCorrectBound stop (n + 1)) (\<lambda>_. NewConstant val (stop - start))))"

text \<open>
  A regular vector may be a part of a longer array; \<open>spare\<close> is the rest of that array after the vector, as
  far as the capacity of the slice reaches.
\<close>

definition Regular_SubVector :: "'e list \<Rightarrow> 'e list \<Rightarrow> int \<Rightarrow> int \<Rightarrow> 'e SmartVector go" where
  "Regular_SubVector spare r start stop =
    (if start > stop then Panic ''Negative length are not allowed''
     else if start = stop then Panic ''Subvector of zero lengths are not allowed''
     else go_bind (go_slice_cap spare r start stop) (\<lambda>res. Ret (Regular res)))"

definition copySubVector :: "'e list \<Rightarrow> int \<Rightarrow> int \<Rightarrow> int \<Rightarrow> 'e list \<Rightarrow> 'e list go" where
  "copySubVector src offset start stop dst =
    (let size = len src; spanSize = stop - start in
     if start < 0 \<or> stop > size \<or> stop \<le> start \<or> len dst \<noteq> spanSize
     then Panic ''invalid subvector range or destination size''
     else let startWithOffsetClean = PositiveMod (start + offset) size in
       if startWithOffsetClean + spanSize \<le> size
       then go_bind (go_slice src startWithOffsetClean (startWithOffsetClean + spanSize)) (\<lambda>part.
         Ret (copy_to dst 0 part))
       else let n1 = size - startWithOffsetClean; n2 = spanSize - n1 in
         go_bind (go_slice src startWithOffsetClean size) (\<lambda>part1.
         go_bind (go_slice src 0 n2) (\<lambda>part2.
           Ret (copy_to (copy_to dst 0 part1) n1 part2))))"

definition Rotated_SubVector :: "'e::zero list \<Rightarrow> int \<Rightarrow> int \<Rightarrow> int \<Rightarrow> 'e SmartVector go" where
  "Rotated_SubVector r offset start stop =
    (if stop - start < 0 then Panic ''makeslice: len out of range''
     else go_bind (copySubVector r offset start stop (replicate (nat (stop - start)) 0)) (\<lambda>res. Ret (Regular res)))"

definition rotatedAsRegular :: "'e::zero list \<Rightarrow> int \<Rightarrow> 'e SmartVector go" where
  "rotatedAsRegular r offset = Rotated_SubVector r offset 0 (len r)"

definition pcw_interval :: "'e list \<Rightarrow> int \<Rightarrow> int \<Rightarrow> CircularInterval go" where
  "pcw_interval w totLen offset = IvalWithStartLen offset (len w) totLen"

definition normalize :: "int \<Rightarrow> int \<Rightarrow> int \<Rightarrow> int" where
  "normalize x newRef m = PositiveMod (x - newRef) m"

definition PaddedCircularWindow_SubVector ::
    "'e list \<Rightarrow> 'e \<Rightarrow> int \<Rightarrow> int \<Rightarrow> int \<Rightarrow> int \<Rightarrow> 'e SmartVector go" where
  "PaddedCircularWindow_SubVector w pad totLen offset start stop =
    (if start < 0 then Panic ''negative Start value is not allowed'' else
     go_bind (assertCorrectBound start totLen) (\<lambda>_.
     go_bind (assertCorrectBound stop (totLen + 1)) (\<lambda>_.
     if start > stop then Panic ''rollover are forbidden''
     else if start = stop then Panic ''zero length subvector is forbidden''
     else go_bind (pcw_interval w totLen offset) (\<lambda>ival.
     let n = totLen; b = stop - start;
         c = normalize (Start ival) start n;
         d = normalize (Stop ival) start n in
     if b \<le> c \<and> c < d then NewConstant pad b
     else if b \<le> d \<and> d < c then
       go_bind (go_slice w (n - c) (n - c + b)) (\<lambda>reg. Ret (Regular reg))
     else if b \<le> d \<and> c = 0 then go_bind (go_slice w 0 b) (\<lambda>reg. Ret (Regular reg))
     else if c < d \<and> d \<le> b then NewPaddedCircularWindow w pad c b
     else if c < b \<and> c \<le> d then
       go_bind (go_slice w 0 (b - c)) (\<lambda>part. NewPaddedCircularWindow part pad c b)
     else if d < c \<and> c < b then
       go_bind (go_slice w 0 (b - c)) (\<lambda>left.
       go_bind (go_slice w (n - c) (len w)) (\<lambda>right.
         NewPaddedCircularWindow (left @ right) pad c b))
     else if 0 < d \<and> d < b \<and> b \<le> c then
       go_bind (go_slice w (n - c) (len w)) (\<lambda>part. NewPaddedCircularWindow part pad 0 b)
     else if d = 0 \<and> b \<le> c then NewConstant pad b
     else Panic ''unsupported case''))))"

primrec SubVector :: "'e::zero list \<Rightarrow> 'e SmartVector \<Rightarrow> int \<Rightarrow> int \<Rightarrow> 'e SmartVector go" where
  "SubVector spare (Constant val n) start stop = Constant_SubVector val n start stop"
| "SubVector spare (Regular r) start stop = Regular_SubVector spare r start stop"
| "SubVector spare (Rotated r offset) start stop = Rotated_SubVector r offset start stop"
| "SubVector spare (PaddedCircularWindow w pad totLen offset) start stop =
    PaddedCircularWindow_SubVector w pad totLen offset start stop"

section \<open>Writing, copying and rotating\<close>

text \<open>\<^verbatim>\<open>WriteInSlice\<close> of a window: one loop for the window, one for the padding.\<close>

definition pcw_write :: "int \<Rightarrow> int \<Rightarrow> (nat \<Rightarrow> 'e) \<Rightarrow> nat list \<Rightarrow> 'e list \<Rightarrow> 'e list" where
  "pcw_write totLen offset f is buff =
    fold (\<lambda>i buff. buff[nat (PositiveMod (int i + offset) totLen) := f i]) is buff"

definition PaddedCircularWindow_WriteInSlice :: "'e list \<Rightarrow> 'e \<Rightarrow> int \<Rightarrow> int \<Rightarrow> 'e list \<Rightarrow> 'e list go" where
  "PaddedCircularWindow_WriteInSlice w pad totLen offset buff =
    go_bind (assertHasLength (len buff) totLen) (\<lambda>_.
      Ret (pcw_write totLen offset (\<lambda>_. pad) [length w..<nat totLen]
        (pcw_write totLen offset (\<lambda>i. w ! i) [0..<length w] buff)))"

definition Constant_WriteInSlice :: "'e \<Rightarrow> int \<Rightarrow> 'e list \<Rightarrow> 'e list go" where
  "Constant_WriteInSlice val n s = go_bind (assertHasLength (len s) n) (\<lambda>_. Ret (map (\<lambda>_. val) s))"

definition Regular_WriteInSlice :: "'e list \<Rightarrow> 'e list \<Rightarrow> 'e list go" where
  "Regular_WriteInSlice r s = go_bind (assertHasLength (len s) (len r)) (\<lambda>_. Ret (copy_to s 0 r))"

definition WriteSubVectorInSlice :: "'e list \<Rightarrow> int \<Rightarrow> int \<Rightarrow> int \<Rightarrow> 'e list \<Rightarrow> 'e list go" where
  "WriteSubVectorInSlice r offset start stop s = copySubVector r offset start stop s"

definition Rotated_WriteInSlice :: "'e list \<Rightarrow> int \<Rightarrow> 'e list \<Rightarrow> 'e list go" where
  "Rotated_WriteInSlice r offset s = WriteSubVectorInSlice r offset 0 (len r) s"

primrec WriteInSlice :: "'e SmartVector \<Rightarrow> 'e list \<Rightarrow> 'e list go" where
  "WriteInSlice (Constant val n) s = Constant_WriteInSlice val n s"
| "WriteInSlice (Regular r) s = Regular_WriteInSlice r s"
| "WriteInSlice (Rotated r offset) s = Rotated_WriteInSlice r offset s"
| "WriteInSlice (PaddedCircularWindow w pad totLen offset) s = PaddedCircularWindow_WriteInSlice w pad totLen offset s"

text \<open>\<^verbatim>\<open>IsBase\<close> reads position 0: it panics on an empty regular vector.\<close>

definition IsBase :: "'e SmartVector \<Rightarrow> bool go" where
  "IsBase vec = (case GetBase vec 0 of Ret x \<Rightarrow> Ret True | Err e \<Rightarrow> Ret False | Panic m \<Rightarrow> Panic m)"

text \<open>The branch for vectors over the extension field is out of the model: \<open>IsBase\<close> holds of all four constructors.\<close>

definition IntoRegVec :: "'e::zero SmartVector \<Rightarrow> 'e list go" where
  "IntoRegVec s = go_bind (IsBase s) (\<lambda>base.
    if base then WriteInSlice s (replicate (nat (Len s)) 0)
    else Panic ''smartvector holds field extensions, but a base element was requested'')"

primrec regular_of :: "'e SmartVector \<Rightarrow> 'e list go" where
  "regular_of (Constant val n) = Panic ''interface conversion''"
| "regular_of (Regular r) = Ret r"
| "regular_of (Rotated r offset) = Panic ''interface conversion''"
| "regular_of (PaddedCircularWindow w pad totLen offset) = Panic ''interface conversion''"

primrec IntoRegVecSaveAllocBase :: "'e::zero SmartVector \<Rightarrow> 'e list go" where
  "IntoRegVecSaveAllocBase (Constant val n) = IntoRegVec (Constant val n)"
| "IntoRegVecSaveAllocBase (Regular r) = Ret r"
| "IntoRegVecSaveAllocBase (Rotated r offset) = go_bind (rotatedAsRegular r offset) regular_of"
| "IntoRegVecSaveAllocBase (PaddedCircularWindow w pad totLen offset) =
    IntoRegVec (PaddedCircularWindow w pad totLen offset)"

definition IntoRegVecSaveAlloc :: "'e::zero SmartVector \<Rightarrow> 'e list go" where
  "IntoRegVecSaveAlloc v = must (IntoRegVecSaveAllocBase v)"

primrec DeepCopy :: "'e SmartVector \<Rightarrow> 'e SmartVector go" where
  "DeepCopy (Constant val n) = NewConstant val n"
| "DeepCopy (Regular r) = NewRegular r"
| "DeepCopy (Rotated r offset) = NewRotated r offset"
| "DeepCopy (PaddedCircularWindow w pad totLen offset) = NewPaddedCircularWindow w pad offset totLen"

definition Rotated_RotateRight :: "'e list \<Rightarrow> int \<Rightarrow> int \<Rightarrow> 'e SmartVector go" where
  "Rotated_RotateRight r off offset =
    (if offset > 2 ^ 40 then Panic ''offset is too large''
     else go_bind (DeepCopy (Rotated r off)) (\<lambda>_. Ret (Rotated r (off + offset))))"

primrec RotateRight :: "'e SmartVector \<Rightarrow> int \<Rightarrow> 'e SmartVector go" where
  "RotateRight (Constant val n) offset = NewConstant val n"
| "RotateRight (Regular r) offset = NewRotated r (- offset)"
| "RotateRight (Rotated r off) offset = Rotated_RotateRight r off offset"
| "RotateRight (PaddedCircularWindow w pad totLen off) offset = NewPaddedCircularWindow w pad (off + offset) totLen"

primrec SoftRotate :: "'e SmartVector \<Rightarrow> int \<Rightarrow> 'e SmartVector go" where
  "SoftRotate (Constant val n) offset = Ret (Constant val n)"
| "SoftRotate (Regular r) offset = NewRotated r offset"
| "SoftRotate (Rotated r off) offset = NewRotated r (PositiveMod (offset + off) (len r))"
| "SoftRotate (PaddedCircularWindow w pad totLen off) offset =
    NewPaddedCircularWindow w pad (PositiveMod (off + offset) totLen) totLen"

section \<open>Iterators\<close>

text \<open>The list of the elements an iterator yields.\<close>

definition PaddedCircularWindow_IterateCompact :: "'e::zero list \<Rightarrow> 'e \<Rightarrow> int \<Rightarrow> int \<Rightarrow> 'e list go" where
  "PaddedCircularWindow_IterateCompact w pad totLen offset =
    (if offset > 0 \<and> offset + len w \<noteq> totLen then IntoRegVecSaveAlloc (PaddedCircularWindow w pad totLen offset)
     else Ret ((if offset > 0 then [pad] else []) @ w @ (if offset + len w < totLen then [pad] else [])))"

primrec IterateCompact :: "'e::zero SmartVector \<Rightarrow> 'e list go" where
  "IterateCompact (Constant val n) = Ret [val]"
| "IterateCompact (Regular r) = Ret r"
| "IterateCompact (Rotated r offset) = go_bind (rotatedAsRegular r offset) regular_of"
| "IterateCompact (PaddedCircularWindow w pad totLen offset) = PaddedCircularWindow_IterateCompact w pad totLen offset"

primrec IterateSkipPadding :: "'e::zero SmartVector \<Rightarrow> 'e list go" where
  "IterateSkipPadding (Constant val n) = Ret []"
| "IterateSkipPadding (Regular r) = IterateCompact (Regular r)"
| "IterateSkipPadding (Rotated r offset) = IterateCompact (Rotated r offset)"
| "IterateSkipPadding (PaddedCircularWindow w pad totLen offset) = Ret w"

section \<open>What a smart-vector denotes\<close>

text \<open>
  \<open>rot xs k\<close> is \<open>xs\<close> rotated by \<open>k\<close> positions to the left, for any integer \<open>k\<close>; \<open>pcw_at\<close> is the
  value of a window at a position of the circle.
\<close>

definition rot :: "'e list \<Rightarrow> int \<Rightarrow> 'e list" where
  "rot xs k = map (\<lambda>i. xs ! nat ((int i + k) mod len xs)) [0..<length xs]"

definition pcw_at :: "'e list \<Rightarrow> 'e \<Rightarrow> int \<Rightarrow> int \<Rightarrow> int \<Rightarrow> 'e" where
  "pcw_at w pad totLen offset i =
    (if (i - offset) mod totLen < len w then w ! nat ((i - offset) mod totLen) else pad)"

primrec vals :: "'e SmartVector \<Rightarrow> 'e list" where
  "vals (Constant val n) = replicate (nat n) val"
| "vals (Regular r) = r"
| "vals (Rotated r offset) = rot r offset"
| "vals (PaddedCircularWindow w pad totLen offset) = map (\<lambda>i. pcw_at w pad totLen offset (int i)) [0..<nat totLen]"

text \<open>The well-formedness the constructors establish. A rotation may exceed the length.\<close>

primrec sv_ok :: "'e SmartVector \<Rightarrow> bool" where
  "sv_ok (Constant val n) = (0 < n)"
| "sv_ok (Regular r) = (r \<noteq> [])"
| "sv_ok (Rotated r offset) = (r \<noteq> [])"
| "sv_ok (PaddedCircularWindow w pad totLen offset) =
    (w \<noteq> [] \<and> len w < totLen \<and> 0 \<le> offset \<and> offset < totLen)"

lemma len_rot [simp]: "len (rot xs k) = len xs" "length (rot xs k) = length xs"
  by (simp_all add: rot_def len_def)

lemma nth_rot: "0 \<le> i \<Longrightarrow> i < len xs \<Longrightarrow> rot xs k ! nat i = xs ! nat ((i + k) mod len xs)"
  by (simp add: rot_def len_def nat_less_iff)

lemma len_vals: "sv_ok v \<Longrightarrow> len (vals v) = Len v"
  by (cases v) (auto simp: len_def)

lemma Len_pos: "sv_ok v \<Longrightarrow> 0 < Len v"
  by (cases v) (auto simp: len_def)

lemma rot_rot:
  "rot (rot xs j) k = rot xs (j + k)"
proof (rule list_eq_int [of _ "len xs"])
  fix i assume i: "0 \<le> i" "i < len xs"
  then have "xs \<noteq> []" by auto
  then have "0 \<le> (i + k) mod len xs" "(i + k) mod len xs < len xs" by simp_all
  then show "rot (rot xs j) k ! nat i = rot xs (j + k) ! nat i"
    using i by (simp add: nth_rot mod_simps ac_simps)
qed simp_all

lemma rot_mod: "rot xs (k mod len xs) = rot xs k"
  by (rule list_eq_int [of _ "len xs"]) (simp_all add: nth_rot mod_simps)

lemma rot_0 [simp]: "rot xs 0 = xs"
  by (rule list_eq_int [of _ "len xs"]) (simp_all add: nth_rot)

lemma nth_pcw:
  "0 \<le> i \<Longrightarrow> i < n \<Longrightarrow> vals (PaddedCircularWindow w pad n off) ! nat i = pcw_at w pad n off i"
  by simp

lemma rot_pcw:
  assumes "0 < n"
  shows "rot (vals (PaddedCircularWindow w pad n off)) k = vals (PaddedCircularWindow w pad n ((off - k) mod n))"
proof (rule list_eq_int [of _ n])
  fix i assume i: "0 \<le> i" "i < n"
  have l: "len (vals (PaddedCircularWindow w pad n off)) = n" using assms by (simp add: len_def)
  have m: "0 \<le> (i + k) mod n" "(i + k) mod n < n" using assms by auto
  have e: "((i + k) mod n - off) mod n = (i - (off - k) mod n) mod n" by (simp add: mod_simps algebra_simps)
  show "rot (vals (PaddedCircularWindow w pad n off)) k ! nat i = vals (PaddedCircularWindow w pad n ((off - k) mod n)) ! nat i"
    using nth_rot [of i "vals (PaddedCircularWindow w pad n off)" k] i m l e
    by (simp add: nth_pcw pcw_at_def del: vals.simps)
qed (use assms in \<open>simp_all add: len_def\<close>)

text \<open>The outcome of the constructors.\<close>

lemma constructors_ok:
  "0 < n \<Longrightarrow> NewConstant x n = Ret (Constant x n)"
  "r \<noteq> [] \<Longrightarrow> NewRegular r = Ret (Regular r)"
  "r \<noteq> [] \<Longrightarrow> \<bar>k\<bar> \<le> len r \<Longrightarrow> NewRotated r k = Ret (Rotated r k)"
  "w \<noteq> [] \<Longrightarrow> len w < n \<Longrightarrow> NewPaddedCircularWindow w pad off n = Ret (PaddedCircularWindow w pad n (off mod n))"
proof -
  show "w \<noteq> [] \<Longrightarrow> len w < n \<Longrightarrow> NewPaddedCircularWindow w pad off n = Ret (PaddedCircularWindow w pad n (off mod n))"
    using PositiveMod_mod [of n off] len_simps(1) [of w] by (auto simp: NewPaddedCircularWindow_def)
qed (auto simp: NewConstant_def NewRegular_def assertStrictPositiveLen_def NewRotated_def)

lemma GetBase_vals:
  assumes "sv_ok v" and "0 \<le> i" and "i < Len v"
  shows "GetBase v i = Ret (vals v ! nat i)"
proof (cases v)
  case (Rotated r off)
  then show ?thesis using assms
    by (simp add: Rotated_GetBase_def PositiveMod_mod go_nth_Ret nth_rot)
next
  case (PaddedCircularWindow w pad n off)
  then show ?thesis using assms
    by (auto simp: PaddedCircularWindow_GetBase_def PositiveMod_mod Let_def go_nth_Ret pcw_at_def)
qed (use assms in \<open>auto simp: go_nth_Ret nat_less_iff\<close>)

lemma Get_vals: "sv_ok v \<Longrightarrow> 0 \<le> i \<Longrightarrow> i < Len v \<Longrightarrow> Get v i = Ret (vals v ! nat i)"
  by (simp add: Get_def GetBase_vals)

lemma GetPtr_vals:
  assumes "sv_ok v" and "0 \<le> i" and "i < Len v"
  shows "GetPtr v i = Ret (vals v ! nat i)"
proof (cases v)
  case (PaddedCircularWindow w pad n off)
  then have "(i - off) mod n = (if off \<le> i then i - off else i - off + n)"
    using assms by (intro diff_mod_cases) auto
  then show ?thesis using assms PaddedCircularWindow
    by (auto simp: PaddedCircularWindow_GetPtr_def Let_def go_nth_Ret pcw_at_def)
qed (use assms GetBase_vals [OF assms] in auto)

section \<open>Sub-vectors\<close>

lemma copySubVector_ok:
  assumes "0 \<le> start" and "start < stop" and "stop \<le> len src" and "len dst = stop - start"
  shows "copySubVector src offset start stop dst = Ret (sub (rot src offset) start stop)"
proof -
  define n s b where "n = len src" and "s = (start + offset) mod n" and "b = stop - start"
  have n: "0 < n" and b: "0 < b" "b \<le> n" using assms by (auto simp: n_def b_def)
  have s: "0 \<le> s" "s < n" using n by (simp_all add: s_def)
  have rhs: "sub (rot src offset) start stop ! nat k = src ! nat (if s + k < n then s + k else k - (n - s))"
    if k: "0 \<le> k" "k < b" for k
  proof -
    have "(start + k + offset) mod n = (s + k) mod n" by (simp add: s_def mod_simps algebra_simps)
    also have "\<dots> = (if s + k < n then s + k else k - (n - s))" using s k b by (subst add_mod_cases) auto
    finally show ?thesis using k assms by (simp add: nth_sub_int nth_rot b_def n_def)
  qed
  show ?thesis
  proof (cases "s + b \<le> n")
    case True
    have "sub src s (s + b) = sub (rot src offset) start stop"
      by (rule list_eq_int [of _ b]) (use True s assms rhs in \<open>auto simp: len_sub nth_sub_int b_def n_def\<close>)
    moreover have "copySubVector src offset start stop dst = Ret (sub src s (s + b))"
      using True s b assms n by (simp add: copySubVector_def Let_def PositiveMod_mod go_slice_Ret copy_to_all len_sub
        flip: n_def b_def s_def)
    ultimately show ?thesis by simp
  next
    case False
    have "sub src s n @ sub src 0 (b - (n - s)) = sub (rot src offset) start stop"
      by (rule list_eq_int [of _ b])
        (use False s b assms rhs in \<open>auto simp: len_sub nth_sub_int b_def n_def nth_append_int\<close>)
    moreover have "copySubVector src offset start stop dst = Ret (sub src s n @ sub src 0 (b - (n - s)))"
      using False s b assms n by (simp add: copySubVector_def Let_def PositiveMod_mod go_slice_Ret copy_to_two len_sub
        flip: n_def b_def s_def)
    ultimately show ?thesis by simp
  qed
qed

lemma Rotated_SubVector_ok:
  assumes "0 \<le> start" and "start < stop" and "stop \<le> len r"
  shows "Rotated_SubVector r offset start stop = Ret (Regular (sub (rot r offset) start stop))"
  using assms by (simp add: Rotated_SubVector_def copySubVector_ok)

lemma rotatedAsRegular_ok: "r \<noteq> [] \<Longrightarrow> rotatedAsRegular r offset = Ret (Regular (rot r offset))"
  using Rotated_SubVector_ok [of 0 "len r" r offset] sub_all [of "rot r offset"] by (simp add: rotatedAsRegular_def)

text \<open>
  \<open>win_at\<close> is the value of a window in the coordinates of \<^verbatim>\<open>SubVector\<close>, where it starts at \<open>c\<close>.
\<close>

definition win_at :: "'e list \<Rightarrow> 'e \<Rightarrow> int \<Rightarrow> int \<Rightarrow> int \<Rightarrow> 'e" where
  "win_at w pad n c k =
    (if c \<le> k then if k - c < len w then w ! nat (k - c) else pad
     else if k - c + n < len w then w ! nat (k - c + n) else pad)"

lemma pcw_at_shift:
  assumes "0 < n" and "c = (off - start) mod n" and "0 \<le> k" and "k < n"
  shows "pcw_at w pad n off (start + k) = win_at w pad n c k"
proof -
  have "(start + k - off) mod n = (k - c) mod n" by (simp add: assms(2) mod_simps algebra_simps)
  moreover have "(k - c) mod n = (if c \<le> k then k - c else k - c + n)"
    using assms by (intro diff_mod_cases) auto
  ultimately show ?thesis by (simp add: pcw_at_def win_at_def)
qed

lemma vals_pcw_nth:
  assumes "0 \<le> c" and "c < b" and "0 \<le> k" and "k < b"
  shows "vals (PaddedCircularWindow w pad b c) ! nat k = win_at w pad b c k"
  using assms pcw_at_shift [of b c c 0 k w pad] nth_pcw [of k b w pad c] by simp

definition represents :: "'e SmartVector go \<Rightarrow> 'e list \<Rightarrow> bool" where
  "represents r xs \<longleftrightarrow> (\<exists>u. r = Ret u \<and> sv_ok u \<and> vals u = xs)"

lemma representsI: "r = Ret u \<Longrightarrow> sv_ok u \<Longrightarrow> vals u = xs \<Longrightarrow> represents r xs"
  by (auto simp: represents_def)

lemma represents_constructors:
  "0 < n \<Longrightarrow> xs = replicate (nat n) x \<Longrightarrow> represents (NewConstant x n) xs"
  "xs \<noteq> [] \<Longrightarrow> represents (Ret (Regular xs)) xs"
  "r \<noteq> [] \<Longrightarrow> \<bar>k\<bar> \<le> len r \<Longrightarrow> represents (NewRotated r k) (rot r k)"
  "w \<noteq> [] \<Longrightarrow> len w < n \<Longrightarrow>
    represents (NewPaddedCircularWindow w pad off n) (vals (PaddedCircularWindow w pad n (off mod n)))"
proof -
  assume w: "w \<noteq> []" "len w < n"
  then have "0 < n" using len_simps(1) [of w] by linarith
  then show "represents (NewPaddedCircularWindow w pad off n) (vals (PaddedCircularWindow w pad n (off mod n)))"
    using w by (intro representsI [OF constructors_ok(4)]) auto
qed (auto simp: represents_def constructors_ok)

lemma pcw_sub_form:
  assumes ok: "sv_ok (PaddedCircularWindow w pad n off)" and r: "0 \<le> start" "start < stop" "stop \<le> n"
    and "b = stop - start" and "c = (off - start) mod n" and "d = (if c + len w < n then c + len w else c + len w - n)"
  shows "PaddedCircularWindow_SubVector w pad n off start stop =
    (if b \<le> c \<and> c < d then NewConstant pad b
     else if b \<le> d \<and> d < c then go_bind (go_slice w (n - c) (n - c + b)) (\<lambda>reg. Ret (Regular reg))
     else if b \<le> d \<and> c = 0 then go_bind (go_slice w 0 b) (\<lambda>reg. Ret (Regular reg))
     else if c < d \<and> d \<le> b then NewPaddedCircularWindow w pad c b
     else if c < b \<and> c \<le> d then go_bind (go_slice w 0 (b - c)) (\<lambda>part. NewPaddedCircularWindow part pad c b)
     else if d < c \<and> c < b then
       go_bind (go_slice w 0 (b - c)) (\<lambda>left. go_bind (go_slice w (n - c) (len w)) (\<lambda>right.
         NewPaddedCircularWindow (left @ right) pad c b))
     else if 0 < d \<and> d < b \<and> b \<le> c then
       go_bind (go_slice w (n - c) (len w)) (\<lambda>part. NewPaddedCircularWindow part pad 0 b)
     else if d = 0 \<and> b \<le> c then NewConstant pad b
     else Panic ''unsupported case'')"
proof -
  let ?i = "\<lparr>circleSize = n, istart = off, IntervalLen = len w\<rparr>"
  have n: "0 < n" using r by simp
  have i: "pcw_interval w n off = Ret ?i" "ival_ok n ?i"
    using ok by (auto simp: pcw_interval_def IvalWithStartLen_def ival_ok_def)
  have c: "normalize (Start ?i) start n = c" using n by (simp add: normalize_def Start_def PositiveMod_mod assms(6))
  have "normalize (Stop ?i) start n = (c + len w) mod n"
    using n by (simp add: normalize_def Stop_def PositiveMod_mod assms(6) mod_simps algebra_simps)
  also have "\<dots> = d" unfolding assms(7) using ok n by (intro add_mod_cases) (auto simp: assms(6))
  finally have d: "normalize (Stop ?i) start n = d" .
  show ?thesis using r i(1) by (simp add: PaddedCircularWindow_SubVector_def assertCorrectBound_def Let_def c d flip: assms(5))
qed

lemma sub_pcw_eqI:
  assumes ok: "sv_ok (PaddedCircularWindow w pad n off)" and r: "0 \<le> start" "start < stop" "stop \<le> n"
    and c: "c = (off - start) mod n" and l: "len xs = stop - start"
    and at: "\<And>k. 0 \<le> k \<Longrightarrow> k < stop - start \<Longrightarrow> xs ! nat k = win_at w pad n c k"
  shows "xs = sub (vals (PaddedCircularWindow w pad n off)) start stop"
proof (rule list_eq_int [OF l])
  have l: "len (vals (PaddedCircularWindow w pad n off)) = n" using ok len_vals by fastforce
  show "len (sub (vals (PaddedCircularWindow w pad n off)) start stop) = stop - start" using l r by (simp add: len_sub)
  fix k assume k: "0 \<le> k" "k < stop - start"
  show "xs ! nat k = sub (vals (PaddedCircularWindow w pad n off)) start stop ! nat k"
    using at [OF k] pcw_at_shift [of n c off start k w pad] k l r c nth_pcw [of "start + k" n w pad off]
    by (simp add: nth_sub_int del: vals.simps)
qed

text \<open>The two halves of the case analysis: the window does not wrap around the sub-vector's origin, or it does.\<close>

definition sub_result :: "'e list \<Rightarrow> 'e \<Rightarrow> int \<Rightarrow> int \<Rightarrow> int \<Rightarrow> 'e SmartVector go \<Rightarrow> bool" where
  "sub_result w pad n c b r \<longleftrightarrow> (\<exists>u. r = Ret u \<and> sv_ok u \<and> Len u = b
    \<and> (\<forall>k. 0 \<le> k \<and> k < b \<longrightarrow> vals u ! nat k = win_at w pad n c k))"

lemma sub_result_const:
  assumes "0 < b" and "\<And>k. 0 \<le> k \<Longrightarrow> k < b \<Longrightarrow> win_at w pad n c k = pad"
  shows "sub_result w pad n c b (NewConstant pad b)"
  using assms by (simp add: sub_result_def constructors_ok)

lemma sub_result_reg:
  assumes "0 < b" and "0 \<le> a" and "a + b \<le> len w" and "\<And>k. 0 \<le> k \<Longrightarrow> k < b \<Longrightarrow> win_at w pad n c k = w ! nat (a + k)"
  shows "sub_result w pad n c b (go_bind (go_slice w a (a + b)) (\<lambda>reg. Ret (Regular reg)))"
proof -
  have "sub w a (a + b) \<noteq> []" using assms(1-3) len_sub [of a "a + b" w] by force
  then show ?thesis using assms by (simp add: sub_result_def go_slice_Ret len_sub nth_sub_int)
qed

lemma sub_result_pcw:
  assumes "w' \<noteq> []" and "len w' < b" and "0 \<le> c'" and "c' < b"
    and "\<And>k. 0 \<le> k \<Longrightarrow> k < b \<Longrightarrow> win_at w pad n c k = win_at w' pad b c' k"
  shows "sub_result w pad n c b (NewPaddedCircularWindow w' pad c' b)"
  using assms by (simp add: sub_result_def constructors_ok vals_pcw_nth del: vals.simps)

lemma go_slice_len: "0 \<le> a \<Longrightarrow> a \<le> len w \<Longrightarrow> go_slice w a (len w) = Ret (sub w a (len w))"
  by (simp add: go_slice_Ret)

lemma straight_cases: fixes b c l :: int assumes bnd: "0 < b" "0 \<le> c" "0 < l"
 obtains "b \<le> c" | "b \<le> c + l" "c = 0" | "c < b" "c + l \<le> b" "0 < c \<or> l < b"
    | "0 < c" "c < b" "b < c + l"
  using bnd that by (cases "b \<le> c"; cases "c = 0"; cases "b \<le> l"; cases "c + l \<le> b") (auto simp: not_le)

lemma pcw_sub_straight:
  assumes ok: "sv_ok (PaddedCircularWindow w pad n off)" and r: "0 \<le> start" "start < stop" "stop \<le> n"
    and b: "b = stop - start" and c: "c = (off - start) mod n" and st: "c + len w < n"
  shows "sub_result w pad n c b (PaddedCircularWindow_SubVector w pad n off start stop)"
proof -
  note form = pcw_sub_form [OF ok r b c refl, unfolded if_P [OF st]]
  have bnd: "0 < b" "b \<le> n" "0 \<le> c" "0 < len w" using ok r by (auto simp: b c)
  show ?thesis
  proof (rule straight_cases [OF bnd(1,3,4)])
    assume 1: "b \<le> c"
    have "sub_result w pad n c b (NewConstant pad b)"
     using 1 bnd st by (intro sub_result_const) (auto simp: win_at_def)
    then show ?thesis unfolding form using 1 bnd by simp
  next
    assume 2: "b \<le> c + len w" "c = 0"
    have "sub_result w pad n c b (go_bind (go_slice w 0 (0 + b)) (\<lambda>reg. Ret (Regular reg)))"
     using 2 bnd by (intro sub_result_reg) (auto simp: win_at_def)
    then show ?thesis unfolding form using 2 bnd by simp
  next
    assume 3: "c < b" "c + len w \<le> b" "0 < c \<or> len w < b"
    have "sub_result w pad n c b (NewPaddedCircularWindow w pad c b)"
     using 3 bnd st by (intro sub_result_pcw) (auto simp: win_at_def)
    then show ?thesis unfolding form using 3 bnd by auto
  next
    assume 4: "0 < c" "c < b" "b < c + len w"
    have ne: "sub w 0 (b - c) \<noteq> []" using 4 len_sub [of 0 "b - c" w] by force
    have "sub_result w pad n c b (NewPaddedCircularWindow (sub w 0 (b - c)) pad c b)"
     using 4 bnd st ne by (intro sub_result_pcw) (auto simp: win_at_def len_sub nth_sub_int)
    then show ?thesis unfolding form using 4 bnd by (simp add: go_slice_Ret)
  qed
qed

lemma wrap_cases: fixes b c d :: int assumes "d < c" "0 \<le> d" "0 < b"
 obtains "b \<le> d" | "d < b" "c < b" | "0 < d" "d < b" "b \<le> c" | "d = 0" "b \<le> c"
  using assms that by (cases "b \<le> d"; cases "c < b"; cases "d = 0") auto

lemma pcw_sub_wrapped:
  assumes ok: "sv_ok (PaddedCircularWindow w pad n off)" and r: "0 \<le> start" "start < stop" "stop \<le> n"
    and b: "b = stop - start" and c: "c = (off - start) mod n" and st: "\<not> c + len w < n"
  shows "sub_result w pad n c b (PaddedCircularWindow_SubVector w pad n off start stop)"
proof -
  define d where "d = c + len w - n"
  note form = pcw_sub_form [OF ok r b c refl, unfolded if_not_P [OF st] d_def [symmetric]]
  have bnd: "0 < b" "b \<le> n" "0 < len w" "c < n" "0 \<le> d" "d < c" "len w = n - c + d" using ok r st by (auto simp: b c d_def)
  have right: "go_slice w (n - c) (len w) = Ret (sub w (n - c) (len w))" "len (sub w (n - c) (len w)) = d"
    using bnd by (simp_all add: go_slice_Ret len_sub)
  show ?thesis
  proof (rule wrap_cases [OF bnd(6,5,1)])
    assume 1: "b \<le> d"
    have "sub_result w pad n c b (go_bind (go_slice w (n - c) (n - c + b)) (\<lambda>reg. Ret (Regular reg)))"
      using 1 bnd by (intro sub_result_reg) (auto simp: win_at_def algebra_simps)
    then show ?thesis unfolding form using 1 bnd by simp
  next
    assume 2: "d < b" "c < b"
    have l: "len (sub w 0 (b - c)) = b - c" using 2 bnd by (simp add: len_sub)
    then have ne: "sub w 0 (b - c) @ sub w (n - c) (len w) \<noteq> []" using 2 by force
    have "sub_result w pad n c b (NewPaddedCircularWindow (sub w 0 (b - c) @ sub w (n - c) (len w)) pad c b)"
    proof (rule sub_result_pcw [OF ne])
      fix k assume k: "0 \<le> k" "k < b"
      show "win_at w pad n c k = win_at (sub w 0 (b - c) @ sub w (n - c) (len w)) pad b c k"
        using 2 bnd k l right(2) by (auto simp: win_at_def nth_append_int nth_sub_int algebra_simps)
    qed (use 2 bnd l right(2) in simp_all)
    then show ?thesis unfolding form using 2 bnd by (simp add: go_slice_Ret)
  next
    assume 3: "0 < d" "d < b" "b \<le> c"
    have ne: "sub w (n - c) (len w) \<noteq> []" using 3 right(2) by force
    have "sub_result w pad n c b (NewPaddedCircularWindow (sub w (n - c) (len w)) pad 0 b)"
      using 3 bnd ne right(2) by (intro sub_result_pcw) (auto simp: win_at_def nth_sub_int algebra_simps)
    then show ?thesis unfolding form right(1) using 3 bnd by simp
  next
    assume 4: "d = 0" "b \<le> c"
    have "sub_result w pad n c b (NewConstant pad b)"
      using 4 bnd by (intro sub_result_const) (auto simp: win_at_def)
    then show ?thesis unfolding form using 4 bnd by simp
  qed
qed

lemma PaddedCircularWindow_SubVector_ok:
  assumes ok: "sv_ok (PaddedCircularWindow w pad n off)" and r: "0 \<le> start" "start < stop" "stop \<le> n"
  shows "represents (PaddedCircularWindow_SubVector w pad n off start stop)
    (sub (vals (PaddedCircularWindow w pad n off)) start stop)"
proof -
  obtain u where "PaddedCircularWindow_SubVector w pad n off start stop = Ret u" "sv_ok u" "Len u = stop - start"
    "\<And>k. 0 \<le> k \<Longrightarrow> k < stop - start \<Longrightarrow> vals u ! nat k = win_at w pad n ((off - start) mod n) k"
    using pcw_sub_straight [OF ok r refl refl] pcw_sub_wrapped [OF ok r refl refl] unfolding sub_result_def by metis
  then show ?thesis using sub_pcw_eqI [OF ok r refl, of "vals u"] len_vals [of u] by (auto intro: representsI)
qed

lemma SubVector_ok:
  assumes "sv_ok v" and "0 \<le> start" and "start < stop" and "stop \<le> Len v"
  shows "represents (SubVector spare v start stop) (sub (vals v) start stop)"
proof (cases v)
  case (Constant x n)
  then show ?thesis using assms
    by (auto simp: Constant_SubVector_def assertCorrectBound_def sub_def intro!: represents_constructors)
next
  case (Regular r)
  have "sub r start stop \<noteq> []" using assms Regular len_sub [of start stop r] by force
  moreover have "go_slice_cap spare r start stop = Ret (sub r start stop)"
    using assms Regular len_simps(1) [of spare] unfolding go_slice_cap_def by (simp add: sub_append del: len_simps(1))
  ultimately show ?thesis using assms Regular by (simp add: Regular_SubVector_def represents_constructors)
next
  case (Rotated r k)
  have "sub (rot r k) start stop \<noteq> []" using assms Rotated len_sub [of start stop "rot r k"] by force
  then show ?thesis using assms Rotated by (simp add: Rotated_SubVector_ok represents_constructors)
next
  case (PaddedCircularWindow w pad n off)
  then show ?thesis using assms PaddedCircularWindow_SubVector_ok by fastforce
qed

primrec is_constant :: "'e SmartVector \<Rightarrow> bool" where
  "is_constant (Constant x n) = True"
| "is_constant (Regular r) = False"
| "is_constant (Rotated r k) = False"
| "is_constant (PaddedCircularWindow w pad n off) = False"

primrec is_regular :: "'e SmartVector \<Rightarrow> bool" where
  "is_regular (Constant x n) = False"
| "is_regular (Regular r) = True"
| "is_regular (Rotated r k) = False"
| "is_regular (PaddedCircularWindow w pad n off) = False"

lemma SubVector_beyond:
  assumes "is_regular v" and "0 \<le> start" and "start < stop" and "stop \<le> Len v + len spare"
  shows "represents (SubVector spare v start stop) (sub (vals v @ spare) start stop)"
proof -
  obtain r where r: "v = Regular r" using assms(1) by (cases v) auto
  have "sub (r @ spare) start stop \<noteq> []" using assms(2-4) len_sub [of start stop "r @ spare"] r by force
  then show ?thesis using assms(2-4) r by (auto simp: Regular_SubVector_def go_slice_cap_def intro!: represents_constructors)
qed

lemma SubVector_refused:
  assumes "sv_ok v" and "\<not> (0 \<le> start \<and> start < stop \<and> stop \<le> Len v)"
    and "\<not> (is_regular v \<and> 0 \<le> start \<and> start < stop \<and> stop \<le> Len v + len spare)"
  shows "if is_constant v \<and> start < stop \<and> stop \<le> Len v
    then represents (SubVector spare v start stop) (replicate (nat (stop - start)) (vals v ! 0))
    else \<exists>m. SubVector spare v start stop = Panic m"
  using assms
  by (cases v) (auto simp: Constant_SubVector_def Regular_SubVector_def Rotated_SubVector_def copySubVector_def Let_def
      PaddedCircularWindow_SubVector_def assertCorrectBound_def go_slice_cap_def intro!: represents_constructors)

section \<open>Writing, copying and rotating\<close>

lemma circle_pos_inj:
  fixes n off :: int
  assumes "0 < n"
  shows "inj_on (\<lambda>i. nat ((int i + off) mod n)) {0..<nat n}"
proof (rule inj_onI)
  fix i j assume ij: "i \<in> {0..<nat n}" "j \<in> {0..<nat n}" and eq: "nat ((int i + off) mod n) = nat ((int j + off) mod n)"
  have "(int i + off) mod n = (int j + off) mod n" using eq assms by (simp add: nat_eq_iff)
  then have "(int i + off - off) mod n = (int j + off - off) mod n" by (rule mod_diff_cong) simp
  then show "i = j" using ij by (simp add: zmod_int [symmetric] nat_less_iff)
qed

lemma PaddedCircularWindow_WriteInSlice_ok:
  assumes ok: "sv_ok (PaddedCircularWindow w pad n off)" and l: "len buff = n"
  shows "PaddedCircularWindow_WriteInSlice w pad n off buff = Ret (vals (PaddedCircularWindow w pad n off))"
proof -
  have n: "0 < n" using ok by auto
  have lw: "length w < nat n" using ok by (auto simp: len_def)
  define pos where "pos i = nat ((int i + off) mod n)" for i
  have W: "pcw_write n off f is b = fold (\<lambda>i b. b[pos i := f i]) is b" for f "is" b
    unfolding pcw_write_def pos_def PositiveMod_mod [OF n] by simp
  have inj: "inj_on pos {0..<nat n}" using circle_pos_inj [OF n, of off] by (simp add: pos_def [abs_def])
  then have injs: "inj_on pos (set [0..<length w])" "inj_on pos (set [length w..<nat n])"
    by (rule inj_on_subset; use lw in auto)+
  let ?b1 = "fold (\<lambda>i b. b[pos i := w ! i]) [0..<length w] buff"
  let ?b2 = "fold (\<lambda>i b. b[pos i := pad]) [length w..<nat n] ?b1"
  have lb: "length buff = nat n" using l n by (simp add: len_def)
  have "?b2 = vals (PaddedCircularWindow w pad n off)"
  proof (rule list_eq_int [of _ n])
    fix k assume k: "0 \<le> k" "k < n"
    define i where "i = nat ((k - off) mod n)"
    have pi: "pos i = nat k" "i < nat n" using k n by (simp_all add: pos_def i_def mod_simps)
    have "?b2 ! pos i = (if i < length w then w ! i else pad)"
    proof (cases "i < length w")
      case True
      then have "pos i \<notin> pos ` set [length w..<nat n]" using pi(2) inj_onD [OF inj, of i] by force
      then have "?b2 ! pos i = ?b1 ! pos i" by (rule nth_fold_update_other)
      also have "\<dots> = w ! i" by (rule nth_fold_update [OF injs(1)]) (use True pi k lb in auto)
      finally show ?thesis using True by simp
    next
      case False
      have "?b2 ! pos i = pad" by (rule nth_fold_update [OF injs(2)]) (use False pi k lb in auto)
      then show ?thesis using False by simp
    qed
    then show "?b2 ! nat k = vals (PaddedCircularWindow w pad n off) ! nat k"
      using k n pi(1) nth_pcw [of k n w pad off] by (simp add: pcw_at_def i_def nat_less_len del: vals.simps)
  qed (use lb n in \<open>simp_all add: len_def\<close>)
  then show ?thesis using l by (simp add: PaddedCircularWindow_WriteInSlice_def assertHasLength_def W del: vals.simps)
qed

lemma WriteInSlice_ok:
  assumes "sv_ok v" and "len s = Len v"
  shows "WriteInSlice v s = Ret (vals v)"
proof (cases v)
  case (Constant x n)
  then show ?thesis using assms by (simp add: Constant_WriteInSlice_def assertHasLength_def map_replicate_const len_def)
next
  case (Regular r)
  then show ?thesis using assms by (simp add: Regular_WriteInSlice_def assertHasLength_def copy_to_all)
next
  case (Rotated r k)
  then show ?thesis using assms sub_all [of "rot r k"]
    by (simp add: Rotated_WriteInSlice_def WriteSubVectorInSlice_def copySubVector_ok)
qed (use assms PaddedCircularWindow_WriteInSlice_ok in fastforce)

lemma WriteInSlice_wrong_length:
  assumes "sv_ok v" and "len s \<noteq> Len v"
  shows "\<exists>m. WriteInSlice v s = Panic m"
  using assms by (cases v) (auto simp: Constant_WriteInSlice_def Regular_WriteInSlice_def Rotated_WriteInSlice_def
    WriteSubVectorInSlice_def copySubVector_def PaddedCircularWindow_WriteInSlice_def assertHasLength_def)

lemma IntoRegVec_ok: "sv_ok v \<Longrightarrow> IntoRegVec v = Ret (vals v)"
  using GetBase_vals [of v 0] Len_pos [of v] by (simp add: IntoRegVec_def IsBase_def WriteInSlice_ok)

lemma IntoRegVecSaveAllocBase_ok: "sv_ok v \<Longrightarrow> IntoRegVecSaveAllocBase v = Ret (vals v)"
  by (cases v) (auto simp: IntoRegVec_ok rotatedAsRegular_ok simp del: vals.simps(4) sv_ok.simps(4))

lemma IntoRegVecSaveAlloc_ok: "sv_ok v \<Longrightarrow> IntoRegVecSaveAlloc v = Ret (vals v)"
  by (simp add: IntoRegVecSaveAlloc_def IntoRegVecSaveAllocBase_ok)

text \<open>\<open>rotation_bounded\<close> is what \<^verbatim>\<open>NewRotated\<close> checks; \<^verbatim>\<open>Rotated.RotateRight\<close> does not keep it.\<close>

primrec rotation_bounded :: "'e SmartVector \<Rightarrow> bool" where
  "rotation_bounded (Constant x n) = True"
| "rotation_bounded (Regular r) = True"
| "rotation_bounded (Rotated r k) = (\<bar>k\<bar> \<le> len r)"
| "rotation_bounded (PaddedCircularWindow w pad n off) = True"

lemma DeepCopy_ok:
  assumes "sv_ok v" and "rotation_bounded v"
  shows "DeepCopy v = Ret v"
  using assms by (cases v) (auto simp: constructors_ok)

lemma rot_replicate: "rot (replicate n x) k = replicate n x"
proof (rule list_eq_int [of _ "int n"])
  fix i assume i: "0 \<le> i" "i < int n"
  then have "0 \<le> (i + k) mod int n" "(i + k) mod int n < int n" by auto
  then show "rot (replicate n x) k ! nat i = replicate n x ! nat i"
    using i by (simp add: nth_rot nat_less_iff)
qed simp_all

text \<open>
  The two rotations turn in a direction that depends on the representation: \<^verbatim>\<open>RotateRight\<close> turns
  a \<^verbatim>\<open>Rotated\<close> to the left, and \<^verbatim>\<open>SoftRotate\<close> turns a window to the right.
\<close>

primrec is_rotated :: "'e SmartVector \<Rightarrow> bool" where
  "is_rotated (Constant x n) = False"
| "is_rotated (Regular r) = False"
| "is_rotated (Rotated r k) = True"
| "is_rotated (PaddedCircularWindow w pad n off) = False"

primrec is_window :: "'e SmartVector \<Rightarrow> bool" where
  "is_window (Constant x n) = False"
| "is_window (Regular r) = False"
| "is_window (Rotated r k) = False"
| "is_window (PaddedCircularWindow w pad n off) = True"

lemma represents_pcw_rotated:
  assumes "sv_ok (PaddedCircularWindow w pad n off)"
  shows "represents (NewPaddedCircularWindow w pad (off + k) n) (rot (vals (PaddedCircularWindow w pad n off)) (- k))"
  using assms represents_constructors(4) [of w n pad "off + k"] rot_pcw [of n w pad off "- k"]
  by (auto simp del: vals.simps)

text \<open>The offsets for which a rotation returns; the others panic in \<^verbatim>\<open>NewRotated\<close> or on the bound of \<^verbatim>\<open>RotateRight\<close>.\<close>

primrec right_turns :: "'e SmartVector \<Rightarrow> int \<Rightarrow> bool" where
  "right_turns (Constant x n) k = True"
| "right_turns (Regular r) k = (\<bar>k\<bar> \<le> len r)"
| "right_turns (Rotated r j) k = (\<bar>j\<bar> \<le> len r \<and> k \<le> 2 ^ 40)"
| "right_turns (PaddedCircularWindow w pad n off) k = True"

primrec soft_turns :: "'e SmartVector \<Rightarrow> int \<Rightarrow> bool" where
  "soft_turns (Constant x n) k = True"
| "soft_turns (Regular r) k = (\<bar>k\<bar> \<le> len r)"
| "soft_turns (Rotated r j) k = True"
| "soft_turns (PaddedCircularWindow w pad n off) k = True"

lemma NewRotated_refused: "\<not> \<bar>k\<bar> \<le> len r \<Longrightarrow> \<exists>m. NewRotated r k = Panic m"
  by (auto simp: NewRotated_def)

lemma RotateRight_ok:
  assumes ok: "sv_ok v"
  shows "if right_turns v k then represents (RotateRight v k) (rot (vals v) (if is_rotated v then k else - k))
    else \<exists>m. RotateRight v k = Panic m"
proof (cases v)
  case (Constant x n)
  then show ?thesis using ok by (simp add: rot_replicate represents_constructors)
next
  case (Regular r)
  then show ?thesis using ok NewRotated_refused [of "- k" r] by (simp add: represents_constructors)
next
  case (Rotated r j)
  then show ?thesis using ok NewRotated_refused [of j r]
    by (auto simp: Rotated_RotateRight_def constructors_ok representsI [OF refl] rot_rot)
next
  case (PaddedCircularWindow w pad n off)
  then show ?thesis using ok represents_pcw_rotated [of w pad n off k] by (simp del: vals.simps sv_ok.simps)
qed

lemma SoftRotate_ok:
  assumes ok: "sv_ok v"
  shows "if soft_turns v k then represents (SoftRotate v k) (rot (vals v) (if is_window v then - k else k))
    else \<exists>m. SoftRotate v k = Panic m"
proof (cases v)
  case (Constant x n)
  then show ?thesis using ok by (simp add: rot_replicate representsI [OF refl])
next
  case (Regular r)
  then show ?thesis using ok NewRotated_refused [of k r] by (simp add: represents_constructors)
next
  case (Rotated r j)
  have "\<bar>(k + j) mod len r\<bar> \<le> len r" using ok Rotated by (simp add: abs_of_nonneg less_imp_le)
  then have "represents (NewRotated r ((k + j) mod len r)) (rot r ((k + j) mod len r))"
    using ok Rotated by (intro represents_constructors) auto
  then show ?thesis using ok Rotated by (simp add: PositiveMod_mod rot_mod rot_rot add.commute)
next
  case (PaddedCircularWindow w pad n off)
  moreover have "NewPaddedCircularWindow w pad (PositiveMod (off + k) n) n = NewPaddedCircularWindow w pad (off + k) n"
    using ok PaddedCircularWindow by (auto simp: NewPaddedCircularWindow_def PositiveMod_mod)
  ultimately show ?thesis using ok represents_pcw_rotated [of w pad n off k] by (simp del: vals.simps sv_ok.simps)
qed

section \<open>Properties\<close>

text \<open>
  C19: On a well-formed smart-vector of any representation, SubVector returns a smart-vector that
  represents the slice [start, stop) of the represented vector when this is a non-empty range of its
  positions. Every other range is a panic, with two exceptions: a constant vector accepts a negative
  start and returns a constant vector of length stop - start, and a regular vector accepts a stop
  beyond its length, up to the capacity of its slice, and returns the elements of the backing array
  (\<open>spare\<close>) that follow the vector.
\<close>

theorem sub_vector_outcomes:
  assumes "sv_ok v"
  shows "if 0 \<le> start \<and> start < stop \<and> stop \<le> Len v then represents (SubVector spare v start stop) (sub (vals v) start stop)
    else if is_constant v \<and> start < stop \<and> stop \<le> Len v
      then represents (SubVector spare v start stop) (replicate (nat (stop - start)) (vals v ! 0))
    else if is_regular v \<and> 0 \<le> start \<and> start < stop \<and> stop \<le> Len v + len spare
      then represents (SubVector spare v start stop) (sub (vals v @ spare) start stop)
    else (\<exists>m. SubVector spare v start stop = Panic m)"
proof (cases "0 \<le> start \<and> start < stop \<and> stop \<le> Len v")
  case True
  then show ?thesis using SubVector_ok [OF assms] by simp
next
  case False
  show ?thesis
  proof (cases "is_regular v \<and> 0 \<le> start \<and> start < stop \<and> stop \<le> Len v + len spare")
    case True
    then have "\<not> is_constant v" by (cases v) auto
    then show ?thesis unfolding if_not_P [OF False] if_P [OF True] using True SubVector_beyond [of v start stop spare] by simp
  next
    case no: False
    show ?thesis unfolding if_not_P [OF False] if_not_P [OF no] by (rule SubVector_refused [OF assms False no])
  qed
qed

theorem sub_vector_outcomes_witness:
  "represents (SubVector [] (PaddedCircularWindow [1::int, 2, 3] 0 8 6) 5 8) (sub (vals (PaddedCircularWindow [1::int, 2, 3] 0 8 6)) 5 8)
   \<and> represents (SubVector [] (Constant (7::int) 4) (- 1) 2) [7, 7, 7]
   \<and> represents (SubVector [3, 4] (Regular [1::int, 2]) 1 3) [2, 3]
   \<and> (\<exists>m. SubVector [3, 4] (Regular [1::int, 2]) 1 5 = Panic m)"
proof -
  have ok: "sv_ok (PaddedCircularWindow [1::int, 2, 3] 0 8 6)" "sv_ok (Constant (7::int) 4)" "sv_ok (Regular [1::int, 2])" by simp_all
  have s: "sub ([1::int, 2] @ [3, 4]) 1 3 = [2, 3]" by (simp add: sub_def eval_nat_numeral)
  show ?thesis
    using sub_vector_outcomes [OF ok(1), of 5 8 "[]"] sub_vector_outcomes [OF ok(2), of "- 1" 2 "[]"]
      sub_vector_outcomes [OF ok(3), of 1 3 "[3, 4]"] sub_vector_outcomes [OF ok(3), of 1 5 "[3, 4]"] s
    by (simp add: eval_nat_numeral del: vals.simps(4) SubVector.simps)
qed

text \<open>
  C31: The ways to read a well-formed smart-vector agree with the vector it represents: Get and
  GetPtr return the entry of every position, WriteInSlice fills a slice of the right length with
  the vector and panics on every other length, and the conversions into a plain vector return it.
\<close>

theorem vector_access:
  assumes "sv_ok v"
  shows "len (vals v) = Len v \<and> 0 < Len v
    \<and> (\<forall>i. 0 \<le> i \<and> i < Len v \<longrightarrow> Get v i = Ret (vals v ! nat i) \<and> GetPtr v i = Ret (vals v ! nat i))
    \<and> (\<forall>s. if len s = Len v then WriteInSlice v s = Ret (vals v) else (\<exists>m. WriteInSlice v s = Panic m))
    \<and> IntoRegVec v = Ret (vals v) \<and> IntoRegVecSaveAlloc v = Ret (vals v)"
  using assms len_vals Len_pos Get_vals GetPtr_vals WriteInSlice_ok WriteInSlice_wrong_length IntoRegVec_ok IntoRegVecSaveAlloc_ok
  by auto

theorem vector_access_witness:
  "Get (PaddedCircularWindow [1::int, 2, 3] 0 8 6) 7 = Ret (vals (PaddedCircularWindow [1::int, 2, 3] 0 8 6) ! 7)
   \<and> IntoRegVec (PaddedCircularWindow [1::int, 2, 3] 0 8 6) = Ret (vals (PaddedCircularWindow [1::int, 2, 3] 0 8 6))"
proof -
  have ok: "sv_ok (PaddedCircularWindow [1::int, 2, 3] 0 8 6)" by simp
  show ?thesis using vector_access [OF ok] by (simp del: vals.simps sv_ok.simps)
qed



end
