(* ===== verification/Smart_Compact.thy ===== *)
theory Smart_Compact
  imports Smart_Vectors
begin

text \<open>
  Padding and compaction of smart-vectors (\<^verbatim>\<open>prover/maths/common/smartvectors/smartvectors.go\<close>):
  the padded constructors, the windows, the attempts to shrink a regular vector, and the compact
  forms \<^verbatim>\<open>FromCompactWithShape\<close> and \<^verbatim>\<open>FromCompactWithRange\<close> with the ranges of
  \<^verbatim>\<open>CoWindowRange\<close> and \<^verbatim>\<open>CoCompactRange\<close>. Shrinking never changes the vector, and
  rebuilding a vector from its compact form gives the vector back.
\<close>

section \<open>Padding\<close>

definition LeftPadded :: "'e list \<Rightarrow> 'e \<Rightarrow> int \<Rightarrow> 'e SmartVector go" where
  "LeftPadded v padding targetLen =
    (if len v > targetLen then Panic ''unpadded vector must be smaller than the target length''
     else if len v = targetLen then NewRegular v
     else if len v = 0 then NewConstant padding targetLen
     else NewPaddedCircularWindow v padding (targetLen - len v) targetLen)"

definition RightPadded :: "'e list \<Rightarrow> 'e \<Rightarrow> int \<Rightarrow> 'e SmartVector go" where
  "RightPadded v padding targetLen =
    (if len v > targetLen then Panic ''unpadded vector must be smaller than the target length''
     else if len v = targetLen then NewRegular v
     else if len v = 0 then NewConstant padding targetLen
     else NewPaddedCircularWindow v padding 0 targetLen)"

definition RightZeroPadded :: "'e::zero list \<Rightarrow> int \<Rightarrow> 'e SmartVector go" where
  "RightZeroPadded v targetLen = RightPadded v 0 targetLen"

primrec WindowBase :: "'e::zero SmartVector \<Rightarrow> 'e list go" where
  "WindowBase (Constant val n) = Ret []"
| "WindowBase (Regular r) = Ret r"
| "WindowBase (Rotated r offset) = IntoRegVecSaveAllocBase (Rotated r offset)"
| "WindowBase (PaddedCircularWindow w pad totLen offset) = Ret w"

definition Window :: "'e::zero SmartVector \<Rightarrow> 'e list go" where
  "Window v = must (WindowBase v)"

primrec PaddingVal :: "'e::zero SmartVector \<Rightarrow> 'e \<times> bool" where
  "PaddingVal (Constant val n) = (val, True)"
| "PaddingVal (Regular r) = (0, False)"
| "PaddingVal (Rotated r offset) = (0, False)"
| "PaddingVal (PaddedCircularWindow w pad totLen offset) = (pad, True)"

section \<open>Shrinking a regular vector\<close>

text \<open>The result of an attempt: \<open>Some\<close> the smaller vector, or \<open>None\<close> where the source returns \<^verbatim>\<open>nil, false\<close>.\<close>

definition tryIntoConstant :: "'e list \<Rightarrow> 'e SmartVector option go" where
  "tryIntoConstant w =
    (if len w \<le> 1 then Ret None
     else if w ! 0 \<noteq> w ! 1 then Ret None
     else if w ! 0 \<noteq> w ! (length w - 1) then Ret None
     else if w ! 0 \<noteq> w ! (length w div 2) then Ret None
     else if \<exists>x\<in>set w. x \<noteq> w ! 0 then Ret None
     else go_bind (NewConstant (w ! 0) (len w)) (\<lambda>c. Ret (Some c)))"

text \<open>The loop of \<^verbatim>\<open>tryIntoRightPadded\<close>, for \<open>i\<close> going down from \<^verbatim>\<open>len(v)-2\<close>: the next index is \<open>i\<close>.\<close>

fun right_scan :: "'e list \<Rightarrow> 'e \<Rightarrow> int \<Rightarrow> nat \<Rightarrow> int" where
  "right_scan v lst bestPos 0 = bestPos"
| "right_scan v lst bestPos (Suc i) = (if v ! i \<noteq> lst then int i + 1 else right_scan v lst bestPos i)"

text \<open>The type assertion \<^verbatim>\<open>.(*PaddedCircularWindow)\<close>.\<close>

definition as_window :: "'e SmartVector \<Rightarrow> 'e SmartVector go" where
  "as_window v = (if is_window v then Ret v else Panic ''interface conversion'')"

definition tryIntoRightPadded :: "'e list \<Rightarrow> 'e SmartVector option go" where
  "tryIntoRightPadded v =
    (if v = [] then Panic ''index out of range'' else
     let lst = v ! (length v - 1); bestPos = right_scan v lst (len v - 1) (length v - 1) in
     if len v - bestPos < 1000 then Ret None
     else go_bind (go_slice v 0 bestPos) (\<lambda>part.
       go_bind (RightPadded part lst (len v)) (\<lambda>p. go_bind (as_window p) (\<lambda>q. Ret (Some q)))))"

text \<open>The loop of \<^verbatim>\<open>tryIntoLeftPadded\<close>, with the elements from index \<open>i\<close> on.\<close>

fun left_scan :: "'e \<Rightarrow> int \<Rightarrow> int \<Rightarrow> 'e list \<Rightarrow> int" where
  "left_scan first bestPos i [] = bestPos"
| "left_scan first bestPos i (x # xs) = (if x \<noteq> first then bestPos else left_scan first i (i + 1) xs)"

definition tryIntoLeftPadded :: "'e list \<Rightarrow> 'e SmartVector option go" where
  "tryIntoLeftPadded v =
    (if v = [] then Panic ''index out of range'' else
     let first = v ! 0; bestPos = left_scan first 0 1 (drop 1 v) in
     if bestPos = 0 then Ret None
     else if bestPos = len v - 1 then Panic ''passed a constant vector to tryIntoLeftPadded''
     else go_bind (go_slice v (bestPos + 1) (len v)) (\<lambda>part.
       go_bind (LeftPadded part first (len v)) (\<lambda>p. go_bind (as_window p) (\<lambda>q. Ret (Some q)))))"

primrec window_of :: "'e SmartVector \<Rightarrow> 'e list" where
  "window_of (Constant x n) = []"
| "window_of (Regular r) = []"
| "window_of (Rotated r k) = []"
| "window_of (PaddedCircularWindow w pad n off) = w"

primrec TryReduceSizeRight :: "'e SmartVector \<Rightarrow> ('e SmartVector \<times> int) go" where
  "TryReduceSizeRight (Constant x n) = Ret (Constant x n, 0)"
| "TryReduceSizeRight (Rotated r k) = Ret (Rotated r k, 0)"
| "TryReduceSizeRight (PaddedCircularWindow w pad n off) = Ret (PaddedCircularWindow w pad n off, 0)"
| "TryReduceSizeRight (Regular w) =
    go_bind (tryIntoConstant w) (\<lambda>c. case c of Some res \<Rightarrow> Ret (res, len w) | None \<Rightarrow>
    go_bind (tryIntoRightPadded w) (\<lambda>p. case p of Some res \<Rightarrow> Ret (res, len w - len (window_of res)) | None \<Rightarrow>
    Ret (Regular w, 0)))"

primrec TryReduceSizeLeft :: "'e SmartVector \<Rightarrow> ('e SmartVector \<times> int) go" where
  "TryReduceSizeLeft (Constant x n) = Ret (Constant x n, 0)"
| "TryReduceSizeLeft (Rotated r k) = Ret (Rotated r k, 0)"
| "TryReduceSizeLeft (PaddedCircularWindow w pad n off) = Ret (PaddedCircularWindow w pad n off, 0)"
| "TryReduceSizeLeft (Regular w) =
    go_bind (tryIntoConstant w) (\<lambda>c. case c of Some res \<Rightarrow> Ret (res, len w) | None \<Rightarrow>
    go_bind (tryIntoLeftPadded w) (\<lambda>p. case p of Some res \<Rightarrow> Ret (res, len w - len (window_of res)) | None \<Rightarrow>
    Ret (Regular w, 0)))"

section \<open>Compact forms\<close>

primrec FromCompactWithShape :: "'e SmartVector \<Rightarrow> 'e list \<Rightarrow> 'e SmartVector go" where
  "FromCompactWithShape (Constant x n) compact = go_bind (go_nth compact 0) (\<lambda>c. NewConstant c n)"
| "FromCompactWithShape (PaddedCircularWindow w pad totLen offset) compact =
    (if offset = 0 then
       if len w \<noteq> len compact - 1 then Panic ''unexpected shape for padded circular window''
       else go_bind (go_nth compact (len compact - 1)) (\<lambda>lst.
         go_bind (go_slice compact 0 (len compact - 1)) (\<lambda>win. RightPadded win lst totLen))
     else if offset + len w = totLen then
       if len w \<noteq> len compact - 1 then Panic ''unexpected shape for padded circular window''
       else go_bind (go_nth compact 0) (\<lambda>first.
         go_bind (go_slice compact 1 (len compact)) (\<lambda>win. LeftPadded win first totLen))
     else Panic ''unexpected shape for padded circular window'')"
| "FromCompactWithShape (Regular r) compact =
    (if len r \<noteq> len compact then Panic ''unexpected shape for regular vector'' else NewRegular compact)"
| "FromCompactWithShape (Rotated r k) compact = Panic ''unexpected type''"

text \<open>\<^verbatim>\<open>CoWindowRange\<close> skips \<^verbatim>\<open>nil\<close> entries, which are \<open>None\<close> here.\<close>

fun co_window_loop :: "bool \<Rightarrow> int \<times> int \<Rightarrow> 'e SmartVector option list \<Rightarrow> int \<times> int" where
  "co_window_loop foundAny rng [] = rng"
| "co_window_loop foundAny rng (None # svs) = co_window_loop foundAny rng svs"
| "co_window_loop foundAny rng (Some s # svs) =
    (case s of
       Constant x n \<Rightarrow> co_window_loop foundAny rng svs
     | PaddedCircularWindow w pad n off \<Rightarrow>
       (if off + len w > n then (0, n)
        else if \<not> foundAny then co_window_loop True (off, off + len w) svs
        else co_window_loop foundAny (min (fst rng) off, max (snd rng) (off + len w)) svs)
     | Regular r \<Rightarrow> (0, len r)
     | Rotated r k \<Rightarrow> (0, len r))"

definition CoWindowRange :: "'e SmartVector option list \<Rightarrow> int \<times> int" where
  "CoWindowRange svs = co_window_loop False (0, 0) svs"

definition CoCompactRange :: "'e SmartVector option list \<Rightarrow> (int \<times> int) go" where
  "CoCompactRange svs =
    (let (start, stop) = CoWindowRange svs;
         start' = (if start > 0 then start - 1 else start) in
     case svs of
       [] \<Rightarrow> Panic ''index out of range''
     | None # _ \<Rightarrow> Panic ''nil pointer dereference''
     | Some s # _ \<Rightarrow> Ret (start', if stop < Len s then stop + 1 else stop))"

definition FromCompactWithRange :: "'e list \<Rightarrow> int \<Rightarrow> int \<Rightarrow> int \<Rightarrow> 'e SmartVector go" where
  "FromCompactWithRange compact start stop fullLen =
    (if stop - start > len compact + 2 then Panic ''inconsistent compact range, stop-start != len(compact)''
     else if stop - start > fullLen then Panic ''inconsistent compact range, stop-start > fullLen''
     else if stop - start = 1 then go_bind (go_nth compact 0) (\<lambda>c. NewConstant c fullLen)
     else if start = 0 \<and> stop = fullLen then NewRegular compact
     else if start = 0 then
       go_bind (go_slice compact 0 (len compact - 1)) (\<lambda>win.
       go_bind (go_nth compact (len compact - 1)) (\<lambda>lst. RightPadded win lst fullLen))
     else if stop = fullLen then
       go_bind (go_slice compact 1 (len compact)) (\<lambda>win.
       go_bind (go_nth compact 0) (\<lambda>first. LeftPadded win first fullLen))
     else go_bind (go_nth compact 0) (\<lambda>first. go_bind (go_nth compact (len compact - 1)) (\<lambda>lst.
       if first \<noteq> lst then Panic ''inconsistent compact range''
       else go_bind (go_slice compact 1 (len compact - 1)) (\<lambda>win.
         NewPaddedCircularWindow win first (start + 1) fullLen))))"

section \<open>The represented vectors\<close>

lemma vals_pcw_split:
  assumes "0 \<le> off" and "off < n" and "off + len w \<le> n"
  shows "vals (PaddedCircularWindow w pad n off) = replicate (nat off) pad @ w @ replicate (nat (n - off - len w)) pad"
proof (rule list_eq_int [of _ n])
  fix k assume k: "0 \<le> k" "k < n"
  have "vals (PaddedCircularWindow w pad n off) ! nat k = win_at w pad n off k"
    using assms k by (intro vals_pcw_nth)
  also have "\<dots> = (replicate (nat off) pad @ w @ replicate (nat (n - off - len w)) pad) ! nat k"
    using assms k by (auto simp: win_at_def nth_append_int)
  finally show "vals (PaddedCircularWindow w pad n off) ! nat k = (replicate (nat off) pad @ w @ replicate (nat (n - off - len w)) pad) ! nat k" .
qed (use assms in \<open>simp_all add: len_def\<close>)

lemma represents_pcw_split:
  assumes "w \<noteq> []" and "len w < n" and "0 \<le> off" and "off < n" and "off + len w \<le> n"
  shows "represents (NewPaddedCircularWindow w pad off n) (replicate (nat off) pad @ w @ replicate (nat (n - off - len w)) pad)"
  using represents_constructors(4) [of w n pad off] vals_pcw_split [of off n w pad] assms by simp

lemma LeftPadded_ok:
  assumes "len v \<le> n" and "0 < n"
  shows "represents (LeftPadded v pad n) (replicate (nat (n - len v)) pad @ v)"
proof -
  consider "len v = n" | "v = []" | "v \<noteq> []" "len v < n" using assms by fastforce
  then show ?thesis
  proof cases
    case 1
    then have "v \<noteq> []" using assms by auto
    then show ?thesis using 1 by (simp add: LeftPadded_def constructors_ok represents_constructors)
  next
    case 3
    then show ?thesis using represents_pcw_split [of v n "n - len v" pad] assms by (simp add: LeftPadded_def)
  qed (use assms in \<open>simp add: LeftPadded_def represents_constructors\<close>)
qed

lemma RightPadded_ok:
  assumes "len v \<le> n" and "0 < n"
  shows "represents (RightPadded v pad n) (v @ replicate (nat (n - len v)) pad)"
proof -
  consider "len v = n" | "v = []" | "v \<noteq> []" "len v < n" using assms by fastforce
  then show ?thesis
  proof cases
    case 1
    then have "v \<noteq> []" using assms by auto
    then show ?thesis using 1 by (simp add: RightPadded_def constructors_ok represents_constructors)
  next
    case 3
    then show ?thesis using represents_pcw_split [of v n 0 pad] assms by (simp add: RightPadded_def)
  qed (use assms in \<open>simp add: RightPadded_def represents_constructors\<close>)
qed

section \<open>Shrinking keeps the vector\<close>

lemma tryIntoConstant_ok:
  "tryIntoConstant w =
    (if 1 < len w \<and> w = replicate (length w) (w ! 0) then Ret (Some (Constant (w ! 0) (len w))) else Ret None)"
proof (cases "1 < len w \<and> w = replicate (length w) (w ! 0)")
  case True
  then have l: "1 < length w" and rep: "w = replicate (length w) (w ! 0)" by (auto simp: len_def)
  have at: "w ! i = w ! 0" if "i < length w" for i using that rep by (metis nth_replicate)
  have all: "\<not> (\<exists>x\<in>set w. x \<noteq> w ! 0)" using at by (metis in_set_conv_nth)
  have e: "w ! 1 = w ! 0" "w ! (length w - 1) = w ! 0" "w ! (length w div 2) = w ! 0" using l by (auto intro!: at)
  have n1: "\<not> len w \<le> 1" using True by simp
  have "tryIntoConstant w = go_bind (NewConstant (w ! 0) (len w)) (\<lambda>c. Ret (Some c))"
    by (simp only: tryIntoConstant_def n1 all e simp_thms if_False)
  then show ?thesis using True by (auto simp: constructors_ok)
next
  case False
  have "\<exists>x\<in>set w. x \<noteq> w ! 0" if "1 < len w"
    using False that replicate_length_same [of w "w ! 0"] by metis
  then have "tryIntoConstant w = Ret None" unfolding tryIntoConstant_def by (meson not_le)
  then show ?thesis using False by argo
qed

lemma right_scan_spec:
  assumes "i < length v" and "\<forall>j. i \<le> j \<and> j < length v \<longrightarrow> v ! j = lst" and "bestPos = len v - 1"
  shows "right_scan v lst bestPos i = bestPos \<or>
    (\<exists>p. right_scan v lst bestPos i = int p \<and> 0 < p \<and> p \<le> i \<and> (\<forall>j. p \<le> j \<and> j < length v \<longrightarrow> v ! j = lst))"
  using assms(1,2)
proof (induction i)
  case (Suc i)
  show ?case
  proof (cases "v ! i = lst")
    case True
    have "\<forall>j. i \<le> j \<and> j < length v \<longrightarrow> v ! j = lst"

    proof (intro allI impI)
      fix j assume "i \<le> j \<and> j < length v"
      then show "v ! j = lst" using Suc.prems(2) True by (cases "j = i") (simp_all add: Suc_le_eq)
    qed
    then have "right_scan v lst bestPos i = bestPos \<or>
      (\<exists>p. right_scan v lst bestPos i = int p \<and> 0 < p \<and> p \<le> i \<and> (\<forall>j. p \<le> j \<and> j < length v \<longrightarrow> v ! j = lst))"
      using Suc.IH Suc.prems by simp
    then show ?thesis using True le_SucI by (simp, blast)
  next
    case False
    then have "right_scan v lst bestPos (Suc i) = int (Suc i)" by simp
    then show ?thesis using Suc.prems by blast
  qed
qed simp

lemma take_replicate_split:
  assumes "p \<le> length v" and "\<forall>j. p \<le> j \<and> j < length v \<longrightarrow> v ! j = x"
  shows "v = take p v @ replicate (length v - p) x"
  by (rule nth_equalityI) (use assms in \<open>auto simp: nth_append\<close>)

lemma tryIntoRightPadded_ok:
  assumes "v \<noteq> []"
  shows "tryIntoRightPadded v = Ret None \<or> (\<exists>q. tryIntoRightPadded v = Ret (Some q) \<and> sv_ok q \<and> vals q = v)"
proof -
  define x b where "x = v ! (length v - 1)" and "b = right_scan v x (len v - 1) (length v - 1)"
  have form: "tryIntoRightPadded v = (if len v - b < 1000 then Ret None
      else go_bind (go_slice v 0 b) (\<lambda>part. go_bind (RightPadded part x (len v)) (\<lambda>p.
        go_bind (as_window p) (\<lambda>q. Ret (Some q)))))"
    using assms by (simp add: tryIntoRightPadded_def Let_def b_def x_def)
  show ?thesis
  proof (cases "len v - b < 1000")
    case False
    have "\<forall>j. length v - 1 \<le> j \<and> j < length v \<longrightarrow> v ! j = x"
    proof (intro allI impI)
      fix j assume "length v - 1 \<le> j \<and> j < length v"
      then have "j = length v - 1" by linarith
      then show "v ! j = x" by (simp add: x_def)
    qed
    then obtain p where p: "b = int p" "0 < p" "p \<le> length v - 1" "\<forall>j. p \<le> j \<and> j < length v \<longrightarrow> v ! j = x"
      using right_scan_spec [of "length v - 1" v x "len v - 1"] assms False unfolding b_def by fastforce
    have sp: "take p v @ replicate (length v - p) x = v" using p by (intro take_replicate_split [symmetric]) auto
    have part: "go_slice v 0 b = Ret (take p v)" using p by (simp add: go_slice_def sub_def len_def)
    have ne: "take p v \<noteq> []" and lt: "len (take p v) < len v" using p assms by (auto simp: len_def)
    have n0: "nat (len v - len (take p v)) = length v - p" using p by (simp add: len_def)
    let ?q = "PaddedCircularWindow (take p v) x (len v) 0"
    have "RightPadded (take p v) x (len v) = Ret ?q" using ne lt by (simp add: RightPadded_def constructors_ok)
    then have "tryIntoRightPadded v = Ret (Some ?q)"
      unfolding form part using False by (simp add: as_window_def)
    moreover have "vals ?q = v"
      using vals_pcw_split [of 0 "len v" "take p v" x] lt assms n0 sp by (simp del: vals.simps)
    moreover have "sv_ok ?q" using ne lt assms by simp
    ultimately show ?thesis by blast
  qed (simp add: form)
qed

lemma left_scan_spec:
  "left_scan x (i - 1) i xs = i - 1 + len (takeWhile (\<lambda>y. y = x) xs)"
  by (induction xs arbitrary: i) (auto, metis add.commute add_diff_cancel_left' add.assoc diff_add_eq)

lemma takeWhile_same: "takeWhile (\<lambda>y. y = x) xs = replicate (length (takeWhile (\<lambda>y. y = x) xs)) x"
  by (induction xs) auto

lemma tryIntoLeftPadded_ok:
  assumes "v \<noteq> []" and nc: "\<not> (1 < len v \<and> v = replicate (length v) (v ! 0))"
  shows "tryIntoLeftPadded v = Ret None \<or> (\<exists>q. tryIntoLeftPadded v = Ret (Some q) \<and> sv_ok q \<and> vals q = v)"
proof -
  obtain x xs where v: "v = x # xs" using assms by (cases v) auto
  define ys b where "ys = takeWhile (\<lambda>y. y = x) xs" and "b = len ys"
  define zs where "zs = drop (length ys) xs"
  have scan: "left_scan x 0 1 xs = b" using left_scan_spec [of x 1 xs] by (simp add: b_def ys_def)
  have xs: "xs = replicate (length ys) x @ zs"
    using takeWhile_same [of x xs] takeWhile_dropWhile_id [of "\<lambda>y. y = x" xs] dropWhile_eq_drop [of "\<lambda>y. y = x" xs]
    unfolding ys_def zs_def by metis
  have form: "tryIntoLeftPadded v = (if b = 0 then Ret None
      else if b = len v - 1 then Panic ''passed a constant vector to tryIntoLeftPadded''
      else go_bind (go_slice v (b + 1) (len v)) (\<lambda>part. go_bind (LeftPadded part x (len v)) (\<lambda>p.
        go_bind (as_window p) (\<lambda>q. Ret (Some q)))))"
    using scan by (simp add: tryIntoLeftPadded_def v Let_def)
  show ?thesis
  proof (cases "b = 0")
    case False
    have zs: "zs \<noteq> []"
    proof
      assume "zs = []"
      then have "v = replicate (length v) (v ! 0)" using xs unfolding v
        by (metis append_Nil2 length_Cons length_replicate nth_Cons_0 replicate_Suc)
      moreover have "1 < len v" using False xs by (simp add: v b_def add_pos_nonneg)
      ultimately show False using nc by blast
    qed
    have lv: "len v = 1 + b + len zs" using xs by (metis v len_simps(4,6,7) b_def len_def add.commute add.assoc)
    have part: "go_slice v (b + 1) (len v) = Ret zs"
    proof -
      have "drop (length ys) xs = zs" by (simp add: zs_def)
      then show ?thesis using lv zs by (simp add: go_slice_def sub_def v b_def len_def nat_add_distrib)
    qed
    let ?q = "PaddedCircularWindow zs x (len v) (b + 1)"
    have ok: "sv_ok ?q" using lv zs len_simps(1) [of ys] by (simp add: b_def)
    have "LeftPadded zs x (len v) = Ret ?q" using ok lv zs by (simp add: LeftPadded_def constructors_ok)
    then have "tryIntoLeftPadded v = Ret (Some ?q)"
      unfolding form part using False lv zs by (simp add: as_window_def)
    moreover have "vals ?q = replicate (nat (b + 1)) x @ zs @ replicate (nat (len v - (b + 1) - len zs)) x"
      using lv zs by (intro vals_pcw_split) (auto simp: b_def)
    then have "vals ?q = v" using lv xs by (simp add: v b_def len_def nat_add_distrib del: vals.simps)
    ultimately show ?thesis using ok by blast
  qed (simp add: form)
qed

text \<open>Shrinking returns a vector with the same values.\<close>

lemma TryReduceSize_ok:
  assumes "sv_ok v"
  shows "\<exists>u k. TryReduceSizeRight v = Ret (u, k) \<and> sv_ok u \<and> vals u = vals v"
    and "\<exists>u k. TryReduceSizeLeft v = Ret (u, k) \<and> sv_ok u \<and> vals u = vals v"
proof -
  have const: "sv_ok (Constant (r ! 0) (len r)) \<and> vals (Constant (r ! 0) (len r)) = r"
    if "1 < len r" "r = replicate (length r) (r ! 0)" for r :: "'a list"
    using that by (auto simp: len_def)
  show "\<exists>u k. TryReduceSizeRight v = Ret (u, k) \<and> sv_ok u \<and> vals u = vals v"
  proof (cases v)
    case (Regular r)
    then show ?thesis using assms tryIntoRightPadded_ok [of r] const [of r]
      by (cases "1 < len r \<and> r = replicate (length r) (r ! 0)") (auto simp: tryIntoConstant_ok)
  qed (use assms in auto)
  show "\<exists>u k. TryReduceSizeLeft v = Ret (u, k) \<and> sv_ok u \<and> vals u = vals v"
  proof (cases v)
    case (Regular r)
    then show ?thesis using assms tryIntoLeftPadded_ok [of r] const [of r]
      by (cases "1 < len r \<and> r = replicate (length r) (r ! 0)") (auto simp: tryIntoConstant_ok)
  qed (use assms in auto)
qed

section \<open>Compact forms\<close>

text \<open>A shape that \<^verbatim>\<open>FromCompactWithShape\<close> accepts: no rotation, and a window touches one end.\<close>

primrec compact_shape :: "'e SmartVector \<Rightarrow> bool" where
  "compact_shape (Constant x n) = True"
| "compact_shape (Regular r) = True"
| "compact_shape (Rotated r k) = False"
| "compact_shape (PaddedCircularWindow w pad n off) = (off = 0 \<or> off + len w = n)"

lemma compact_shape_round_trip:
  assumes "sv_ok v" and "compact_shape v"
  shows "\<exists>c. IterateCompact v = Ret c \<and> FromCompactWithShape v c = Ret v"
proof (cases v)
  case (Constant x n)
  then show ?thesis using assms by (simp add: go_nth_def constructors_ok)
next
  case (Regular r)
  then show ?thesis using assms by (simp add: constructors_ok)
next
  case (PaddedCircularWindow w pad n off)
  have ok: "w \<noteq> []" "len w < n" "0 \<le> off" "off < n" and sh: "off = 0 \<or> off + len w = n"
    using assms PaddedCircularWindow by auto
  show ?thesis
  proof (cases "off = 0")
    case True
    have "go_slice (w @ [pad]) 0 (len w) = Ret w" "go_nth (w @ [pad]) (len w) = Ret pad"
      by (simp_all add: go_slice_def sub_def go_nth_def)
    then show ?thesis using True ok PaddedCircularWindow
      by (simp add: PaddedCircularWindow_IterateCompact_def RightPadded_def constructors_ok)
  next
    case False
    have "go_slice (pad # w) 1 (len w + 1) = Ret w" "go_nth (pad # w) 0 = Ret pad"
      by (simp_all add: go_slice_def sub_def go_nth_def)
    moreover have "n - len w = off" using False sh by simp
    then have "LeftPadded w pad n = Ret (PaddedCircularWindow w pad n off)"
      using ok constructors_ok(4) [of w n pad off] by (simp add: LeftPadded_def)
    ultimately show ?thesis using False sh ok PaddedCircularWindow
      by (simp add: PaddedCircularWindow_IterateCompact_def)
  qed
qed (use assms in simp)

text \<open>
  A range contains the window of a vector when the vector has one and the same value, its
  padding, at every position outside the range.
\<close>

definition in_range :: "int \<Rightarrow> int \<times> int \<Rightarrow> 'e list \<Rightarrow> bool" where
  "in_range n rng xs \<longleftrightarrow> (\<exists>pad. \<forall>i. 0 \<le> i \<and> i < n \<and> \<not> (fst rng \<le> i \<and> i < snd rng) \<longrightarrow> xs ! nat i = pad)"

lemma in_range_mono:
  assumes "in_range n (a, b) xs" and "a' \<le> a" and "b \<le> b'"
  shows "in_range n (a', b') xs"
proof -
  obtain pad where "\<And>i. 0 \<le> i \<Longrightarrow> i < n \<Longrightarrow> \<not> (a \<le> i \<and> i < b) \<Longrightarrow> xs ! nat i = pad"
    using assms(1) by (auto simp: in_range_def)
  then show ?thesis using assms(2,3) unfolding in_range_def by (intro exI [of _ pad]) auto
qed

lemma in_range_window:
  assumes "sv_ok (PaddedCircularWindow w pad n off)" and "off + len w \<le> n"
  shows "in_range n (off, off + len w) (vals (PaddedCircularWindow w pad n off))"
proof -
  have "vals (PaddedCircularWindow w pad n off) ! nat i = pad"
    if "0 \<le> i" "i < n" "\<not> (off \<le> i \<and> i < off + len w)" for i
    using vals_pcw_nth [of off n i w pad] that assms by (auto simp: win_at_def simp del: vals.simps)
  then show ?thesis unfolding in_range_def by (intro exI [of _ pad]) auto
qed

lemma in_range_full: "in_range n (0, n) xs"
  by (auto simp: in_range_def)

text \<open>The range of the loop: either nothing was found yet, or it is a non-empty part of the circle.\<close>

definition range_ok :: "int \<Rightarrow> bool \<Rightarrow> int \<times> int \<Rightarrow> bool" where
  "range_ok n found rng \<longleftrightarrow> (if found then 0 \<le> fst rng \<and> fst rng < snd rng \<and> snd rng \<le> n else rng = (0, 0))"

definition range_le :: "int \<times> int \<Rightarrow> int \<times> int \<Rightarrow> bool" where
  "range_le r s \<longleftrightarrow> fst s \<le> fst r \<and> snd r \<le> snd s"

lemma in_range_le: "in_range n r xs \<Longrightarrow> range_le r s \<Longrightarrow> in_range n s xs"
  using in_range_mono [of n "fst r" "snd r" xs "fst s" "snd s"] by (simp add: range_le_def)

lemma in_range_constant: "in_range n rng (replicate (nat n) x)"
  by (auto simp: in_range_def intro!: exI [of _ x])

lemma co_window_loop_ok:
  assumes "range_ok n found rng" and "0 < n" and "\<forall>v. Some v \<in> set svs \<longrightarrow> sv_ok v \<and> Len v = n"
  shows "\<exists>f r. co_window_loop found rng svs = r \<and> range_ok n f r \<and> (found \<longrightarrow> f \<and> range_le rng r)
    \<and> (\<forall>v. Some v \<in> set svs \<longrightarrow> in_range n r (vals v))"
  using assms(1,3)
proof (induction found rng svs rule: co_window_loop.induct)
  case (1 found rng)
  then show ?case by (auto simp: range_le_def)
next
  case (2 found rng svs)
  then show ?case by auto
next
  case (3 found rng s svs)
  have full: "range_ok n True (0, n)" "\<And>v. in_range n (0, n) (vals v)" "found \<Longrightarrow> range_le rng (0, n)"
    using 3(4) assms(2) by (auto simp: in_range_full range_ok_def range_le_def)
  have ok: "sv_ok s" "Len s = n" and tl: "\<forall>v. Some v \<in> set svs \<longrightarrow> sv_ok v \<and> Len v = n" using 3(5) by auto
  show ?case
  proof (cases s)
    case (Constant x m)
    then show ?thesis using 3(1) [OF Constant 3(4) tl] ok in_range_constant [of n _ x] by auto
  next
    case (PaddedCircularWindow w pad m off)
    define r1 where "r1 = (if found then (min (fst rng) off, max (snd rng) (off + len w)) else (off, off + len w))"
    show ?thesis
    proof (cases "off + len w > m")
      case True
      then show ?thesis using PaddedCircularWindow ok full(1,3)
        by (intro exI [of _ True] exI [of _ "(0, n)"]) (auto simp: in_range_full)
    next
      case False
      have r1: "range_ok n True r1" "range_le (off, off + len w) r1" "found \<Longrightarrow> range_le rng r1"
        using 3(4) ok PaddedCircularWindow False by (auto simp: r1_def range_ok_def range_le_def split: if_splits)
      have "\<exists>f r. co_window_loop True r1 svs = r \<and> range_ok n f r \<and> range_le r1 r \<and> f
          \<and> (\<forall>v. Some v \<in> set svs \<longrightarrow> in_range n r (vals v))"
        using 3(2,3) PaddedCircularWindow False tl r1(1) unfolding r1_def by (cases found) auto
      then obtain f r where r: "co_window_loop True r1 svs = r" "range_ok n f r" "range_le r1 r" "f"
        "\<forall>v. Some v \<in> set svs \<longrightarrow> in_range n r (vals v)" by blast
      have "in_range n (off, off + len w) (vals s)"
        using ok PaddedCircularWindow False in_range_window [of w pad n off] by (simp del: vals.simps)
      then have "in_range n r (vals s)" using in_range_le r(3) r1(2) by blast
      moreover have "co_window_loop found rng (Some s # svs) = r"
        using r(1) PaddedCircularWindow False unfolding r1_def by (cases found) auto
      moreover have "found \<longrightarrow> range_le rng r" using r1(3) r(3) by (auto simp: range_le_def)
      ultimately show ?thesis using r by auto
    qed
  next
    case (Regular r)
    then show ?thesis using ok full(1,3) by (intro exI [of _ True] exI [of _ "(0, n)"]) (auto simp: in_range_full)
  next
    case (Rotated r k)
    then show ?thesis using ok full(1,3) by (intro exI [of _ True] exI [of _ "(0, n)"]) (auto simp: in_range_full)
  qed
qed

text \<open>
  The compact range of a list of vectors: taking it out of any of the vectors and rebuilding the
  vector from it gives the vector back.
\<close>

lemma sub_split:
  assumes "0 \<le> a" and "a \<le> b" and "b \<le> len xs"
  shows "xs = sub xs 0 a @ sub xs a b @ sub xs b (len xs)"
  by (rule list_eq_int [of _ "len xs"]) (use assms in \<open>auto simp: len_sub nth_append_int nth_sub_int\<close>)

lemma sub_replicate:
  assumes "0 \<le> a" and "a \<le> b" and "b \<le> len xs" and "\<And>i. a \<le> i \<Longrightarrow> i < b \<Longrightarrow> xs ! nat i = x"
  shows "sub xs a b = replicate (nat (b - a)) x"
  by (rule list_eq_int [of _ "b - a"]) (use assms in \<open>auto simp: len_sub nth_sub_int\<close>)

lemma go_nth_sub:
  assumes "0 \<le> a" and "a \<le> b" and "b \<le> len xs" and "0 \<le> k" and "k < b - a"
  shows "go_nth (sub xs a b) k = Ret (xs ! nat (a + k))"
  using assms by (simp add: go_nth_Ret nth_sub_int len_sub)

lemma go_slice_sub:
  assumes "0 \<le> a" and "a \<le> b" and "b \<le> len xs" and "0 \<le> k" and "k \<le> l" and "l \<le> b - a"
  shows "go_slice (sub xs a b) k l = Ret (sub xs (a + k) (a + l))"
  using assms by (auto simp: go_slice_Ret len_sub nth_sub_int add.assoc intro!: list_eq_int [of _ "l - k"])

text \<open>The three shapes with padding: on the right, on the left, and on both sides.\<close>

lemma from_range_right:
  assumes n: "len xs = n" and b: "1 < b" "b < n" and pad: "\<And>i. b - 1 \<le> i \<Longrightarrow> i < n \<Longrightarrow> xs ! nat i = pad"
  shows "represents (FromCompactWithRange (sub xs 0 b) 0 b n) xs"
proof -
  have "sub xs 0 (b - 1) @ replicate (nat (n - (b - 1))) pad = xs"
    using sub_replicate [of "b - 1" n xs pad] sub_split [of 0 "b - 1" xs] pad n b by (simp add: sub_def)
  moreover have "xs ! nat (b - 1) = pad" using pad b by simp
  moreover have "go_nth (sub xs 0 b) (b - 1) = Ret (xs ! nat (b - 1))" "go_slice (sub xs 0 b) 0 (b - 1) = Ret (sub xs 0 (b - 1))"
    using n b go_nth_sub [of 0 b xs "b - 1"] go_slice_sub [of 0 b xs 0 "b - 1"] by auto
  ultimately show ?thesis
    using n b RightPadded_ok [of "sub xs 0 (b - 1)" n pad] by (simp add: FromCompactWithRange_def len_sub)
qed

lemma from_range_left:
  assumes n: "len xs = n" and a: "0 < a" "a + 1 < n" and pad: "\<And>i. 0 \<le> i \<Longrightarrow> i \<le> a \<Longrightarrow> xs ! nat i = pad"
  shows "represents (FromCompactWithRange (sub xs a n) a n n) xs"
proof -
  have "replicate (nat (a + 1)) pad @ sub xs (a + 1) n = xs"
    using sub_replicate [of 0 "a + 1" xs pad] sub_split [of "a + 1" n xs] pad n a by (simp add: sub_def)
  moreover have "xs ! nat a = pad" using pad a by simp
  moreover have "go_nth (sub xs a n) 0 = Ret (xs ! nat a)" "go_slice (sub xs a n) 1 (n - a) = Ret (sub xs (a + 1) n)"
    using n a go_nth_sub [of a n xs 0] go_slice_sub [of a n xs 1 "n - a"] by auto
  ultimately show ?thesis
    using n a LeftPadded_ok [of "sub xs (a + 1) n" n pad] by (simp add: FromCompactWithRange_def len_sub)
qed

lemma from_range_middle:
  assumes n: "len xs = n" and ab: "0 < a" "a + 2 < b" "b < n"
    and pad: "\<And>i. 0 \<le> i \<Longrightarrow> i \<le> a \<Longrightarrow> xs ! nat i = pad" "\<And>i. b - 1 \<le> i \<Longrightarrow> i < n \<Longrightarrow> xs ! nat i = pad"
  shows "represents (FromCompactWithRange (sub xs a b) a b n) xs"
proof -
  let ?w = "sub xs (a + 1) (b - 1)"
  have eq: "replicate (nat (a + 1)) pad @ ?w @ replicate (nat (n - (b - 1))) pad = xs"
    using sub_replicate [of 0 "a + 1" xs pad] sub_replicate [of "b - 1" n xs pad] sub_split [of "a + 1" "b - 1" xs] pad n ab
    by simp
  have lw: "len ?w = b - 1 - (a + 1)" using n ab by (simp add: len_sub)
  then have "?w \<noteq> []" using ab(2) by force
  then have "represents (NewPaddedCircularWindow ?w pad (a + 1) n)
    (replicate (nat (a + 1)) pad @ ?w @ replicate (nat (n - (a + 1) - len ?w)) pad)"
    by (rule represents_pcw_split) (use lw ab in auto)
  moreover have "n - (a + 1) - len ?w = n - (b - 1)" using lw by simp
  ultimately have "represents (NewPaddedCircularWindow ?w pad (a + 1) n) xs" using eq by simp
  then show ?thesis
    using n ab pad go_nth_sub [of a b xs 0] go_nth_sub [of a b xs "b - a - 1"] go_slice_sub [of a b xs 1 "b - a - 1"]
    by (simp add: FromCompactWithRange_def len_sub)
qed

lemma FromCompactWithRange_ok:
  assumes xs: "len xs = n" "0 < n" and r: "range_ok n f (s, e)" and out: "in_range n (s, e) xs"
    and a: "a = (if s > 0 then s - 1 else s)" and b: "b = (if e < n then e + 1 else e)"
  shows "represents (FromCompactWithRange (sub xs a b) a b n) xs"
proof -
  obtain pad where pad: "\<And>i. 0 \<le> i \<Longrightarrow> i < n \<Longrightarrow> \<not> (s \<le> i \<and> i < e) \<Longrightarrow> xs ! nat i = pad"
    using out by (auto simp: in_range_def)
  have w: "0 \<le> a" "a < b" "b \<le> n" using r xs by (auto simp: range_ok_def a b split: if_splits)
  have lft: "xs ! nat i = pad" if "0 < a" "0 \<le> i" "i \<le> a" for i using pad [of i] that w by (auto simp: a split: if_splits)
  have rgt: "xs ! nat i = pad" if "b < n" "b - 1 \<le> i" "i < n" for i using pad [of i] that w by (auto simp: b split: if_splits)
  consider (one) "b - a = 1" | (all) "1 < b - a" "a = 0" "b = n" | (right) "1 < b - a" "a = 0" "b < n"
    | (left) "1 < b - a" "0 < a" "b = n" | (mid) "1 < b - a" "0 < a" "b < n" using w by linarith
  then show ?thesis
  proof cases
    case one
    have "xs ! nat i = xs ! nat a" if "0 \<le> i" "i < n" for i
      using one pad [of i] pad [of a] r that w by (cases f) (auto simp: range_ok_def a b split: if_splits)
    then have "sub xs 0 n = replicate (nat n) (xs ! nat a)" using xs by (intro sub_replicate [of 0 n xs, simplified]) auto
    then have "xs = replicate (nat n) (xs ! nat a)" using xs sub_all by metis
    then show ?thesis using one go_nth_sub [of a b xs 0] w xs
      by (auto simp: FromCompactWithRange_def len_sub intro!: represents_constructors)
  next
    case all
    have "sub xs 0 n = xs" using xs sub_all by metis
    moreover have "xs \<noteq> []" using xs by auto
    ultimately show ?thesis using all xs by (simp add: FromCompactWithRange_def constructors_ok represents_constructors)
  next
    case mid
    then have "a + 2 < b" using r by (auto simp: a b range_ok_def split: if_splits)
    with mid xs lft rgt show ?thesis by (intro from_range_middle [of xs n a b pad]) auto
  qed (use xs lft rgt from_range_right [of xs n b pad] from_range_left [of xs n a pad] in auto)
qed

lemma CoCompactRange_ok:
  assumes svs: "svs = Some s0 # rest" and ok: "\<forall>v. Some v \<in> set svs \<longrightarrow> sv_ok v \<and> Len v = n" and v: "Some v \<in> set svs"
  shows "\<exists>a b. CoCompactRange svs = Ret (a, b)
    \<and> represents (FromCompactWithRange (sub (vals v) a b) a b n) (vals v)"
proof -
  have s0: "sv_ok s0" "Len s0 = n" using ok svs by auto
  then have n: "0 < n" using Len_pos [of s0] by simp
  obtain f s e where r: "CoWindowRange svs = (s, e)" "range_ok n f (s, e)" "in_range n (s, e) (vals v)"
  proof -
    have "range_ok n False (0, 0)" by (simp add: range_ok_def)
    from co_window_loop_ok [OF this n ok] that show ?thesis using v unfolding CoWindowRange_def by (metis surj_pair)
  qed
  have "CoCompactRange svs = Ret (if s > 0 then s - 1 else s, if e < n then e + 1 else e)"
    using r(1) s0 by (simp add: CoCompactRange_def svs)
  then show ?thesis using FromCompactWithRange_ok [OF _ n r(2,3) refl refl] len_vals [of v] ok v by auto
qed

section \<open>Properties\<close>

text \<open>
  C20: Working on the compact range loses nothing. For a list of well-formed smart-vectors of the
  same length, CoCompactRange returns a range; cutting this range out of any vector of the list
  and rebuilding with FromCompactWithRange gives a smart-vector that represents the same vector.
\<close>

theorem compact_range_round_trip:
  assumes "\<forall>v\<in>set (s0 # rest). sv_ok v \<and> Len v = n" and "v \<in> set (s0 # rest)"
  shows "\<exists>a b. CoCompactRange (map Some (s0 # rest)) = Ret (a, b)
    \<and> represents (FromCompactWithRange (sub (vals v) a b) a b n) (vals v)"
  by (rule CoCompactRange_ok [of _ s0 "map Some rest"]) (use assms in auto)

theorem compact_range_round_trip_witness:
  "\<exists>a b. CoCompactRange (map Some [PaddedCircularWindow [1::int, 2] 0 9 3, PaddedCircularWindow [5] 4 9 6, Constant 3 9]) = Ret (a, b)
    \<and> represents (FromCompactWithRange (sub (vals (PaddedCircularWindow [5::int] 4 9 6)) a b) a b 9) (vals (PaddedCircularWindow [5] 4 9 6))"
proof -
  have "\<forall>v\<in>set [PaddedCircularWindow [1::int, 2] 0 9 3, PaddedCircularWindow [5] 4 9 6, Constant 3 9]. sv_ok v \<and> Len v = 9" by simp
  from compact_range_round_trip [OF this, of "PaddedCircularWindow [5] 4 9 6"] show ?thesis by (simp del: vals.simps)
qed

end
