(* ===== verification/Smart_Ops.thy ===== *)
theory Smart_Ops
  imports Complex_Main Smart_Vectors
begin

text \<open>
  The operators of the smart-vector arithmetic
  (\<^verbatim>\<open>prover/maths/common/smartvectors/arithmetic_op.go\<close>) and the helpers they call
  (\<^verbatim>\<open>prover/maths/field\<close> and \<^verbatim>\<open>prover/maths/common/vector\<close>).

  A field element is a value of a type of class \<open>field\<close>: the operations of the class stand for the
  methods of gnark's \<^verbatim>\<open>koalabear.Element\<close>, and the axioms of the class are what the code relies
  on. In particular the inverse of zero is zero, as gnark documents, \<^verbatim>\<open>SetInt64\<close> is
  \<open>of_int\<close>, and \<^verbatim>\<open>Exp\<close> with an integer exponent is \<open>power_int\<close> (a negative exponent inverts). gnark's
  vector operations are pointwise and panic when the lengths differ.

  A method that overwrites its first argument returns the new value. The interface
  \<^verbatim>\<open>operator\<close> is the locale \<open>smart_operator\<close>: what the generic code needs of an operator is
  that the combination of terms is a commutative monoid and that each method computes a term or
  combines one; \<^verbatim>\<open>linCombOp\<close> and \<^verbatim>\<open>productOp\<close> interpret it.
\<close>

section \<open>Field and vector helpers\<close>

text \<open>
  \<^verbatim>\<open>field.ExpToInt\<close>: square and multiply, from the bit below the leading one down to bit 0.
  \<^verbatim>\<open>bits.Len(uint(k))\<close> is the number of binary digits.
\<close>

fun bits_Len :: "nat \<Rightarrow> nat" where
  "bits_Len k = (if k = 0 then 0 else Suc (bits_Len (k div 2)))"

declare bits_Len.simps [simp del]

primrec exp_loop :: "'e::field \<Rightarrow> nat \<Rightarrow> nat \<Rightarrow> 'e \<Rightarrow> 'e" where
  "exp_loop x k 0 z = z"
| "exp_loop x k (Suc i) z =
    (let z1 = z * z in exp_loop x k i (if k div 2 ^ i mod 2 = 1 then z1 * x else z1))"

definition ExpToInt :: "'e::field \<Rightarrow> int \<Rightarrow> 'e" where
  "ExpToInt x k =
    (if k = 0 then 1 else
     let x1 = (if k < 0 then inverse x else x); k1 = nat \<bar>k\<bar> in
     exp_loop x1 k1 (bits_Len k1 - 1) x1)"

definition vector_Add :: "'e::field list \<Rightarrow> 'e list \<Rightarrow> 'e list go" where
  "vector_Add a b = (if len a \<noteq> len b then Panic ''vector.Add: vectors don't have the same length'' else Ret (map2 (+) a b))"

definition vector_Sub :: "'e::field list \<Rightarrow> 'e list \<Rightarrow> 'e list go" where
  "vector_Sub a b = (if len a \<noteq> len b then Panic ''vector.Sub: vectors don't have the same length'' else Ret (map2 (-) a b))"

definition MulElementWise :: "'e::field list \<Rightarrow> 'e list \<Rightarrow> 'e list go" where
  "MulElementWise a b = (if len a \<noteq> len b then Panic ''vector.Mul: vectors don't have the same length'' else Ret (map2 (*) a b))"

definition vector_ScalarMul :: "'e::field list \<Rightarrow> 'e \<Rightarrow> 'e list" where
  "vector_ScalarMul vec scalar = map (\<lambda>x. x * scalar) vec"

definition Fill :: "'e list \<Rightarrow> 'e \<Rightarrow> 'e list" where
  "Fill v val = map (\<lambda>_. val) v"

text \<open>A loop \<^verbatim>\<open>for i := range res\<close> that reads \<^verbatim>\<open>x[i]\<close>.\<close>

definition for_range :: "('r \<Rightarrow> 'x \<Rightarrow> 'r) \<Rightarrow> 'r list \<Rightarrow> 'x list \<Rightarrow> 'r list go" where
  "for_range f res x = (if len x < len res then Panic ''index out of range'' else Ret (map2 f res x))"

section \<open>The operators\<close>

datatype operator = linCombOp | productOp

definition linCombOp_constIntoConst :: "'e::field \<Rightarrow> 'e \<Rightarrow> int \<Rightarrow> 'e" where
  "linCombOp_constIntoConst res x coeff =
    (if coeff = 1 then res + x
     else if coeff = -1 then res - x
     else if coeff = 2 then res + x + x
     else if coeff = -2 then res - x - x
     else res + of_int coeff * x)"

definition linCombOp_vecIntoVec :: "'e::field list \<Rightarrow> 'e list \<Rightarrow> int \<Rightarrow> 'e list go" where
  "linCombOp_vecIntoVec res x coeff = go_bind (assertHasLength (len res) (len x)) (\<lambda>_.
    if coeff = 1 then vector_Add res x
    else if coeff = -1 then vector_Sub res x
    else if coeff = 2 then for_range (\<lambda>r x. r + x + x) res x
    else if coeff = -2 then for_range (\<lambda>r x. r - x - x) res x
    else for_range (\<lambda>r x. r + of_int coeff * x) res x)"

definition linCombOp_vecIntoTerm :: "'e::field list \<Rightarrow> 'e list \<Rightarrow> int \<Rightarrow> 'e list go" where
  "linCombOp_vecIntoTerm term x coeff =
    (if coeff = 1 then Ret (copy_to term 0 x)
     else if coeff = -1 then for_range (\<lambda>_ x. - x) term x
     else if coeff = 2 then go_bind (assertHasLength (len term) (len x)) (\<lambda>_. vector_Add x x)
     else if coeff = -2 then for_range (\<lambda>_ x. - (x + x)) term x
     else for_range (\<lambda>_ x. of_int coeff * x) term x)"

definition linCombOp_constIntoTerm :: "'e::field \<Rightarrow> int \<Rightarrow> 'e" where
  "linCombOp_constIntoTerm x coeff =
    (if coeff = 1 then x
     else if coeff = -1 then - x
     else if coeff = 2 then x + x
     else if coeff = -2 then - (x + x)
     else of_int coeff * x)"

definition linCombOp_constTermIntoConst :: "'e::field \<Rightarrow> 'e \<Rightarrow> 'e" where
  "linCombOp_constTermIntoConst res term = res + term"

definition linCombOp_vecTermIntoVec :: "'e::field list \<Rightarrow> 'e list \<Rightarrow> 'e list go" where
  "linCombOp_vecTermIntoVec res term = vector_Add res term"

definition linCombOp_constTermIntoVec :: "'e::field list \<Rightarrow> 'e \<Rightarrow> 'e list" where
  "linCombOp_constTermIntoVec res term = map (\<lambda>r. r + term) res"

definition linCombOp_constIntoVec :: "'e::field list \<Rightarrow> 'e \<Rightarrow> int \<Rightarrow> 'e list" where
  "linCombOp_constIntoVec res val coeff = linCombOp_constTermIntoVec res (linCombOp_constIntoTerm val coeff)"

definition productOp_constIntoConst :: "'e::field \<Rightarrow> 'e \<Rightarrow> int \<Rightarrow> 'e" where
  "productOp_constIntoConst res x coeff =
    (if coeff = 0 then res
     else if coeff = 1 then res * x
     else if coeff = 2 then res * x * x
     else if coeff = 3 then res * (x * x * x)
     else res * power_int x coeff)"

definition productOp_vecIntoVec :: "'e::field list \<Rightarrow> 'e list \<Rightarrow> int \<Rightarrow> 'e list go" where
  "productOp_vecIntoVec res x coeff = go_bind (assertHasLength (len res) (len x)) (\<lambda>_.
    if coeff = 0 then Ret res
    else if coeff = 1 then MulElementWise res x
    else if coeff = 2 then for_range (\<lambda>r x. r * x * x) res x
    else if coeff = 3 then for_range (\<lambda>r x. r * (x * x * x)) res x
    else for_range (\<lambda>r x. r * ExpToInt x coeff) res x)"

definition productOp_constIntoTerm :: "'e::field \<Rightarrow> int \<Rightarrow> 'e" where
  "productOp_constIntoTerm x coeff =
    (if coeff = 0 then 1
     else if coeff = 1 then x
     else if coeff = 2 then x * x
     else if coeff = 3 then x * x * x
     else power_int x coeff)"

definition productOp_vecIntoTerm :: "'e::field list \<Rightarrow> 'e list \<Rightarrow> int \<Rightarrow> 'e list go" where
  "productOp_vecIntoTerm res x coeff =
    (if coeff = 0 then Ret (Fill res 1)
     else if coeff = 1 then Ret (copy_to res 0 x)
     else if coeff = 2 then go_bind (assertHasLength (len res) (len x)) (\<lambda>_. MulElementWise x x)
     else if coeff = 3 then for_range (\<lambda>_ x. x * x * x) res x
     else for_range (\<lambda>_ x. power_int x coeff) res x)"

definition productOp_constTermIntoConst :: "'e::field \<Rightarrow> 'e \<Rightarrow> 'e" where
  "productOp_constTermIntoConst res term = res * term"

definition productOp_vecTermIntoVec :: "'e::field list \<Rightarrow> 'e list \<Rightarrow> 'e list go" where
  "productOp_vecTermIntoVec res term = MulElementWise res term"

definition productOp_constTermIntoVec :: "'e::field list \<Rightarrow> 'e \<Rightarrow> 'e list" where
  "productOp_constTermIntoVec res term = vector_ScalarMul res term"

definition productOp_constIntoVec :: "'e::field list \<Rightarrow> 'e \<Rightarrow> int \<Rightarrow> 'e list" where
  "productOp_constIntoVec res x coeff = productOp_constTermIntoVec res (productOp_constIntoTerm x coeff)"

text \<open>The calls through the interface dispatch on the operator.\<close>

primrec constIntoConst :: "operator \<Rightarrow> 'e::field \<Rightarrow> 'e \<Rightarrow> int \<Rightarrow> 'e" where
  "constIntoConst linCombOp = linCombOp_constIntoConst"
| "constIntoConst productOp = productOp_constIntoConst"

primrec vecIntoVec :: "operator \<Rightarrow> 'e::field list \<Rightarrow> 'e list \<Rightarrow> int \<Rightarrow> 'e list go" where
  "vecIntoVec linCombOp = linCombOp_vecIntoVec"
| "vecIntoVec productOp = productOp_vecIntoVec"

primrec constIntoVec :: "operator \<Rightarrow> 'e::field list \<Rightarrow> 'e \<Rightarrow> int \<Rightarrow> 'e list" where
  "constIntoVec linCombOp = linCombOp_constIntoVec"
| "constIntoVec productOp = productOp_constIntoVec"

primrec constIntoTerm :: "operator \<Rightarrow> 'e::field \<Rightarrow> int \<Rightarrow> 'e" where
  "constIntoTerm linCombOp = linCombOp_constIntoTerm"
| "constIntoTerm productOp = productOp_constIntoTerm"

primrec vecIntoTerm :: "operator \<Rightarrow> 'e::field list \<Rightarrow> 'e list \<Rightarrow> int \<Rightarrow> 'e list go" where
  "vecIntoTerm linCombOp = linCombOp_vecIntoTerm"
| "vecIntoTerm productOp = productOp_vecIntoTerm"

primrec constTermIntoConst :: "operator \<Rightarrow> 'e::field \<Rightarrow> 'e \<Rightarrow> 'e" where
  "constTermIntoConst linCombOp = linCombOp_constTermIntoConst"
| "constTermIntoConst productOp = productOp_constTermIntoConst"

primrec vecTermIntoVec :: "operator \<Rightarrow> 'e::field list \<Rightarrow> 'e list \<Rightarrow> 'e list go" where
  "vecTermIntoVec linCombOp = linCombOp_vecTermIntoVec"
| "vecTermIntoVec productOp = productOp_vecTermIntoVec"

primrec constTermIntoVec :: "operator \<Rightarrow> 'e::field list \<Rightarrow> 'e \<Rightarrow> 'e list" where
  "constTermIntoVec linCombOp = linCombOp_constTermIntoVec"
| "constTermIntoVec productOp = productOp_constTermIntoVec"

section \<open>Square and multiply\<close>

lemma exp_loop_power: "exp_loop x k i (x ^ (k div 2 ^ i)) = (x :: 'e::field) ^ k"
proof (induction i)
  case (Suc i)
  define q where "q = k div 2 ^ i"
  have q2: "k div 2 ^ Suc i = q div 2" unfolding q_def power_Suc2 div_mult2_eq ..
  have "(if q mod 2 = 1 then x ^ (q div 2) * x ^ (q div 2) * x else x ^ (q div 2) * x ^ (q div 2)) = x ^ q"
  proof (cases "q mod 2 = 1")
    case True
    then have "q = Suc (q div 2 + q div 2)" by presburger
    then show ?thesis using True by (metis power_Suc2 power_add)
  next
    case False
    then have "q = q div 2 + q div 2" by presburger
    then show ?thesis using False by (metis power_add)
  qed
  then show ?case using Suc unfolding q2 exp_loop.simps Let_def q_def [symmetric] by simp
qed simp

lemma bits_Len_div: "0 < k \<Longrightarrow> k div 2 ^ (bits_Len k - 1) = 1"
proof (induction k rule: bits_Len.induct)
  case (1 k)
  show ?case
  proof (cases "k = 1")
    case False
    then have h: "k div 2 \<noteq> 0" using 1(2) by presburger
    then have "bits_Len (k div 2) \<noteq> 0" by (subst bits_Len.simps) simp
    then have "bits_Len k - 1 = Suc (bits_Len (k div 2) - 1)" using 1(2) by (subst bits_Len.simps) simp
    then have "k div 2 ^ (bits_Len k - 1) = k div 2 div 2 ^ (bits_Len (k div 2) - 1)"
      by (simp only: power_Suc div_mult2_eq)
    then show ?thesis using 1(1) 1(2) h by simp
  qed (simp add: bits_Len.simps)
qed

lemma ExpToInt_power_int: "ExpToInt x k = power_int x k"
proof (cases "k = 0")
  case False
  have "exp_loop y m (bits_Len m - 1) y = y ^ m" if "0 < m" for y :: 'a and m
    using exp_loop_power [of y m "bits_Len m - 1"] bits_Len_div [OF that] by simp
  then show ?thesis using False by (auto simp: ExpToInt_def Let_def power_int_def)
qed (simp add: ExpToInt_def)

section \<open>The contract of an operator\<close>

locale smart_operator = comm_monoid comb unit_el
  for comb :: "'e::field \<Rightarrow> 'e \<Rightarrow> 'e" and unit_el :: 'e +
  fixes op :: operator and trm :: "int \<Rightarrow> 'e \<Rightarrow> 'e"
  assumes const_const: "constIntoConst op r x c = comb r (trm c x)"
    and vec_vec: "len rs = len xs \<Longrightarrow> vecIntoVec op rs xs c = Ret (map2 (\<lambda>r x. comb r (trm c x)) rs xs)"
    and const_vec: "constIntoVec op rs x c = map (\<lambda>r. comb r (trm c x)) rs"
    and const_term: "constIntoTerm op x c = trm c x"
    and vec_term: "len rs = len xs \<Longrightarrow> vecIntoTerm op rs xs c = Ret (map (trm c) xs)"
    and term_const: "constTermIntoConst op r t = comb r t"
    and term_vec: "len rs = len ts \<Longrightarrow> vecTermIntoVec op rs ts = Ret (map2 comb rs ts)"
    and const_term_vec: "constTermIntoVec op rs t = map (\<lambda>r. comb r t) rs"
    and absorbing: "op = productOp \<Longrightarrow> comb 0 x = 0"

lemma map2_same_len: "len rs = len xs \<Longrightarrow> map2 (\<lambda>_ x. f x) rs xs = map f xs"
  by (rule list_eq_int [of _ "len xs"]) (auto simp: len_def nat_less_iff)

lemma for_range_ok: "len rs = len xs \<Longrightarrow> for_range f rs xs = Ret (map2 f rs xs)"
  by (simp add: for_range_def)

lemma map2_diag: "map2 f xs xs = map (\<lambda>x. f x x) xs"
  by (induction xs) auto

lemmas lin_defs = linCombOp_constIntoConst_def linCombOp_vecIntoVec_def linCombOp_constIntoVec_def
  linCombOp_constIntoTerm_def linCombOp_vecIntoTerm_def linCombOp_constTermIntoConst_def
  linCombOp_vecTermIntoVec_def linCombOp_constTermIntoVec_def vector_Add_def vector_Sub_def

lemmas prod_defs = productOp_constIntoConst_def productOp_vecIntoVec_def productOp_constIntoVec_def
  productOp_constIntoTerm_def productOp_vecIntoTerm_def productOp_constTermIntoConst_def
  productOp_vecTermIntoVec_def productOp_constTermIntoVec_def MulElementWise_def vector_ScalarMul_def Fill_def

lemmas loop_lemmas = for_range_ok map2_same_len map2_diag copy_to_all assertHasLength_def

interpretation lin: smart_operator "(+)" 0 linCombOp "\<lambda>c x. of_int c * x :: 'e::field"
proof unfold_locales
  fix rs xs :: "'e list" and c assume l: "len rs = len xs"
  show "vecIntoVec linCombOp rs xs c = Ret (map2 (\<lambda>r x. r + of_int c * x) rs xs)"
    using l by (auto simp: lin_defs loop_lemmas add.commute)
  show "vecIntoTerm linCombOp rs xs c = Ret (map (\<lambda>x. of_int c * x) xs)"
    using l by (simp add: lin_defs loop_lemmas)
qed (auto simp: lin_defs)

interpretation prd: smart_operator "(*)" 1 productOp "\<lambda>c x. power_int x c :: 'e::field"
proof unfold_locales
  fix rs xs :: "'e list" and c assume l: "len rs = len xs"
  then have id: "map2 (\<lambda>r x. r) rs xs = rs" by (intro list_eq_int [of _ "len xs"]) (auto simp: len_def nat_less_iff)
  show "vecIntoVec productOp rs xs c = Ret (map2 (\<lambda>r x. r * power_int x c) rs xs)"
    using l id by (auto simp: prod_defs loop_lemmas power2_eq_square power3_eq_cube ExpToInt_power_int mult.assoc)
  show "vecIntoTerm productOp rs xs c = Ret (map (\<lambda>x. power_int x c) xs)"
    using l map2_same_len [OF l, of "\<lambda>_. 1"] by (simp add: prod_defs loop_lemmas)
      (simp add: map_replicate_const len_def power2_eq_square power3_eq_cube)
qed (auto simp: prod_defs power2_eq_square power3_eq_cube mult.assoc)

end
