(* ===== verification/Smart_Arith.thy ===== *)
theory Smart_Arith
  imports Smart_Ops
begin

text \<open>
  n-ary arithmetic on smart-vectors (\<^verbatim>\<open>prover/maths/common/smartvectors/arithmetic_gen.go\<close>, with
  \<^verbatim>\<open>processRegularOnly\<close> of \<^verbatim>\<open>regular.go\<close> and \<^verbatim>\<open>processWindowedOnly\<close> of
  \<^verbatim>\<open>windowed.go\<close>). The constants, the windows and the regular vectors among the operands are
  combined separately and the partial results are merged. The result is proved equal, position by
  position, to the plain combination of the operands, once for every operator that satisfies the
  contract \<open>smart_operator\<close>.
\<close>

section \<open>Partial results\<close>

text \<open>
  The operands are paired with their coefficients, whose number \<^verbatim>\<open>processOperator\<close> has compared
  with the number of vectors.
\<close>

fun const_loop :: "operator \<Rightarrow> 'e::field \<Rightarrow> int \<Rightarrow> ('e SmartVector \<times> int) list \<Rightarrow> 'e \<times> int" where
  "const_loop op constVal numMatches [] = (constVal, numMatches)"
| "const_loop op constVal numMatches ((svec, coeff) # rest) =
    (case svec of
       Constant val n \<Rightarrow>
         if numMatches < 1 then const_loop op (constIntoTerm op val coeff) (numMatches + 1) rest
         else const_loop op (constIntoConst op constVal val coeff) (numMatches + 1) rest
     | _ \<Rightarrow> const_loop op constVal numMatches rest)"

text \<open>The \<^verbatim>\<open>*Constant\<close> result is its value and its length; \<open>None\<close> is \<^verbatim>\<open>nil\<close>.\<close>

definition processConstOnly :: "operator \<Rightarrow> 'e::field SmartVector list \<Rightarrow> int list \<Rightarrow> ('e \<times> int) option \<times> int" where
  "processConstOnly op svecs coeffs =
    (let (constVal, numMatches) = const_loop op 0 0 (zip svecs coeffs) in
     if numMatches = 0 then (None, 0) else (Some (constVal, Len (svecs ! 0)), numMatches))"

text \<open>The windows among the operands, each with its interval and its coefficient.\<close>

type_synonym 'e window_term = "'e list \<times> 'e \<times> CircularInterval \<times> int"

fun gather_windows :: "int \<Rightarrow> ('e SmartVector \<times> int) list \<Rightarrow> 'e window_term list go" where
  "gather_windows n [] = Ret []"
| "gather_windows n ((svec, coeff) # rest) =
    (case svec of
       PaddedCircularWindow w pad totLen offset \<Rightarrow>
         go_bind (pcw_interval w totLen offset) (\<lambda>ival.
         go_bind (assertHasLength totLen n) (\<lambda>_.
         go_bind (gather_windows n rest) (\<lambda>ws. Ret ((w, pad, ival, coeff) # ws))))
     | _ \<Rightarrow> gather_windows n rest)"

text \<open>
  The loop over the windows. The three parts of \<^verbatim>\<open>unionWindow\<close> (left of the window, the window,
  right of it) are written separately.
\<close>

fun union_loop :: "operator \<Rightarrow> int \<Rightarrow> int \<Rightarrow> bool \<Rightarrow> 'e::field list \<Rightarrow> 'e \<Rightarrow> 'e window_term list \<Rightarrow> ('e list \<times> 'e) go" where
  "union_loop op offset n isFirst unionWindow paddedTerm [] = Ret (unionWindow, paddedTerm)"
| "union_loop op offset n isFirst unionWindow paddedTerm ((w, pad, ival, coeff) # ws) =
    (let start = normalize (Start ival) offset n;
         stop0 = normalize (Stop ival) offset n;
         stop = (if stop0 = 0 then n else stop0) in
     if isFirst then
       go_bind (go_slice unionWindow start stop) (\<lambda>mid.
       go_bind (vecIntoTerm op mid w coeff) (\<lambda>mid'.
       go_bind (go_slice unionWindow 0 start) (\<lambda>left.
       go_bind (go_slice unionWindow stop (len unionWindow)) (\<lambda>right.
         let paddedTerm' = constIntoTerm op pad coeff in
         union_loop op offset n False (Fill left paddedTerm' @ mid' @ Fill right paddedTerm') paddedTerm' ws))))
     else if stop - start \<noteq> len w then Panic ''sanity-check failed''
     else
       go_bind (go_slice unionWindow start stop) (\<lambda>mid.
       go_bind (vecIntoVec op mid w coeff) (\<lambda>mid'.
       go_bind (go_slice unionWindow 0 start) (\<lambda>left.
       go_bind (go_slice unionWindow stop (len unionWindow)) (\<lambda>right.
         union_loop op offset n False (constIntoVec op left pad coeff @ mid' @ constIntoVec op right pad coeff)
           (constIntoConst op paddedTerm pad coeff) ws)))))"

text \<open>
  When the windows cover the whole circle, the slice \<^verbatim>\<open>svecs\<close> of the caller is overwritten: each
  window becomes a regular vector.
\<close>

fun windows_to_regular :: "'e::zero SmartVector list \<Rightarrow> 'e SmartVector list go" where
  "windows_to_regular [] = Ret []"
| "windows_to_regular (svec # svecs) =
    go_bind (if is_window svec then go_bind (IntoRegVecSaveAllocBase svec) NewRegular else Ret svec) (\<lambda>svec'.
    go_bind (windows_to_regular svecs) (\<lambda>svecs'. Ret (svec' # svecs')))"

definition processWindowedOnly ::
    "operator \<Rightarrow> 'e::field SmartVector list \<Rightarrow> int list \<Rightarrow> ('e SmartVector option \<times> int \<times> 'e SmartVector list) go" where
  "processWindowedOnly op svecs coeffs0 =
    (let n = Len (svecs ! 0) in
     go_bind (gather_windows n (zip svecs coeffs0)) (\<lambda>windows.
     if windows = [] then Ret (None, 0, svecs)
     else go_bind (SmallestCoverInterval (map (\<lambda>(w, pad, ival, coeff). ival) windows)) (\<lambda>smallestCover.
       if IsFullCircle smallestCover then
         go_bind (windows_to_regular svecs) (\<lambda>svecs'. Ret (None, 0, svecs'))
       else if Start smallestCover < 0 then Panic ''All offset should be normalized, but Start is''
       else
         let offset = Start smallestCover in
         go_bind (union_loop op offset n True (replicate (nat (IntervalLen smallestCover)) 0) 0 windows)
           (\<lambda>(unionWindow, paddedTerm).
         go_bind (if IsFullCircle smallestCover then NewRegular unionWindow
                  else NewPaddedCircularWindow unionWindow paddedTerm offset n) (\<lambda>res.
           Ret (Some res, len windows, svecs))))))"

fun regular_loop :: "operator \<Rightarrow> int \<Rightarrow> 'e::field list option \<Rightarrow> int \<Rightarrow> ('e SmartVector \<times> int) list \<Rightarrow> ('e list option \<times> int) go" where
  "regular_loop op n resvec numMatches [] = Ret (resvec, numMatches)"
| "regular_loop op n resvec numMatches ((svec0, coeff) # rest) =
    go_bind (case svec0 of Rotated r k \<Rightarrow> rotatedAsRegular r k | _ \<Rightarrow> Ret svec0) (\<lambda>svec.
    case svec of
      Regular reg \<Rightarrow>
        (case resvec of
           None \<Rightarrow>
             go_bind (assertStrictPositiveLen n) (\<lambda>_.
             go_bind (vecIntoTerm op (replicate (nat n) 0) reg coeff) (\<lambda>res.
               regular_loop op n (Some res) (numMatches + 1) rest))
         | Some res0 \<Rightarrow>
             go_bind (vecIntoVec op res0 reg coeff) (\<lambda>res.
               regular_loop op n (Some res) (numMatches + 1) rest))
    | _ \<Rightarrow> regular_loop op n resvec numMatches rest)"

definition processRegularOnly :: "operator \<Rightarrow> 'e::field SmartVector list \<Rightarrow> int list \<Rightarrow> ('e list option \<times> int) go" where
  "processRegularOnly op svecs coeffs = regular_loop op (Len (svecs ! 0)) None 0 (zip svecs coeffs)"

section \<open>Merging\<close>

text \<open>The constant is merged into the window result.\<close>

primrec merge_const :: "operator \<Rightarrow> 'e::field \<Rightarrow> 'e SmartVector \<Rightarrow> 'e SmartVector" where
  "merge_const op c (Constant x n) = Constant x n"
| "merge_const op c (Rotated r k) = Rotated r k"
| "merge_const op c (PaddedCircularWindow w pad n off) =
    PaddedCircularWindow (constTermIntoVec op w c) (constTermIntoConst op pad c) n off"
| "merge_const op c (Regular r) = Regular (constTermIntoVec op r c)"

text \<open>The window result is merged into the regular one.\<close>

definition merge_window :: "operator \<Rightarrow> 'e::field list \<Rightarrow> 'e SmartVector \<Rightarrow> 'e SmartVector go" where
  "merge_window op regvec windowRes =
    (case windowRes of
       Regular w \<Rightarrow> go_bind (vecTermIntoVec op regvec w) (\<lambda>res. Ret (Regular res))
     | PaddedCircularWindow w pad totLen offset \<Rightarrow>
       go_bind (pcw_interval w totLen offset) (\<lambda>ival.
       let n = len regvec in
       if DoesWrapAround ival then
         go_bind (go_slice regvec 0 (Stop ival)) (\<lambda>lv. go_bind (go_slice w (n - Start ival) (len w)) (\<lambda>lw.
         go_bind (vecTermIntoVec op lv lw) (\<lambda>left.
         go_bind (go_slice regvec (Start ival) n) (\<lambda>rv. go_bind (go_slice w 0 (n - Start ival)) (\<lambda>rw.
         go_bind (vecTermIntoVec op rv rw) (\<lambda>right.
         go_bind (go_slice regvec (Stop ival) (Start ival)) (\<lambda>mv.
           Ret (Regular (left @ constTermIntoVec op mv pad @ right)))))))))
       else
         go_bind (go_slice regvec (Start ival) (Stop ival)) (\<lambda>mv.
         go_bind (vecTermIntoVec op mv w) (\<lambda>mid.
         go_bind (go_slice regvec 0 (Start ival)) (\<lambda>lv.
         go_bind (go_slice regvec (Stop ival) n) (\<lambda>rv.
           Ret (Regular (constTermIntoVec op lv pad @ mid @ constTermIntoVec op rv pad)))))))
     | _ \<Rightarrow> Panic ''interface conversion'')"

text \<open>A nil result that is dereferenced.\<close>

definition deref :: "'a option \<Rightarrow> 'a go" where
  "deref p = (case p of None \<Rightarrow> Panic ''nil pointer dereference'' | Some x \<Rightarrow> Ret x)"

fun assert_lengths :: "int \<Rightarrow> 'e SmartVector list \<Rightarrow> unit go" where
  "assert_lengths n [] = Ret ()"
| "assert_lengths n (s # ss) = go_bind (assertHasLength n (Len s)) (\<lambda>_. assert_lengths n ss)"

definition finish_operator ::
    "operator \<Rightarrow> int list \<Rightarrow> ('e::field \<times> int) option \<Rightarrow> int \<Rightarrow> 'e SmartVector option \<Rightarrow> int \<Rightarrow> 'e SmartVector list \<Rightarrow> 'e SmartVector go" where
  "finish_operator op coeffs constRes matchedConst windowRes matchedWindow svecs =
    (let totalToMatch = len svecs in
     go_bind (processRegularOnly op svecs coeffs) (\<lambda>(regularRes, matchedRegular).
     if matchedConst + matchedWindow + matchedRegular \<noteq> totalToMatch
     then Panic ''Mismatch between the number of matched vector and the total number of vectors''
     else if matchedRegular = totalToMatch then go_bind (deref regularRes) (\<lambda>r. Ret (Regular r))
     else if matchedRegular + matchedConst = totalToMatch then
       go_bind (deref regularRes) (\<lambda>r. go_bind (deref constRes) (\<lambda>(c, _). Ret (Regular (constTermIntoVec op r c))))
     else go_bind (deref regularRes) (\<lambda>r. go_bind (deref windowRes) (\<lambda>w. merge_window op r w))))"

text \<open>The part of \<^verbatim>\<open>processOperator\<close> that follows the constants.\<close>

definition window_phase ::
    "operator \<Rightarrow> int list \<Rightarrow> 'e::field SmartVector list \<Rightarrow> ('e \<times> int) option \<Rightarrow> int \<Rightarrow> 'e SmartVector go" where
  "window_phase op coeffs svecs constRes matchedConst =
    go_bind (processWindowedOnly op svecs coeffs) (\<lambda>(windowRes0, matchedWindow, svecs').
      if matchedWindow = len svecs then deref windowRes0
      else
        let windowRes = (if matchedWindow > 0 \<and> matchedConst > 0
          then case constRes of Some (c, _) \<Rightarrow> map_option (merge_const op c) windowRes0 | None \<Rightarrow> windowRes0
          else windowRes0) in
        if matchedWindow + matchedConst = len svecs then deref windowRes
        else finish_operator op coeffs constRes matchedConst windowRes matchedWindow svecs')"

definition processOperator :: "operator \<Rightarrow> int list \<Rightarrow> 'e::field SmartVector list \<Rightarrow> 'e SmartVector go" where
  "processOperator op coeffs svecs =
    (if len coeffs \<noteq> len svecs then Panic ''there are coeffs and vectors''
     else if len svecs = 0 then Panic ''no vector to process''
     else go_bind (assert_lengths (Len (svecs ! 0)) svecs) (\<lambda>_.
       go_bind (assertStrictPositiveLen (Len (svecs ! 0))) (\<lambda>_.
       let (constRes, matchedConst) = processConstOnly op svecs coeffs in
       if matchedConst = len svecs then go_bind (deref constRes) (\<lambda>(c, n). Ret (Constant c n))
       else if op = productOp \<and> map_option fst constRes = Some 0 then go_bind (deref constRes) (\<lambda>(c, n). Ret (Constant c n))
       else window_phase op coeffs svecs constRes matchedConst)))"

fun lincomb_check :: "int \<Rightarrow> 'e SmartVector list \<Rightarrow> unit go" where
  "lincomb_check n [] = Ret ()"
| "lincomb_check n (s # ss) = (if Len s \<noteq> n then Panic ''bad size'' else lincomb_check n ss)"

definition LinComb :: "int list \<Rightarrow> 'e::field SmartVector list \<Rightarrow> 'e SmartVector go" where
  "LinComb coeffs svecs =
    (if svecs = [] then Panic ''index out of range''
     else go_bind (lincomb_check (Len (svecs ! 0)) svecs) (\<lambda>_. processOperator linCombOp coeffs svecs))"

definition Product :: "int list \<Rightarrow> 'e::field SmartVector list \<Rightarrow> 'e SmartVector go" where
  "Product exponents svecs = processOperator productOp exponents svecs"

section \<open>The plain combination\<close>

definition fold_terms :: "('e \<Rightarrow> 'e \<Rightarrow> 'e) \<Rightarrow> 'e \<Rightarrow> ('x \<Rightarrow> 'e) \<Rightarrow> 'x list \<Rightarrow> 'e" where
  "fold_terms comb u f xs = foldr (\<lambda>x acc. comb (f x) acc) xs u"

definition term_at :: "(int \<Rightarrow> 'e \<Rightarrow> 'e) \<Rightarrow> int \<Rightarrow> 'e SmartVector \<times> int \<Rightarrow> 'e" where
  "term_at trm p vc = trm (snd vc) (vals (fst vc) ! nat p)"

definition win_term :: "(int \<Rightarrow> 'e \<Rightarrow> 'e) \<Rightarrow> int \<Rightarrow> int \<Rightarrow> int \<Rightarrow> 'e window_term \<Rightarrow> 'e" where
  "win_term trm n offset k wt = (case wt of (w, pad, ival, c) \<Rightarrow> trm c (win_at w pad n ((istart ival - offset) mod n) k))"

definition pad_term :: "(int \<Rightarrow> 'e \<Rightarrow> 'e) \<Rightarrow> 'e window_term \<Rightarrow> 'e" where
  "pad_term trm wt = (case wt of (w, pad, ival, c) \<Rightarrow> trm c pad)"

definition is_plain :: "'e SmartVector \<Rightarrow> bool" where
  "is_plain v \<longleftrightarrow> \<not> is_constant v \<and> \<not> is_window v"

definition ops_ok :: "int \<Rightarrow> ('e SmartVector \<times> int) list \<Rightarrow> bool" where
  "ops_ok n xs \<longleftrightarrow> (\<forall>x\<in>set xs. sv_ok (fst x) \<and> Len (fst x) = n)"

lemma ops_ok_simps [simp]:
  "ops_ok n []" "ops_ok n (x # xs) \<longleftrightarrow> sv_ok (fst x) \<and> Len (fst x) = n \<and> ops_ok n xs"
  by (auto simp: ops_ok_def)

abbreviation const_ops :: "('e SmartVector \<times> int) list \<Rightarrow> ('e SmartVector \<times> int) list" where
  "const_ops \<equiv> filter (\<lambda>x. is_constant (fst x))"

abbreviation window_ops :: "('e SmartVector \<times> int) list \<Rightarrow> ('e SmartVector \<times> int) list" where
  "window_ops \<equiv> filter (\<lambda>x. is_window (fst x))"

abbreviation plain_ops :: "('e SmartVector \<times> int) list \<Rightarrow> ('e SmartVector \<times> int) list" where
  "plain_ops \<equiv> filter (\<lambda>x. is_plain (fst x))"

lemma kinds_count: "int (length (const_ops xs)) + int (length (window_ops xs)) + int (length (plain_ops xs)) = len xs"
proof (induction xs)
  case (Cons x xs)
  then show ?case by (cases "fst x") (auto simp: is_plain_def)
qed simp

context smart_operator
begin

lemma fold_Nil [simp]: "fold_terms comb unit_el f [] = unit_el"
  by (simp add: fold_terms_def)

lemma fold_Cons [simp]: "fold_terms comb unit_el f (x # xs) = comb (f x) (fold_terms comb unit_el f xs)"
  by (simp add: fold_terms_def)

lemma fold_cong: "(\<And>x. x \<in> set xs \<Longrightarrow> f x = g x) \<Longrightarrow> fold_terms comb unit_el f xs = fold_terms comb unit_el g xs"
  by (induction xs) auto

lemma fold_map: "fold_terms comb unit_el f (map g xs) = fold_terms comb unit_el (\<lambda>x. f (g x)) xs"
  by (induction xs) auto

lemma fold_filter:
  "fold_terms comb unit_el f xs =
    comb (fold_terms comb unit_el f (filter P xs)) (fold_terms comb unit_el f (filter (\<lambda>x. \<not> P x) xs))"
  by (induction xs) (auto simp: ac_simps)

lemma fold_kinds:
  "fold_terms comb unit_el f xs = comb (fold_terms comb unit_el f (const_ops xs))
    (comb (fold_terms comb unit_el f (window_ops xs)) (fold_terms comb unit_el f (plain_ops xs)))"
proof (induction xs)
  case (Cons x xs)
  then show ?case by (cases "fst x") (auto simp: is_plain_def ac_simps)
qed simp

lemma const_loop_more:
  assumes "ops_ok n xs" and "0 \<le> p" and "p < n" and "1 \<le> k"
  shows "const_loop op cv k xs = (comb cv (fold_terms comb unit_el (term_at trm p) (const_ops xs)), k + int (length (const_ops xs)))"
  using assms(1,4)
proof (induction xs arbitrary: cv k)
  case (Cons x xs)
  obtain v c where x: "x = (v, c)" by (cases x)
  show ?case using Cons assms(2,3) by (cases v) (auto simp: x const_const term_at_def ac_simps nat_less_iff)
qed simp

lemma const_loop_ok:
  assumes "ops_ok n xs" and "0 \<le> p" and "p < n"
  shows "const_loop op 0 0 xs = (if const_ops xs = [] then 0 else fold_terms comb unit_el (term_at trm p) (const_ops xs), int (length (const_ops xs)))"
  using assms(1)
proof (induction xs)
  case (Cons x xs)
  obtain v c where x: "x = (v, c)" by (cases x)
  show ?case
  proof (cases v)
    case (Constant a m)
    then show ?thesis using Cons.prems assms(2,3) const_loop_more [of n xs p 1 "trm c a"]
      by (simp add: x const_term term_at_def nat_less_iff)
  qed (use Cons x in auto)
qed simp

end

text \<open>What \<open>gather_windows\<close> collects.\<close>

definition window_term_of :: "'e SmartVector \<times> int \<Rightarrow> 'e window_term" where
  "window_term_of vc = (case fst vc of
    PaddedCircularWindow w pad n off \<Rightarrow> (w, pad, \<lparr>circleSize = n, istart = off, IntervalLen = len w\<rparr>, snd vc)
  | _ \<Rightarrow> undefined)"

lemma pcw_interval_ok:
  "sv_ok (PaddedCircularWindow w pad n off) \<Longrightarrow>
    pcw_interval w n off = Ret \<lparr>circleSize = n, istart = off, IntervalLen = len w\<rparr>
    \<and> ival_ok n \<lparr>circleSize = n, istart = off, IntervalLen = len w\<rparr>"
  by (auto simp: pcw_interval_def IvalWithStartLen_def ival_ok_def)

lemma gather_windows_ok:
  assumes "ops_ok n xs"
  shows "gather_windows n xs = Ret (map window_term_of (window_ops xs))"
  using assms
proof (induction xs)
  case (Cons x xs)
  obtain v c where x: "x = (v, c)" by (cases x)
  show ?case
  proof (cases v)
    case (PaddedCircularWindow w pad m off)
    then show ?thesis using Cons pcw_interval_ok [of w pad m off]
      by (auto simp: x assertHasLength_def window_term_of_def)
  qed (use Cons x in auto)
qed simp

section \<open>The windows\<close>

text \<open>
  A window term that fits into the union window: in the coordinates of the union, whose length is
  \<open>L\<close>, it starts at \<open>s\<close> and does not wrap.
\<close>

definition fits :: "int \<Rightarrow> int \<Rightarrow> int \<Rightarrow> 'e window_term \<Rightarrow> bool" where
  "fits n L offset wt = (case wt of (w, pad, ival, c) \<Rightarrow>
    ival_ok n ival \<and> IntervalLen ival = len w \<and> (istart ival - offset) mod n + len w \<le> L)"

lemma fits_coords:
  assumes "fits n L offset (w, pad, ival, c)" and "L < n"
  defines "s \<equiv> (istart ival - offset) mod n"
  shows "normalize (Start ival) offset n = s" and "normalize (Stop ival) offset n = s + len w"
    and "0 \<le> s" and "0 < len w" and "s + len w \<le> L"
    and "\<And>k. 0 \<le> k \<Longrightarrow> k < n \<Longrightarrow> win_at w pad n s k = (if s \<le> k \<and> k < s + len w then w ! nat (k - s) else pad)"
proof -
  have n: "0 < n" and l: "0 < len w" and sl: "s + len w \<le> L" and iv: "ival_ok n ival" "IntervalLen ival = len w"
    using assms(1) by (auto simp: fits_def ival_ok_def s_def)
  show s: "0 \<le> s" using n by (simp add: s_def)
  show "normalize (Start ival) offset n = s" using n by (simp add: normalize_def Start_def s_def PositiveMod_mod)
  have "normalize (Stop ival) offset n = (istart ival + len w - offset) mod n"
    using n iv by (simp add: normalize_def Stop_def ival_ok_def PositiveMod_mod mod_simps)
  also have "\<dots> = (s + len w) mod n" by (simp add: s_def mod_simps algebra_simps)
  also have "\<dots> = s + len w" using s sl l assms(2) by (intro mod_pos_pos_trivial) linarith+
  finally show "normalize (Stop ival) offset n = s + len w" .
  show "0 < len w" "s + len w \<le> L" by fact+
  show "\<And>k. 0 \<le> k \<Longrightarrow> k < n \<Longrightarrow> win_at w pad n s k = (if s \<le> k \<and> k < s + len w then w ! nat (k - s) else pad)"
    using sl assms(2) by (auto simp: win_at_def)
qed

lemma nth_map_sub:
  assumes "0 \<le> a" and "0 \<le> k" and "k < b - a" and "b \<le> len xs"
  shows "map g (sub xs a b) ! nat k = g (xs ! nat (a + k))"
proof -
  have "nat k < length (sub xs a b)" using assms nat_less_len [of k "sub xs a b"] len_sub [of a b xs] by simp
  then show ?thesis using assms by (simp add: nth_sub_int del: length_sub)
qed

text \<open>Three consecutive parts of a slice, each rewritten.\<close>

lemma nth_three_parts:
  assumes "0 \<le> s" and "0 < l" and "s + l \<le> len u" and "len m = l" and "0 \<le> k" and "k < len u"
  shows "(map f (sub u 0 s) @ m @ map g (sub u (s + l) (len u))) ! nat k =
    (if k < s then f (u ! nat k) else if k < s + l then m ! nat (k - s) else g (u ! nat k))"
  using assms by (auto simp: nth_append_int len_sub nth_map_sub algebra_simps)

lemma len_three_parts:
  assumes "0 \<le> s" and "0 < l" and "s + l \<le> len u" and "len m = l"
  shows "len (map f (sub u 0 s) @ m @ map g (sub u (s + l) (len u))) = len u"
  using assms by (simp add: len_sub)

context smart_operator
begin

lemma union_loop_more:
  assumes "\<forall>wt\<in>set ws. fits n (len u) offset wt" and "len u < n"
  shows "\<exists>u' p'. union_loop op offset n False u p ws = Ret (u', p') \<and> len u' = len u
    \<and> (\<forall>k. 0 \<le> k \<and> k < len u \<longrightarrow> u' ! nat k = comb (u ! nat k) (fold_terms comb unit_el (win_term trm n offset k) ws))
    \<and> p' = comb p (fold_terms comb unit_el (pad_term trm) ws)"
  using assms
proof (induction ws arbitrary: u p)
  case (Cons wt ws)
  obtain w pad ival c where wt: "wt = (w, pad, ival, c)" by (cases wt)
  define s where "s = (istart ival - offset) mod n"
  have f: "fits n (len u) offset (w, pad, ival, c)" using Cons.prems wt by auto
  note co = fits_coords [OF f Cons.prems(2), folded s_def]
  let ?m = "map2 (\<lambda>r x. comb r (trm c x)) (sub u s (s + len w)) w"
  let ?f = "\<lambda>r. comb r (trm c pad)"
  let ?u = "map ?f (sub u 0 s) @ ?m @ map ?f (sub u (s + len w) (len u))"
  have lm: "len ?m = len w" using co by (simp add: len_sub len_def)
  have lu: "len ?u = len u" using co lm by (intro len_three_parts) auto
  have step: "union_loop op offset n False u p (wt # ws) = union_loop op offset n False ?u (comb p (trm c pad)) ws"
    using co Cons.prems(2) by (simp add: wt Let_def go_slice_Ret vec_vec len_sub const_vec const_const)
  obtain u' p' where IH: "union_loop op offset n False ?u (comb p (trm c pad)) ws = Ret (u', p')" "len u' = len u"
    "\<And>k. 0 \<le> k \<Longrightarrow> k < len u \<Longrightarrow> u' ! nat k = comb (?u ! nat k) (fold_terms comb unit_el (win_term trm n offset k) ws)"
    "p' = comb (comb p (trm c pad)) (fold_terms comb unit_el (pad_term trm) ws)"
    using Cons.IH [of ?u "comb p (trm c pad)"] Cons.prems lu by auto
  have at: "?u ! nat k = comb (u ! nat k) (win_term trm n offset k wt)" if k: "0 \<le> k" "k < len u" for k
  proof -
    have "?m ! nat (k - s) = comb (u ! nat k) (trm c (w ! nat (k - s)))" if "s \<le> k" "k < s + len w"
    proof -
      have "nat (k - s) < length w" "nat (k - s) < length (sub u s (s + len w))"
        using that co(3-5) nat_less_len [of "k - s" w] nat_less_len [of "k - s" "sub u s (s + len w)"]
          len_sub [of s "s + len w" u] by simp_all
      then show ?thesis using that co(3-5) k nth_sub_int [of s "k - s" "s + len w" u] by (simp del: length_sub)
    qed
    then show ?thesis using co k Cons.prems(2) nth_three_parts [of s "len w" u ?m k ?f ?f] lm
      by (auto simp: win_term_def wt s_def [symmetric])
  qed
  have "pad_term trm wt = trm c pad" by (simp add: pad_term_def wt)
  then have "p' = comb p (fold_terms comb unit_el (pad_term trm) (wt # ws))" using IH(4) by (simp add: assoc)
  moreover have "u' ! nat k = comb (u ! nat k) (fold_terms comb unit_el (win_term trm n offset k) (wt # ws))"
    if "0 \<le> k" "k < len u" for k using IH(3) [OF that] at [OF that] by (simp add: assoc)
  ultimately show ?case using IH(1,2) step by metis
qed auto

lemma union_loop_ok:
  assumes "\<forall>wt\<in>set ws. fits n (len u) offset wt" and "len u < n" and "ws \<noteq> []"
  shows "\<exists>u' p'. union_loop op offset n True u p ws = Ret (u', p') \<and> len u' = len u
    \<and> (\<forall>k. 0 \<le> k \<and> k < len u \<longrightarrow> u' ! nat k = fold_terms comb unit_el (win_term trm n offset k) ws)
    \<and> p' = fold_terms comb unit_el (pad_term trm) ws"
proof -
  obtain w pad ival c ws' where ws: "ws = (w, pad, ival, c) # ws'" using assms(3) by (cases ws) auto
  define s where "s = (istart ival - offset) mod n"
  have f: "fits n (len u) offset (w, pad, ival, c)" using assms(1) ws by auto
  note co = fits_coords [OF f assms(2), folded s_def]
  let ?f = "\<lambda>r. trm c pad"
  let ?u = "map ?f (sub u 0 s) @ map (trm c) w @ map ?f (sub u (s + len w) (len u))"
  have lu: "len ?u = len u" using co by (intro len_three_parts) auto
  have step: "union_loop op offset n True u p ws = union_loop op offset n False ?u (trm c pad) ws'"
    using co assms(2) by (simp add: ws Let_def go_slice_Ret vec_term len_sub const_term Fill_def)
  have at: "?u ! nat k = win_term trm n offset k (w, pad, ival, c)" if k: "0 \<le> k" "k < len u" for k
    using co k assms(2) nth_three_parts [of s "len w" u "map (trm c) w" k ?f ?f]
    by (auto simp: win_term_def s_def [symmetric] nat_less_len)
  have pre: "\<forall>wt\<in>set ws'. fits n (len ?u) offset wt" "len ?u < n" using assms unfolding lu ws by simp_all
  obtain u' p' where r: "union_loop op offset n False ?u (trm c pad) ws' = Ret (u', p')" "len u' = len ?u"
    "\<forall>k. 0 \<le> k \<and> k < len ?u \<longrightarrow> u' ! nat k = comb (?u ! nat k) (fold_terms comb unit_el (win_term trm n offset k) ws')"
    "p' = comb (trm c pad) (fold_terms comb unit_el (pad_term trm) ws')"
    using union_loop_more [OF pre] by blast
  have "p' = fold_terms comb unit_el (pad_term trm) ws" unfolding r(4) ws fold_Cons by (simp add: pad_term_def)
  moreover have "\<forall>k. 0 \<le> k \<and> k < len u \<longrightarrow> u' ! nat k = fold_terms comb unit_el (win_term trm n offset k) ws"
    using r(3) at unfolding lu ws fold_Cons by presburger
  ultimately show ?thesis using r(1,2) unfolding step lu by blast
qed

end

text \<open>What the operands become when the windows cover the whole circle.\<close>

definition to_regular :: "'e SmartVector \<Rightarrow> 'e SmartVector" where
  "to_regular v = (if is_window v then Regular (vals v) else v)"

lemma to_regular_ok:
  assumes "sv_ok v"
  shows "sv_ok (to_regular v)" and "Len (to_regular v) = Len v" and "vals (to_regular v) = vals v" and "\<not> is_window (to_regular v)"
proof -
  have "vals v \<noteq> []" using len_vals [OF assms] Len_pos [OF assms] by auto
  then show "sv_ok (to_regular v)" "Len (to_regular v) = Len v" "vals (to_regular v) = vals v" "\<not> is_window (to_regular v)"
    using assms len_vals [OF assms] by (auto simp: to_regular_def)
qed

lemma windows_to_regular_ok:
  "\<forall>v\<in>set svecs. sv_ok v \<Longrightarrow> windows_to_regular svecs = Ret (map to_regular svecs)"
proof (induction svecs)
  case (Cons v svecs)
  have "vals v \<noteq> []" using len_vals [of v] Len_pos [of v] Cons.prems by auto
  then show ?case using Cons by (simp add: to_regular_def IntoRegVecSaveAllocBase_ok constructors_ok)
qed simp

lemma const_ops_to_regular: "const_ops (map (\<lambda>x. (to_regular (fst x), snd x)) xs) = const_ops xs"
proof (induction xs)
  case (Cons x xs)
  then show ?case by (cases "fst x"; cases x) (auto simp: to_regular_def)
qed simp

lemma window_terms_cover:
  assumes "ops_ok n xs" and "window_ops xs \<noteq> []"
  obtains cv where "SmallestCoverInterval (map (\<lambda>(w, pad, ival, coeff). ival) (map window_term_of (window_ops xs))) = Ret cv"
    and "ival_ok n cv" and "IntervalLen cv < n \<Longrightarrow> \<forall>wt\<in>set (map window_term_of (window_ops xs)). fits n (IntervalLen cv) (istart cv) wt"
proof -
  let ?ws = "map window_term_of (window_ops xs)"
  let ?ivs = "map (\<lambda>(w, pad, ival, coeff). ival) ?ws"
  have wt: "\<exists>w pad ival c. window_term_of x = (w, pad, ival, c) \<and> ival_ok n ival \<and> IntervalLen ival = len w"
    if "x \<in> set (window_ops xs)" for x
  proof -
    have "sv_ok (fst x)" "Len (fst x) = n" "is_window (fst x)" using that assms(1) by (auto simp: ops_ok_def)
    then show ?thesis by (cases "fst x") (auto simp: window_term_of_def ival_ok_def)
  qed
  then have oks: "\<forall>c\<in>set ?ivs. ival_ok n c" by force
  have ne: "?ivs \<noteq> []" using assms(2) by simp
  obtain cv where cv: "SmallestCoverInterval ?ivs = Ret cv" "ival_ok n cv" "all_points ?ivs \<subseteq> points cv"
    using SmallestCoverInterval_ok [OF ne oks] by blast
  have "fits n (IntervalLen cv) (istart cv) wt" if l: "IntervalLen cv < n" and "wt \<in> set ?ws" for wt
  proof -
    have "wt \<in> window_term_of ` set (window_ops xs)" using that(2) by (simp only: set_map)
    then obtain x where x: "x \<in> set (window_ops xs)" "wt = window_term_of x" by blast
    obtain w pad ival c where w: "wt = (w, pad, ival, c)" "ival_ok n ival" "IntervalLen ival = len w" using wt x by blast
    have "(\<lambda>(w, pad, ival, coeff). ival) wt \<in> set ?ivs" using that(2) unfolding set_map [of _ ?ws] by (rule imageI)
    then have "ival \<in> set ?ivs" unfolding w(1) prod.case .
    then have "points ival \<subseteq> points cv" using cv(3) by (auto simp: all_points_def)
    then have "rel n cv ival + len w \<le> IntervalLen cv" using points_subset_iff [OF cv(2) w(2) l] w(3) by simp
    moreover have "(istart ival - istart cv) mod n = rel n cv ival"
      using cv(2) w(2) by (simp add: diff_mod_cases ival_ok_def rel_def)
    ultimately show ?thesis using w by (simp add: fits_def)
  qed
  then show ?thesis using that cv by blast
qed

text \<open>The window of the result, read in the coordinates of an operand.\<close>

lemma union_at:
  assumes ok: "ops_ok n xs" and x: "x \<in> set (window_ops xs)" and p: "0 \<le> p" "p < n"
    and k: "k = (p - offset) mod n"
  shows "win_term trm n offset k (window_term_of x) = term_at trm p x"
    and "fits n L offset (window_term_of x) \<Longrightarrow> L < n \<Longrightarrow> L \<le> k \<Longrightarrow> pad_term trm (window_term_of x) = term_at trm p x"
proof -
  have "sv_ok (fst x)" "Len (fst x) = n" "is_window (fst x)" using x ok by (auto simp: ops_ok_def)
  then obtain w pad off where "fst x = PaddedCircularWindow w pad n off" by (cases "fst x") auto
  then obtain c where x: "x = (PaddedCircularWindow w pad n off, c)" by (cases x) auto
  let ?s = "(off - offset) mod n"
  have kn: "0 \<le> k" "k < n" using p k by auto
  have "pcw_at w pad n off (offset + k) = win_at w pad n ?s k" using kn by (intro pcw_at_shift) auto
  moreover have "(offset + k - off) mod n = (p - off) mod n"
    using mod_add_right_eq [of "offset - off" "p - offset" n] by (simp add: k algebra_simps)
  then have "pcw_at w pad n off (offset + k) = pcw_at w pad n off p" by (simp add: pcw_at_def)
  ultimately have at: "win_at w pad n ?s k = vals (PaddedCircularWindow w pad n off) ! nat p"
    using p nth_pcw [of p n w pad off] by simp
  then show "win_term trm n offset k (window_term_of x) = term_at trm p x"
    by (simp add: x win_term_def window_term_of_def term_at_def del: vals.simps)
  assume f: "fits n L offset (window_term_of x)" and "L < n" "L \<le> k"
  then show "pad_term trm (window_term_of x) = term_at trm p x"
    using at fits_coords(5,6) [of n L offset w pad _ c] kn
    by (fastforce simp: x pad_term_def window_term_of_def term_at_def simp del: vals.simps)
qed

text \<open>
  The result of the windows: nothing, when there is no window or when the windows have become
  regular vectors, or a window that holds the combination of all the windows.
\<close>

definition window_result ::
    "('e \<Rightarrow> 'e \<Rightarrow> 'e) \<Rightarrow> 'e \<Rightarrow> (int \<Rightarrow> 'e \<Rightarrow> 'e) \<Rightarrow> int \<Rightarrow> ('e SmartVector \<times> int) list \<Rightarrow> 'e SmartVector option \<Rightarrow> int \<Rightarrow> bool" where
  "window_result comb u trm n ys wr k \<longleftrightarrow> k = int (length (window_ops ys)) \<and>
    (case wr of None \<Rightarrow> k = 0
     | Some w \<Rightarrow> 0 < k \<and> sv_ok w \<and> is_window w \<and> Len w = n
         \<and> (\<forall>p. 0 \<le> p \<and> p < n \<longrightarrow> vals w ! nat p = fold_terms comb u (term_at trm p) (window_ops ys)))"

lemma ops_ok_zip:
  "length cs = length svecs \<Longrightarrow> ops_ok n (zip svecs cs) \<longleftrightarrow> (\<forall>v\<in>set svecs. sv_ok v \<and> Len v = n)"
  by (induction svecs cs rule: list_induct2') auto

lemma zip_to_regular: "zip (map to_regular svecs) cs = map (\<lambda>x. (to_regular (fst x), snd x)) (zip svecs cs)"
  by (simp add: zip_map1 case_prod_beta)

context smart_operator
begin

lemma union_result:
  assumes ok: "ops_ok n xs" and ne: "window_ops xs \<noteq> []" and cv: "ival_ok n cv" "IntervalLen cv < n"
    and fit: "\<forall>wt\<in>set (map window_term_of (window_ops xs)). fits n (IntervalLen cv) (istart cv) wt"
  obtains u' p' w where "union_loop op (istart cv) n True (replicate (nat (IntervalLen cv)) 0) 0 (map window_term_of (window_ops xs)) = Ret (u', p')"
    and "NewPaddedCircularWindow u' p' (istart cv) n = Ret w"
    and "window_result comb unit_el trm n xs (Some w) (int (length (window_ops xs)))"
proof -
  define L offset where "L = IntervalLen cv" and "offset = istart cv"
  have L: "0 < L" "L < n" "0 \<le> offset" "offset < n" using cv by (auto simp: ival_ok_def L_def offset_def)
  have lr: "len (replicate (nat L) x) = L" for x :: 'e using L by simp
  obtain u' p' where u: "union_loop op offset n True (replicate (nat L) 0) 0 (map window_term_of (window_ops xs)) = Ret (u', p')" "len u' = L"
    "\<And>k. 0 \<le> k \<Longrightarrow> k < L \<Longrightarrow> u' ! nat k = fold_terms comb unit_el (win_term trm n offset k) (map window_term_of (window_ops xs))"
    "p' = fold_terms comb unit_el (pad_term trm) (map window_term_of (window_ops xs))"
    using union_loop_ok [of "map window_term_of (window_ops xs)" n "replicate (nat L) 0" offset 0] fit L ne
    unfolding lr L_def [symmetric] offset_def [symmetric] by auto
  have u': "u' \<noteq> []" using u(2) L by auto
  let ?w = "PaddedCircularWindow u' p' n offset"
  have w: "NewPaddedCircularWindow u' p' offset n = Ret ?w" using u' u(2) L by (simp add: constructors_ok)
  have "vals ?w ! nat p = fold_terms comb unit_el (term_at trm p) (window_ops xs)" if p: "0 \<le> p" "p < n" for p
  proof -
    define k where "k = (p - offset) mod n"
    have k: "0 \<le> k" "k < n" using p by (auto simp: k_def)
    have "vals ?w ! nat p = (if k < L then u' ! nat k else p')"
      using nth_pcw [OF p, of u' p' offset] u(2) by (simp add: pcw_at_def k_def del: vals.simps)
    also have "\<dots> = fold_terms comb unit_el (term_at trm p) (window_ops xs)"
    proof (cases "k < L")
      case True
      have "fold_terms comb unit_el (\<lambda>x. win_term trm n offset k (window_term_of x)) (window_ops xs) =
        fold_terms comb unit_el (term_at trm p) (window_ops xs)"
        by (rule fold_cong) (rule union_at(1) [OF ok _ p k_def])
      then show ?thesis using u(3) [OF k(1) True] True by (simp add: fold_map)
    next
      case False
      have "fits n L offset (window_term_of x)" if "x \<in> set (window_ops xs)" for x
        using fit that unfolding L_def offset_def set_map by blast
      then have "pad_term trm (window_term_of x) = term_at trm p x" if "x \<in> set (window_ops xs)" for x
        using union_at(2) [OF ok that p k_def] that L(2) False by (meson not_less)
      then have "fold_terms comb unit_el (\<lambda>x. pad_term trm (window_term_of x)) (window_ops xs) =
        fold_terms comb unit_el (term_at trm p) (window_ops xs)" by (rule fold_cong)
      then show ?thesis using u(4) False by (simp add: fold_map)
    qed
    finally show ?thesis .
  qed
  moreover have "0 < length (window_ops xs)" using ne by blast
  ultimately have "window_result comb unit_el trm n xs (Some ?w) (int (length (window_ops xs)))"
    using u' u(2) L unfolding window_result_def by (simp del: vals.simps)
  then show ?thesis using that u(1) w unfolding L_def offset_def by blast
qed

lemma processWindowedOnly_ok:
  assumes l: "length cs = length svecs" and ne: "svecs \<noteq> []" and ok: "ops_ok n (zip svecs cs)"
  obtains wr k svecs' where "processWindowedOnly op svecs cs = Ret (wr, k, svecs')" and "length svecs' = length svecs"
    and "ops_ok n (zip svecs' cs)" and "const_ops (zip svecs' cs) = const_ops (zip svecs cs)"
    and "\<And>p. fold_terms comb unit_el (term_at trm p) (zip svecs' cs) = fold_terms comb unit_el (term_at trm p) (zip svecs cs)"
    and "window_result comb unit_el trm n (zip svecs' cs) wr k"
proof -
  let ?xs = "zip svecs cs"
  have svs: "\<forall>v\<in>set svecs. sv_ok v \<and> Len v = n" using ok l ops_ok_zip by metis
  then have n: "Len (svecs ! 0) = n" using ne by (cases svecs) auto
  have W: "processWindowedOnly op svecs cs = (let windows = map window_term_of (window_ops ?xs) in
     if windows = [] then Ret (None, 0, svecs)
     else go_bind (SmallestCoverInterval (map (\<lambda>(w, pad, ival, coeff). ival) windows)) (\<lambda>cv.
       if IsFullCircle cv then go_bind (windows_to_regular svecs) (\<lambda>svecs'. Ret (None, 0, svecs'))
       else if Start cv < 0 then Panic ''All offset should be normalized, but Start is''
       else go_bind (union_loop op (Start cv) n True (replicate (nat (IntervalLen cv)) 0) 0 windows) (\<lambda>(u, p).
         go_bind (NewPaddedCircularWindow u p (Start cv) n) (\<lambda>res. Ret (Some res, len windows, svecs)))))"
    using n gather_windows_ok [OF ok] by (simp add: processWindowedOnly_def Let_def cong: if_cong)
  show ?thesis
  proof (cases "window_ops ?xs = []")
    case True
    then show ?thesis using that [of None 0 svecs] ok W by (simp add: window_result_def)
  next
    case False
    obtain cv where cv: "SmallestCoverInterval (map (\<lambda>(w, pad, ival, coeff). ival) (map window_term_of (window_ops ?xs))) = Ret cv" "ival_ok n cv"
      "IntervalLen cv < n \<Longrightarrow> \<forall>wt\<in>set (map window_term_of (window_ops ?xs)). fits n (IntervalLen cv) (istart cv) wt"
      using window_terms_cover [OF ok False] by metis
    show ?thesis
    proof (cases "IntervalLen cv = n")
      case True
      let ?s = "map to_regular svecs"
      have "processWindowedOnly op svecs cs = Ret (None, 0, ?s)"
        using W cv(1,2) True False windows_to_regular_ok [of svecs] svs by (simp add: IsFullCircle_def ival_ok_def)
      moreover have "ops_ok n (zip ?s cs)" "window_ops (zip ?s cs) = []"
        using ok to_regular_ok(1,2,4) unfolding zip_to_regular by (force simp: ops_ok_def filter_empty_conv)+
      moreover have "fold_terms comb unit_el (term_at trm p) (zip ?s cs) = fold_terms comb unit_el (term_at trm p) ?xs" for p
        using ok to_regular_ok(3) unfolding zip_to_regular fold_map by (intro fold_cong) (force simp: term_at_def ops_ok_def)
      ultimately show ?thesis using that [of None 0 ?s] const_ops_to_regular [of ?xs]
        by (simp add: window_result_def zip_to_regular)
    next
      case part: False
      then have lt: "IntervalLen cv < n" using cv(2) by (simp add: ival_ok_def)
      obtain u' p' w where r: "union_loop op (istart cv) n True (replicate (nat (IntervalLen cv)) 0) 0 (map window_term_of (window_ops ?xs)) = Ret (u', p')"
        "NewPaddedCircularWindow u' p' (istart cv) n = Ret w"
        "window_result comb unit_el trm n ?xs (Some w) (int (length (window_ops ?xs)))"
        using union_result [OF ok False cv(2) lt cv(3) [OF lt]] by metis
      have "processWindowedOnly op svecs cs = Ret (Some w, int (length (window_ops ?xs)), svecs)"
        using W cv(1,2) part False r(1,2) by (simp add: IsFullCircle_def ival_ok_def Start_def len_def)
      then show ?thesis using that ok r(3) by blast
    qed
  qed
qed
end

end
