(* ===== verification/Smart_Merge.thy ===== *)
theory Smart_Merge
  imports Smart_Arith
begin

text \<open>
  The regular vectors among the operands, the merge of the three partial results and the
  correctness of \<^verbatim>\<open>processOperator\<close>, \<^verbatim>\<open>LinComb\<close> and \<^verbatim>\<open>Product\<close>: the result represents the
  position-wise linear combination, or product of powers, of the operands, whatever their
  representations are.
\<close>

section \<open>The regular vectors and the merge\<close>

lemma nth_map2_int:
  "0 \<le> k \<Longrightarrow> k < len xs \<Longrightarrow> len ys = len xs \<Longrightarrow> map2 f xs ys ! nat k = f (xs ! nat k) (ys ! nat k)"
  by (simp add: len_def nat_less_iff)

lemma plain_as_regular:
  assumes "sv_ok v" and "is_plain v"
  shows "(case v of Rotated r k \<Rightarrow> rotatedAsRegular r k | _ \<Rightarrow> Ret v) = Ret (Regular (vals v))"
  using assms by (cases v) (auto simp: rotatedAsRegular_ok is_plain_def)

context smart_operator
begin

lemma regular_loop_more:
  assumes "ops_ok n xs" and "len r = n"
  shows "\<exists>r'. regular_loop op n (Some r) k xs = Ret (Some r', k + int (length (plain_ops xs))) \<and> len r' = n
    \<and> (\<forall>p. 0 \<le> p \<and> p < n \<longrightarrow> r' ! nat p = comb (r ! nat p) (fold_terms comb unit_el (term_at trm p) (plain_ops xs)))"
  using assms
proof (induction xs arbitrary: r k)
  case (Cons x xs)
  obtain v c where x: "x = (v, c)" by (cases x)
  have v: "sv_ok v" "Len v = n" using Cons.prems x by auto
  show ?case
  proof (cases "is_plain v")
    case True
    let ?r = "map2 (\<lambda>r x. comb r (trm c x)) r (vals v)"
    have lv: "len (vals v) = n" using v len_vals by metis
    have lr: "len ?r = n" using lv Cons.prems(2) by simp
    have "regular_loop op n (Some r) k (x # xs) = regular_loop op n (Some ?r) (k + 1) xs"
      using plain_as_regular [OF v(1) True] lv Cons.prems(2) by (simp add: x vec_vec)
    moreover have "?r ! nat p = comb (r ! nat p) (term_at trm p x)" if "0 \<le> p" "p < n" for p
      using that lv Cons.prems(2) nth_map2_int [of p r "vals v"] by (simp add: x term_at_def)
    ultimately show ?thesis using Cons.IH [OF _ lr, of "k + 1"] Cons.prems(1) True x by (auto simp: assoc)
  next
    case False
    then have "regular_loop op n (Some r) k (x # xs) = regular_loop op n (Some r) k xs"
      by (cases v) (auto simp: x is_plain_def)
    then show ?thesis using Cons.IH [of r k] Cons.prems False x by auto
  qed
qed auto

lemma regular_loop_ok:
  assumes "ops_ok n xs" and "0 < n"
  shows "\<exists>rr. regular_loop op n None 0 xs = Ret (rr, int (length (plain_ops xs)))
    \<and> (plain_ops xs \<noteq> [] \<longrightarrow> (\<exists>r. rr = Some r \<and> len r = n
      \<and> (\<forall>p. 0 \<le> p \<and> p < n \<longrightarrow> r ! nat p = fold_terms comb unit_el (term_at trm p) (plain_ops xs))))"
  using assms(1)
proof (induction xs)
  case (Cons x xs)
  obtain v c where x: "x = (v, c)" by (cases x)
  have v: "sv_ok v" "Len v = n" using Cons.prems x by auto
  show ?case
  proof (cases "is_plain v")
    case True
    let ?r = "map (trm c) (vals v)"
    have lv: "len (vals v) = n" using v len_vals by metis
    have "regular_loop op n None 0 (x # xs) = regular_loop op n (Some ?r) 1 xs"
      using plain_as_regular [OF v(1) True] lv assms(2) by (simp add: x vec_term assertStrictPositiveLen_def)
    moreover have "?r ! nat p = term_at trm p x" if "0 \<le> p" "p < n" for p
      using that lv nat_less_len [of p "vals v"] by (simp add: x term_at_def)
    ultimately show ?thesis using regular_loop_more [of n xs ?r 1] Cons.prems True x lv by auto
  next
    case False
    then have "regular_loop op n None 0 (x # xs) = regular_loop op n None 0 xs"
      by (cases v) (auto simp: x is_plain_def)
    then show ?thesis using Cons False x by auto
  qed
qed auto

lemma merge_const_ok:
  assumes "sv_ok w" and "is_window w" and "Len w = n"
  shows "sv_ok (merge_const op c w)" and "is_window (merge_const op c w)" and "Len (merge_const op c w) = n"
    and "\<And>p. 0 \<le> p \<Longrightarrow> p < n \<Longrightarrow> vals (merge_const op c w) ! nat p = comb (vals w ! nat p) c"
proof -
  obtain u pad off where w: "w = PaddedCircularWindow u pad n off" using assms by (cases w) auto
  show "sv_ok (merge_const op c w)" "is_window (merge_const op c w)" "Len (merge_const op c w) = n"
    using assms w by (auto simp: const_term_vec)
  fix p assume p: "0 \<le> p" "p < n"
  show "vals (merge_const op c w) ! nat p = comb (vals w ! nat p) c"
    using p nth_pcw [OF p, of u pad off] nth_pcw [OF p, of "map (\<lambda>r. comb r c) u" "comb pad c" off]
      nat_less_len [of "(p - off) mod n" u]
    by (simp add: w const_term_vec term_const pcw_at_def del: vals.simps)
qed

lemma merge_window_ok:
  assumes w: "sv_ok w" "is_window w" "Len w = n" and r: "len r = n"
  shows "\<exists>r'. merge_window op r w = Ret (Regular r') \<and> len r' = n
    \<and> (\<forall>p. 0 \<le> p \<and> p < n \<longrightarrow> r' ! nat p = comb (r ! nat p) (vals w ! nat p))"
proof -
  obtain u pad off where wd: "w = PaddedCircularWindow u pad n off" using w by (cases w) auto
  have ok: "u \<noteq> []" "len u < n" "0 \<le> off" "off < n" using w wd by auto
  let ?i = "\<lparr>circleSize = n, istart = off, IntervalLen = len u\<rparr>"
  note i = pcw_interval_ok [OF w(1) [unfolded wd]]
  let ?f = "\<lambda>x. comb x pad"
  have at: "vals w ! nat p = win_at u pad n off p" if "0 \<le> p" "p < n" for p
    using that ok by (simp add: wd vals_pcw_nth del: vals.simps)
  show ?thesis
  proof (cases "off + len u < n")
    case True
    have st: "Start ?i = off" "Stop ?i = off + len u" "\<not> DoesWrapAround ?i"
      using Stop_iff [of n ?i] i True ok by (auto simp: Start_def DoesWrapAround_def)
    let ?m = "map2 comb (sub r off (off + len u)) u"
    let ?r = "map ?f (sub r 0 off) @ ?m @ map ?f (sub r (off + len u) (len r))"
    have lm: "len ?m = len u" using True ok r by (simp add: len_sub)
    have "merge_window op r w = Ret (Regular ?r)"
      using i st True ok r by (simp add: merge_window_def wd Let_def go_slice_Ret term_vec len_sub const_term_vec)
    moreover have "?r ! nat p = comb (r ! nat p) (vals w ! nat p)" if p: "0 \<le> p" "p < n" for p
      using nth_three_parts [of off "len u" r ?m p ?f ?f] lm at [OF p] p True ok r
        nth_map2_int [of "p - off" "sub r off (off + len u)" u comb] nth_sub_int [of off "p - off" "off + len u" r]
      by (auto simp: win_at_def len_sub)
    moreover have "len ?r = n" using len_three_parts [of off "len u" r ?m ?f ?f] lm True ok r by simp
    ultimately show ?thesis by blast
  next
    case False
    define e where "e = off + len u - n"
    have st: "Start ?i = off" "Stop ?i = e" "DoesWrapAround ?i"
      using Stop_iff [of n ?i] i False ok by (auto simp: Start_def DoesWrapAround_def e_def)
    have e: "0 \<le> e" "e < off" "len u = n - off + e" using False ok by (auto simp: e_def)
    let ?a = "map2 comb (sub r 0 e) (sub u (n - off) (len u))"
    let ?b = "map2 comb (sub r off n) (sub u 0 (n - off))"
    let ?r = "?a @ map ?f (sub r e off) @ ?b"
    have la: "len ?a = e" and lb: "len ?b = n - off" using e ok r by (simp_all add: len_sub)
    have "merge_window op r w = Ret (Regular ?r)"
      using i st e ok r by (simp add: merge_window_def wd Let_def go_slice_Ret term_vec len_sub const_term_vec)
    moreover have "?r ! nat p = comb (r ! nat p) (vals w ! nat p)" if p: "0 \<le> p" "p < n" for p
      using at [OF p] p e ok r la lb
        nth_map2_int [of p "sub r 0 e" "sub u (n - off) (len u)" comb]
        nth_map2_int [of "p - off" "sub r off n" "sub u 0 (n - off)" comb]
      by (auto simp: nth_append_int len_sub nth_map_sub nth_sub_int win_at_def algebra_simps)
    moreover have "len ?r = n" using la lb e ok r by (simp add: len_sub)
    ultimately show ?thesis by blast
  qed
qed
end

section \<open>The operator on smart-vectors\<close>

text \<open>\<open>tabulate\<close>: the vector of length \<open>n\<close> whose value at each position is \<open>f\<close> of it.\<close>

definition tabulate :: "int \<Rightarrow> (int \<Rightarrow> 'e) \<Rightarrow> 'e list" where
  "tabulate n f = map (\<lambda>i. f (int i)) [0..<nat n]"

lemma tabulateI:
  assumes "sv_ok v" and "Len v = n" and "\<And>p. 0 \<le> p \<Longrightarrow> p < n \<Longrightarrow> vals v ! nat p = f p"
  shows "represents (Ret v) (tabulate n f)"
proof -
  have n: "0 < n" using Len_pos [of v] assms by simp
  have lt: "len (tabulate n f) = n" using n unfolding tabulate_def len_def by simp
  have "vals v = tabulate n f"
    by (rule list_eq_int [OF _ lt]) (use assms len_vals [of v] in \<open>auto simp: tabulate_def nat_less_iff\<close>)
  then show ?thesis using assms by (simp add: representsI [OF refl])
qed

lemma tabulate_regular:
  assumes "0 < n" and "len r = n" and "\<And>p. 0 \<le> p \<Longrightarrow> p < n \<Longrightarrow> r ! nat p = f p"
  shows "represents (Ret (Regular r)) (tabulate n f)"
  using assms by (intro tabulateI) auto

lemma assert_lengths_ok: "\<forall>v\<in>set svecs. Len v = n \<Longrightarrow> assert_lengths n svecs = Ret ()"
  by (induction svecs) (auto simp: assertHasLength_def)

lemma lincomb_check_ok: "\<forall>v\<in>set svecs. Len v = n \<Longrightarrow> lincomb_check n svecs = Ret ()"
  by (induction svecs) auto

context smart_operator
begin

text \<open>The window result after the constants have been merged into it.\<close>

lemma window_merged:
  assumes wr: "window_result comb unit_el trm n xs wr0 mw" and mw: "0 < mw" and mc: "mc = int (length (const_ops xs))"
    and cv: "\<And>p. const_ops xs \<noteq> [] \<Longrightarrow> 0 \<le> p \<Longrightarrow> p < n \<Longrightarrow> cv = fold_terms comb unit_el (term_at trm p) (const_ops xs)"
  obtains w where "(if mw > 0 \<and> mc > 0 then map_option (merge_const op cv) wr0 else wr0) = Some w"
    and "sv_ok w" and "is_window w" and "Len w = n"
    and "\<And>p. 0 \<le> p \<Longrightarrow> p < n \<Longrightarrow> vals w ! nat p =
      comb (fold_terms comb unit_el (term_at trm p) (const_ops xs)) (fold_terms comb unit_el (term_at trm p) (window_ops xs))"
proof -
  let ?F = "\<lambda>p. fold_terms comb unit_el (term_at trm p)"
  obtain w0 where w0: "wr0 = Some w0" "sv_ok w0" "is_window w0" "Len w0 = n"
    "\<And>p. 0 \<le> p \<Longrightarrow> p < n \<Longrightarrow> vals w0 ! nat p = ?F p (window_ops xs)"
    using wr mw by (auto simp: window_result_def split: option.splits)
  note m = merge_const_ok [OF w0(2-4)]
  show ?thesis
  proof (cases "const_ops xs = []")
    case True
    then show ?thesis using w0 mc by (intro that [of w0]) auto
  next
    case False
    then have "vals (merge_const op cv w0) ! nat p = comb (?F p (const_ops xs)) (?F p (window_ops xs))"
      if "0 \<le> p" "p < n" for p using m(4) [OF that] w0(5) [OF that] cv [OF False that] by (simp add: commute)
    then show ?thesis using w0(1) m(1-3) mc mw False by (intro that [of "merge_const op cv w0"]) auto
  qed
qed

text \<open>Without windows, the regular result is merged with the constant, if there is one.\<close>

lemma finish_no_windows:
  assumes r: "processRegularOnly op svecs cs = Ret (Some r, mr)" "len r = n" "0 < n"
      "\<And>p. 0 \<le> p \<Longrightarrow> p < n \<Longrightarrow> r ! nat p = fold_terms comb unit_el (term_at trm p) (plain_ops (zip svecs cs))"
    and cnt: "mc + mr = len svecs" and wo: "window_ops (zip svecs cs) = []" and mc: "mc = int (length (const_ops (zip svecs cs)))"
    and cr: "const_ops (zip svecs cs) \<noteq> [] \<Longrightarrow> cr = Some (cv, n)"
    and cv: "\<And>p. const_ops (zip svecs cs) \<noteq> [] \<Longrightarrow> 0 \<le> p \<Longrightarrow> p < n \<Longrightarrow>
      cv = fold_terms comb unit_el (term_at trm p) (const_ops (zip svecs cs))"
  shows "represents (finish_operator op cs cr mc wr 0 svecs) (tabulate n (\<lambda>p. fold_terms comb unit_el (term_at trm p) (zip svecs cs)))"
proof (cases "mc = 0")
  case True
  then have "finish_operator op cs cr mc wr 0 svecs = Ret (Regular r)"
    using r(1) cnt by (simp add: finish_operator_def deref_def)
  then show ?thesis using tabulate_regular [OF r(3,2)] r(4) fold_kinds [of _ "zip svecs cs"] wo mc True by simp
next
  case False
  then have co: "const_ops (zip svecs cs) \<noteq> []" using mc by auto
  then have "finish_operator op cs cr mc wr 0 svecs = Ret (Regular (map (\<lambda>r. comb r cv) r))"
    using r(1) cnt False cr by (simp add: finish_operator_def deref_def const_term_vec)
  then show ?thesis using tabulate_regular [OF r(3), of "map (\<lambda>r. comb r cv) r"] r(2,4) fold_kinds [of _ "zip svecs cs"] wo cv [OF co]
    by (auto simp: nat_less_len commute)
qed

lemma finish_operator_ok:
  assumes l: "length cs = length svecs" and ne: "svecs \<noteq> []" and ok: "ops_ok n (zip svecs cs)"
    and wr: "window_result comb unit_el trm n (zip svecs cs) wr0 mw"
    and mc: "mc = int (length (const_ops (zip svecs cs)))"
    and cr: "const_ops (zip svecs cs) \<noteq> [] \<Longrightarrow> cr = Some (cv, n)"
    and cv: "\<And>p. const_ops (zip svecs cs) \<noteq> [] \<Longrightarrow> 0 \<le> p \<Longrightarrow> p < n \<Longrightarrow>
      cv = fold_terms comb unit_el (term_at trm p) (const_ops (zip svecs cs))"
    and rest: "mw + mc \<noteq> len svecs"
  shows "represents (finish_operator op cs cr mc (if mw > 0 \<and> mc > 0 then map_option (merge_const op cv) wr0 else wr0) mw svecs)
    (tabulate n (\<lambda>p. fold_terms comb unit_el (term_at trm p) (zip svecs cs)))"
proof -
  let ?xs = "zip svecs cs"
  let ?F = "\<lambda>p. fold_terms comb unit_el (term_at trm p)"
  have svs: "\<forall>v\<in>set svecs. sv_ok v \<and> Len v = n" using ok l ops_ok_zip by metis
  then have n: "Len (svecs ! 0) = n" "0 < n" using ne Len_pos by (cases svecs; force)+
  have cnt: "mc + mw + int (length (plain_ops ?xs)) = len svecs"
    using kinds_count [of ?xs] wr mc l by (simp add: window_result_def len_def)
  then have "plain_ops ?xs \<noteq> []" using rest by auto
  then obtain r where r: "processRegularOnly op svecs cs = Ret (Some r, int (length (plain_ops ?xs)))" "len r = n"
    "\<And>p. 0 \<le> p \<Longrightarrow> p < n \<Longrightarrow> r ! nat p = ?F p (plain_ops ?xs)"
    using regular_loop_ok [OF ok n(2)] n(1) by (auto simp: processRegularOnly_def)
  show ?thesis
  proof (cases "mw = 0")
    case True
    then have "window_ops ?xs = []" using wr by (simp add: window_result_def)
    then show ?thesis using finish_no_windows [OF r(1,2) n(2) r(3) _ _ mc cr cv] cnt True by simp
  next
    case False
    then have mw: "0 < mw" using wr by (auto simp: window_result_def)
    obtain w where w: "(if mw > 0 \<and> mc > 0 then map_option (merge_const op cv) wr0 else wr0) = Some w" "sv_ok w" "is_window w" "Len w = n"
      "\<And>p. 0 \<le> p \<Longrightarrow> p < n \<Longrightarrow> vals w ! nat p = comb (?F p (const_ops ?xs)) (?F p (window_ops ?xs))"
      by (rule window_merged [OF wr mw mc cv]) blast+
    obtain r' where r': "merge_window op r w = Ret (Regular r')" "len r' = n"
      "\<And>p. 0 \<le> p \<Longrightarrow> p < n \<Longrightarrow> r' ! nat p = comb (r ! nat p) (vals w ! nat p)"
      using merge_window_ok [OF w(2-4) r(2)] by blast
    have "finish_operator op cs cr mc (Some w) mw svecs = Ret (Regular r')"
      using r(1) cnt mw r'(1) mc by (simp add: finish_operator_def deref_def)
    then show ?thesis unfolding w(1) using tabulate_regular [OF n(2) r'(2)] r'(3) r(3) w(5) fold_kinds [of _ ?xs] by (simp add: ac_simps)
  qed
qed

lemma processConstOnly_ok:
  assumes l: "length cs = length svecs" and ne: "svecs \<noteq> []" and ok: "ops_ok n (zip svecs cs)" and p: "0 \<le> p" "p < n"
  shows "processConstOnly op svecs cs = (if const_ops (zip svecs cs) = [] then (None, 0)
    else (Some (fold_terms comb unit_el (term_at trm p) (const_ops (zip svecs cs)), n), int (length (const_ops (zip svecs cs)))))"
proof -
  have "Len (svecs ! 0) = n" using ok l ne by (cases svecs; cases cs) auto
  then show ?thesis using const_loop_ok [OF ok p] by (simp add: processConstOnly_def)
qed

lemma window_phase_ok:
  assumes l: "length cs = length svecs" and ne: "svecs \<noteq> []" and ok: "ops_ok n (zip svecs cs)"
    and mc: "mc = int (length (const_ops (zip svecs cs)))" "mc \<noteq> len svecs"
    and cr: "cr = (if const_ops (zip svecs cs) = [] then None else Some (cv, n))"
    and cv: "\<And>p. 0 \<le> p \<Longrightarrow> p < n \<Longrightarrow> fold_terms comb unit_el (term_at trm p) (const_ops (zip svecs cs)) = cv"
  shows "represents (window_phase op cs svecs cr mc) (tabulate n (\<lambda>p. fold_terms comb unit_el (term_at trm p) (zip svecs cs)))"
proof -
  let ?F = "\<lambda>p. fold_terms comb unit_el (term_at trm p)"
  obtain wr0 mw svecs' where W: "processWindowedOnly op svecs cs = Ret (wr0, mw, svecs')" "length svecs' = length svecs"
    "ops_ok n (zip svecs' cs)" "const_ops (zip svecs' cs) = const_ops (zip svecs cs)" "\<And>p. ?F p (zip svecs' cs) = ?F p (zip svecs cs)"
    "window_result comb unit_el trm n (zip svecs' cs) wr0 mw"
    using processWindowedOnly_ok [OF l ne ok] by metis
  let ?ys = "zip svecs' cs"
  define wr where "wr = (if mw > 0 \<and> mc > 0 then map_option (merge_const op cv) wr0 else wr0)"
  have cre: "(if mw > 0 \<and> mc > 0 then case cr of Some (c, _) \<Rightarrow> map_option (merge_const op c) wr0 | None \<Rightarrow> wr0 else wr0) = wr"
    using mc by (auto simp: wr_def cr)
  have form: "window_phase op cs svecs cr mc = (if mw = len svecs then deref wr0 else if mw + mc = len svecs then deref wr
      else finish_operator op cs cr mc wr mw svecs')"
    using W(1) cre by (simp add: window_phase_def Let_def)
  have cnt: "mc + mw + int (length (plain_ops ?ys)) = len svecs"
    using kinds_count [of ?ys] W(2,4,6) mc l by (simp add: window_result_def len_def)
  have mc': "mc = int (length (const_ops ?ys))" using W(4) mc by simp
  have cv': "cv = ?F p (const_ops ?ys)" if "0 \<le> p" "p < n" for p using cv [OF that] W(4) by simp
  show ?thesis
  proof (cases "mw + mc = len svecs")
    case True
    have mw: "0 < mw" using W(6) True mc(2) by (cases "mw = 0") (auto simp: window_result_def)
    have "int (length (plain_ops ?ys)) = 0" using cnt True by linarith
    then have pl: "plain_ops ?ys = []" by simp
    obtain w where w: "wr = Some w" "sv_ok w" "is_window w" "Len w = n"
      "\<And>p. 0 \<le> p \<Longrightarrow> p < n \<Longrightarrow> vals w ! nat p = comb (?F p (const_ops ?ys)) (?F p (window_ops ?ys))"
      unfolding wr_def by (rule window_merged [OF W(6) mw mc' cv']) blast+
    have "window_phase op cs svecs cr mc = Ret w"
      using form True w(1) mc mw by (cases "mc = 0") (auto simp: deref_def wr_def)
    then show ?thesis using tabulateI [OF w(2,4)] w(5) fold_kinds [of _ ?ys] pl W(5) by simp
  next
    case False
    have "mw \<noteq> len svecs" using cnt mc False by auto
    then have "window_phase op cs svecs cr mc = finish_operator op cs cr mc wr mw svecs'" using form False by simp
    moreover have "represents (finish_operator op cs cr mc wr mw svecs') (tabulate n (\<lambda>p. ?F p ?ys))"
      unfolding wr_def by (rule finish_operator_ok [OF _ _ W(3,6) mc' _ cv']) (use W(2,4) l ne cr False in \<open>auto simp: len_def\<close>)
    ultimately show ?thesis using W(5) by simp
  qed
qed

lemma processOperator_ok:
  assumes l: "length cs = length svecs" and ne: "svecs \<noteq> []" and svs: "\<forall>v\<in>set svecs. sv_ok v \<and> Len v = n"
  shows "represents (processOperator op cs svecs) (tabulate n (\<lambda>p. fold_terms comb unit_el (term_at trm p) (zip svecs cs)))"
proof -
  let ?xs = "zip svecs cs"
  let ?F = "\<lambda>p. fold_terms comb unit_el (term_at trm p)"
  have ok: "ops_ok n ?xs" using svs l ops_ok_zip by metis
  have n: "Len (svecs ! 0) = n" "0 < n" using ne svs Len_pos by (cases svecs; force)+
  define cv mc cr where "cv = ?F 0 (const_ops ?xs)" and "mc = int (length (const_ops ?xs))"
    and "cr = (if const_ops ?xs = [] then None else Some (cv, n))"
  have const: "processConstOnly op svecs cs = (cr, mc)"
    using processConstOnly_ok [OF l ne ok, of 0] n(2) by (simp add: cr_def mc_def cv_def)
  have cvp: "?F p (const_ops ?xs) = cv" if "0 \<le> p" "p < n" for p
    using processConstOnly_ok [OF l ne ok that] const by (cases "const_ops ?xs = []") (auto simp: cr_def cv_def)
  have "processOperator op cs svecs =
     (if mc = len svecs then go_bind (deref cr) (\<lambda>(c, n). Ret (Constant c n))
      else if op = productOp \<and> map_option fst cr = Some 0 then go_bind (deref cr) (\<lambda>(c, n). Ret (Constant c n))
      else window_phase op cs svecs cr mc)"
    using l ne assert_lengths_ok [of svecs n] svs n const by (simp add: processOperator_def assertStrictPositiveLen_def len_def)
  moreover have "represents (go_bind (deref cr) (\<lambda>(c, n). Ret (Constant c n))) (tabulate n (\<lambda>p. ?F p ?xs))"
    if "mc = len svecs \<or> op = productOp \<and> map_option fst cr = Some 0"
  proof -
    have co: "const_ops ?xs \<noteq> []" using that ne by (auto simp: mc_def cr_def)
    have "cv = ?F p ?xs" if p: "0 \<le> p" "p < n" for p
    proof (cases "mc = len svecs")
      case True
      then have "int (length (window_ops ?xs)) + int (length (plain_ops ?xs)) = 0"
        using kinds_count [of ?xs] l unfolding mc_def len_def by simp
      then have "length (window_ops ?xs) = 0" "length (plain_ops ?xs) = 0" by linarith+
      then have "window_ops ?xs = []" "plain_ops ?xs = []" by blast+
      then show ?thesis using fold_kinds [of _ ?xs] cvp [OF p] by simp
    next
      case False
      then have "op = productOp" "cv = 0" using \<open>mc = len svecs \<or> _\<close> co by (auto simp: cr_def)
      then show ?thesis using fold_kinds [of _ ?xs] cvp [OF p] absorbing by simp
    qed
    then show ?thesis using co n(2) tabulateI [of "Constant cv n" n] by (auto simp: cr_def deref_def nat_less_iff)
  qed
  moreover have "mc \<noteq> len svecs \<Longrightarrow> represents (window_phase op cs svecs cr mc) (tabulate n (\<lambda>p. ?F p ?xs))"
    using window_phase_ok [OF l ne ok mc_def _ cr_def] cvp by simp
  ultimately show ?thesis by presburger
qed

end

section \<open>Linear combinations and products\<close>

lemma fold_terms_sum: "fold_terms (+) 0 f xs = (\<Sum>x\<leftarrow>xs. f x)"
  by (induction xs) (auto simp: fold_terms_def)

lemma fold_terms_prod: "fold_terms (*) 1 f xs = prod_list (map f xs)"
  by (induction xs) (auto simp: fold_terms_def)

lemma LinComb_ok:
  assumes "length cs = length svecs" and "svecs \<noteq> []" and "\<forall>v\<in>set svecs. sv_ok v \<and> Len v = n"
  shows "represents (LinComb cs svecs) (tabulate n (\<lambda>p. \<Sum>x\<leftarrow>zip svecs cs. of_int (snd x) * vals (fst x) ! nat p))"
proof -
  have "Len (svecs ! 0) = n" using assms by (cases svecs) auto
  then have "LinComb cs svecs = processOperator linCombOp cs svecs"
    using assms lincomb_check_ok [of svecs n] by (simp add: LinComb_def)
  then show ?thesis using lin.processOperator_ok [OF assms] by (simp add: fold_terms_sum term_at_def)
qed

lemma Product_ok:
  assumes "length es = length svecs" and "svecs \<noteq> []" and "\<forall>v\<in>set svecs. sv_ok v \<and> Len v = n"
  shows "represents (Product es svecs) (tabulate n (\<lambda>p. prod_list (map (\<lambda>x. power_int (vals (fst x) ! nat p) (snd x)) (zip svecs es))))"
  using prd.processOperator_ok [OF assms] by (simp add: Product_def fold_terms_prod term_at_def [abs_def])

section \<open>Properties\<close>

text \<open>
  C15: LinComb and Product compute on compressed vectors what they should on the represented ones:
  for well-formed smart-vectors of the same length, in any mix of representations, and as many
  integer coefficients, LinComb returns a smart-vector that represents the position-wise linear
  combination and Product one that represents the position-wise product of powers. A power is that of
  the field, so a zero entry with coefficient 0 contributes the factor 1.
\<close>

theorem operators_pointwise:
  assumes "length cs = length svecs" and "svecs \<noteq> []" and "\<forall>v\<in>set svecs. sv_ok v \<and> Len v = n"
  shows "represents (LinComb cs svecs) (tabulate n (\<lambda>p. \<Sum>x\<leftarrow>zip svecs cs. of_int (snd x) * vals (fst x) ! nat p))
    \<and> represents (Product cs svecs) (tabulate n (\<lambda>p. prod_list (map (\<lambda>x. power_int (vals (fst x) ! nat p) (snd x)) (zip svecs cs))))"
  using LinComb_ok [OF assms] Product_ok [OF assms] by blast

theorem operators_pointwise_witness:
  "represents (LinComb [2, -1, 3, 1] [Constant 1 4, PaddedCircularWindow [1, 2] 0 4 3, Rotated [1, 2, 3, 4] 1, PaddedCircularWindow [5] (1::rat) 4 1])
    (tabulate 4 (\<lambda>p. \<Sum>x\<leftarrow>zip [Constant 1 4, PaddedCircularWindow [1, 2] 0 4 3, Rotated [1, 2, 3, 4] 1, PaddedCircularWindow [5] 1 4 1] [2, -1, 3, 1].
      of_int (snd x) * vals (fst x) ! nat p))
   \<and> represents (Product [0, 2] [Constant (0::rat) 2, Regular [3, 5]]) [9, 25]"
proof -
  have "length [0, 2 :: int] = length [Constant (0::rat) 2, Regular [3, 5]]" "[Constant (0::rat) 2, Regular [3, 5]] \<noteq> []"
    "\<forall>v\<in>set [Constant (0::rat) 2, Regular [3, 5]]. sv_ok v \<and> Len v = 2" by simp_all
  from operators_pointwise [OF this] have p: "represents (Product [0, 2] [Constant (0::rat) 2, Regular [3, 5]]) [9, 25]"
    by (simp add: tabulate_def eval_nat_numeral)
  let ?vs = "[Constant 1 4, PaddedCircularWindow [1, 2] 0 4 3, Rotated [1, 2, 3, 4] 1, PaddedCircularWindow [5] (1::rat) 4 1]"
  have "length [2, -1, 3, 1 :: int] = length ?vs" "?vs \<noteq> []" "\<forall>v\<in>set ?vs. sv_ok v \<and> Len v = 4" by simp_all
  from operators_pointwise [OF this] p show ?thesis by blast
qed

end
