(* ===== verification/Smart_Basic.thy ===== *)
theory Smart_Basic
  imports Smart_Merge
begin

text \<open>
  The named operations of \<^verbatim>\<open>prover/maths/common/smartvectors/arithmetic_basic.go\<close> (sums, products,
  the inner product, the linear combination by powers of a scalar, inverses, the zero test), the
  polynomial operations of \<^verbatim>\<open>polynomial.go\<close> that do not need an FFT, and \<^verbatim>\<open>poly.Eval\<close>.
  Each is proved equal to what it computes on the represented vectors.
\<close>

section \<open>Operations\<close>

definition Add :: "'e::field SmartVector list \<Rightarrow> 'e SmartVector go" where
  "Add vecs = LinComb (replicate (length vecs) 1) vecs"

definition Mul :: "'e::field SmartVector list \<Rightarrow> 'e SmartVector go" where
  "Mul vecs = Product (replicate (length vecs) 1) vecs"

definition ScalarMul :: "'e::field SmartVector \<Rightarrow> 'e \<Rightarrow> 'e SmartVector go" where
  "ScalarMul vec x = go_bind (NewConstant x (Len vec)) (\<lambda>xVec. Mul [vec, xVec])"

fun inner_loop :: "'e::field SmartVector \<Rightarrow> 'e SmartVector \<Rightarrow> 'e \<Rightarrow> nat list \<Rightarrow> 'e go" where
  "inner_loop a b res [] = Ret res"
| "inner_loop a b res (i # is) =
    go_bind (Get a (int i)) (\<lambda>x. go_bind (Get b (int i)) (\<lambda>y. inner_loop a b (res + x * y) is))"

definition InnerProduct :: "'e::field SmartVector \<Rightarrow> 'e SmartVector \<Rightarrow> 'e go" where
  "InnerProduct a b = (if Len a \<noteq> Len b then Panic ''length mismatch'' else inner_loop a b 0 [0..<nat (Len a)])"

text \<open>\<^verbatim>\<open>poly.Eval\<close>: Horner's rule from the last coefficient down.\<close>

definition poly_Eval :: "'e::field list \<Rightarrow> 'e \<Rightarrow> 'e" where
  "poly_Eval pol x = foldr (\<lambda>a res. res * x + a) pol 0"

text \<open>The local variables of \<^verbatim>\<open>LinearCombination\<close>.\<close>

record 'e lc_state =
  lc_xPow :: 'e
  lc_resReg :: "'e list"
  lc_tmpVec :: "'e list"
  lc_resCon :: 'e
  lc_anyReg :: bool
  lc_anyCon :: bool

definition accumulateReg :: "'e::field list \<Rightarrow> 'e list \<Rightarrow> 'e \<Rightarrow> 'e list go" where
  "accumulateReg acc v x = for_range (\<lambda>a y. a + y * x) acc v"

definition lc_step :: "'e::field \<Rightarrow> 'e SmartVector \<Rightarrow> 'e lc_state \<Rightarrow> 'e lc_state go" where
  "lc_step x v0 st =
    go_bind (case v0 of Rotated r k \<Rightarrow> rotatedAsRegular r k | _ \<Rightarrow> Ret v0) (\<lambda>v.
    go_bind
      (case v of
         Constant val n \<Rightarrow> Ret (st\<lparr>lc_anyCon := True, lc_resCon := lc_resCon st + val * lc_xPow st\<rparr>)
       | Regular r \<Rightarrow>
         go_bind (accumulateReg (lc_resReg st) r (lc_xPow st)) (\<lambda>acc. Ret (st\<lparr>lc_anyReg := True, lc_resReg := acc\<rparr>))
       | PaddedCircularWindow w pad n off \<Rightarrow>
         go_bind (PaddedCircularWindow_WriteInSlice w pad n off (lc_tmpVec st)) (\<lambda>tmp.
         go_bind (accumulateReg (lc_resReg st) tmp (lc_xPow st)) (\<lambda>acc.
           Ret (st\<lparr>lc_anyReg := True, lc_tmpVec := tmp, lc_resReg := acc\<rparr>)))
       | Rotated r k \<Rightarrow> Panic ''unexpected type'')
      (\<lambda>st1. Ret (st1\<lparr>lc_xPow := x * lc_xPow st1\<rparr>)))"

fun lc_loop :: "'e::field \<Rightarrow> 'e SmartVector list \<Rightarrow> 'e lc_state \<Rightarrow> 'e lc_state go" where
  "lc_loop x [] st = Ret st"
| "lc_loop x (v # vs) st = go_bind (lc_step x v st) (lc_loop x vs)"

primrec const_value :: "'e::zero SmartVector \<Rightarrow> 'e" where
  "const_value (Constant x n) = x"
| "const_value (Regular r) = 0"
| "const_value (Rotated r k) = 0"
| "const_value (PaddedCircularWindow w pad n off) = 0"

definition LinearCombination :: "'e::field SmartVector list \<Rightarrow> 'e \<Rightarrow> 'e SmartVector go" where
  "LinearCombination vecs x =
    (if vecs = [] then Panic ''no input vectors'' else
     let n = Len (vecs ! 0) in
     if list_all is_constant vecs then NewConstant (poly_Eval (map const_value vecs) x) n
     else if n < 0 then Panic ''makeslice: len out of range''
     else go_bind (lc_loop x vecs \<lparr>lc_xPow = 1, lc_resReg = replicate (nat n) 0, lc_tmpVec = replicate (nat n) 0,
         lc_resCon = 0, lc_anyReg = False, lc_anyCon = False\<rparr>) (\<lambda>st.
       if lc_anyCon st \<and> lc_anyReg st then NewRegular (map (\<lambda>r. r + lc_resCon st) (lc_resReg st))
       else if lc_anyCon st \<and> \<not> lc_anyReg st then NewConstant (lc_resCon st) n
       else if \<not> lc_anyCon st \<and> lc_anyReg st then NewRegular (lc_resReg st)
       else Panic ''unreachable''))"

text \<open>
  \<^verbatim>\<open>field.BatchInvert\<close> is gnark's function; it is the parameter \<open>batch_inv\<close>, which is documented to
  invert every element and to leave zero at zero.
\<close>

primrec BatchInvert :: "('e::field list \<Rightarrow> 'e list) \<Rightarrow> 'e SmartVector \<Rightarrow> 'e SmartVector go" where
  "BatchInvert batch_inv (Constant val n) = Ret (Constant (inverse val) n)"
| "BatchInvert batch_inv (PaddedCircularWindow w pad n off) = Ret (PaddedCircularWindow (batch_inv w) (inverse pad) n off)"
| "BatchInvert batch_inv (Rotated r k) = NewRotated (batch_inv r) k"
| "BatchInvert batch_inv (Regular r) = NewRegular (batch_inv r)"

definition zero_flag :: "'e::field \<Rightarrow> 'e" where
  "zero_flag x = (if x = 0 then 1 else 0)"

primrec IsZero :: "'e::field SmartVector \<Rightarrow> 'e SmartVector go" where
  "IsZero (Constant val n) = Ret (Constant (zero_flag val) n)"
| "IsZero (PaddedCircularWindow w pad n off) = Ret (PaddedCircularWindow (map zero_flag w) (zero_flag pad) n off)"
| "IsZero (Rotated r k) = NewRotated (map zero_flag r) k"
| "IsZero (Regular r) = NewRegular (map zero_flag r)"

text \<open>The numbers of copies passed to \<^verbatim>\<open>field.NewElement\<close> are lengths, at least 0 and below \<open>2 ^ 63\<close>.\<close>

definition sum_elements :: "'e::field list \<Rightarrow> 'e" where
  "sum_elements v = fold (\<lambda>x res. res + x) v 0"

primrec Sum :: "'e::field SmartVector \<Rightarrow> 'e" where
  "Sum (Regular r) = sum_elements r"
| "Sum (PaddedCircularWindow w pad n off) = sum_elements w + of_int (n - len w) * pad"
| "Sum (Constant val n) = of_int n * val"
| "Sum (Rotated r k) = sum_elements r"

section \<open>Polynomials in coefficient form\<close>

fun poly_add_loop :: "'e::field SmartVector \<Rightarrow> nat list \<Rightarrow> 'e list \<Rightarrow> 'e list go" where
  "poly_add_loop small [] res = Ret res"
| "poly_add_loop small (i # is) res =
    go_bind (Get small (int i)) (\<lambda>x. go_bind (go_nth res (int i)) (\<lambda>r. poly_add_loop small is (res[i := r + x])))"

definition PolyAdd :: "'e::field SmartVector \<Rightarrow> 'e SmartVector \<Rightarrow> 'e SmartVector go" where
  "PolyAdd a b =
    (let (small, large) = (if Len a > Len b then (b, a) else (a, b)) in
     go_bind (WriteInSlice large (replicate (nat (Len large)) 0)) (\<lambda>res0.
     go_bind (poly_add_loop small [0..<nat (Len small)] res0) NewRegular))"

fun poly_sub_loop :: "'e::field SmartVector \<Rightarrow> nat list \<Rightarrow> 'e list \<Rightarrow> 'e list go" where
  "poly_sub_loop b [] res = Ret res"
| "poly_sub_loop b (i # is) res =
    go_bind (Get b (int i)) (\<lambda>x. go_bind (go_nth res (int i)) (\<lambda>r. poly_sub_loop b is (res[i := r - x])))"

definition PolySub :: "'e::field SmartVector \<Rightarrow> 'e SmartVector \<Rightarrow> 'e SmartVector go" where
  "PolySub a b =
    (let maxLen = max (Len a) (Len b); res0 = replicate (nat maxLen) 0 in
     go_bind (go_slice res0 0 (Len a)) (\<lambda>part.
     go_bind (WriteInSlice a part) (\<lambda>part'.
     go_bind (poly_sub_loop b [0..<nat (Len b)] (part' @ drop (nat (Len a)) res0)) NewRegular)))"

text \<open>The loop of \<^verbatim>\<open>EvalCoeffBivariate\<close>: one value per chunk of \<^verbatim>\<open>numCoeffX\<close> coefficients.\<close>

definition fold_on_x :: "'e::field list \<Rightarrow> nat \<Rightarrow> 'e \<Rightarrow> 'e list" where
  "fold_on_x coefs m x = map (\<lambda>j. poly_Eval (take m (drop (j * m) coefs)) x) [0..<length coefs div m]"

definition EvalCoeffBivariate :: "'e::field SmartVector \<Rightarrow> 'e \<Rightarrow> int \<Rightarrow> 'e \<Rightarrow> 'e go" where
  "EvalCoeffBivariate v x numCoeffX y =
    (if numCoeffX = 0 then Panic ''integer divide by zero''
     else if go_rem (Len v) numCoeffX \<noteq> 0 then Panic ''size of v and nb coeff x are inconsistent''
     else go_bind (WriteInSlice v (replicate (nat (Len v)) 0)) (\<lambda>coefs.
       if numCoeffX < 0 then Panic ''makeslice: len out of range''
       else Ret (poly_Eval (fold_on_x coefs (nat numCoeffX) x) y)))"

section \<open>Sums, products and the inner product\<close>

lemma represents_cong: "represents r xs \<Longrightarrow> xs = ys \<Longrightarrow> represents r ys"
  by simp

lemma tabulate_cong: "(\<And>p. 0 \<le> p \<Longrightarrow> p < n \<Longrightarrow> f p = g p) \<Longrightarrow> tabulate n f = tabulate n g"
  by (auto simp: tabulate_def)

lemma zip_replicate_map: "map f (zip xs (replicate (length xs) c)) = map (\<lambda>x. f (x, c)) xs"
  by (induction xs) auto

lemma Add_ok:
  assumes "vecs \<noteq> []" and "\<forall>v\<in>set vecs. sv_ok v \<and> Len v = n"
  shows "represents (Add vecs) (tabulate n (\<lambda>p. \<Sum>v\<leftarrow>vecs. vals v ! nat p))"
  using LinComb_ok [of "replicate (length vecs) 1" vecs n] assms by (simp add: Add_def zip_replicate_map)

lemma Mul_ok:
  assumes "vecs \<noteq> []" and "\<forall>v\<in>set vecs. sv_ok v \<and> Len v = n"
  shows "represents (Mul vecs) (tabulate n (\<lambda>p. prod_list (map (\<lambda>v. vals v ! nat p) vecs)))"
  using Product_ok [of "replicate (length vecs) 1" vecs n] assms by (simp add: Mul_def zip_replicate_map)

lemma ScalarMul_ok:
  assumes "sv_ok v"
  shows "represents (ScalarMul v x) (tabulate (Len v) (\<lambda>p. vals v ! nat p * x))"
proof -
  have n: "0 < Len v" by (rule Len_pos [OF assms])
  have "represents (Mul [v, Constant x (Len v)])
      (tabulate (Len v) (\<lambda>p. prod_list (map (\<lambda>u. vals u ! nat p) [v, Constant x (Len v)])))"
    using n assms by (intro Mul_ok) auto
  moreover have "tabulate (Len v) (\<lambda>p. prod_list (map (\<lambda>u. vals u ! nat p) [v, Constant x (Len v)]))
      = tabulate (Len v) (\<lambda>p. vals v ! nat p * x)"
    by (rule tabulate_cong) (simp add: nat_less_iff)
  ultimately show ?thesis using n by (simp add: ScalarMul_def constructors_ok)
qed

lemma inner_loop_ok:
  assumes "sv_ok a" and "sv_ok b" and "\<forall>i\<in>set is. int i < Len a \<and> int i < Len b"
  shows "inner_loop a b res is = Ret (res + (\<Sum>i\<leftarrow>is. vals a ! i * vals b ! i))"
  using assms(3) by (induction "is" arbitrary: res) (auto simp: Get_vals assms(1,2) add.assoc)

lemma InnerProduct_ok:
  assumes "sv_ok a" and "sv_ok b"
  shows "InnerProduct a b = (if Len a = Len b then Ret (\<Sum>i<nat (Len a). vals a ! i * vals b ! i)
    else Panic ''length mismatch'')"
proof (cases "Len a = Len b")
  case True
  then have "\<forall>i\<in>set [0..<nat (Len a)]. int i < Len a \<and> int i < Len b" by auto
  from inner_loop_ok [OF assms this]
  have "inner_loop a b 0 [0..<nat (Len a)] = Ret (\<Sum>i\<leftarrow>[0..<nat (Len a)]. vals a ! i * vals b ! i)" by simp
  then show ?thesis using True by (simp add: InnerProduct_def interv_sum_list_conv_sum_set_nat atLeast0LessThan)
qed (simp add: InnerProduct_def)

section \<open>The linear combination by powers of a scalar\<close>

lemma poly_Eval_sum: "poly_Eval pol x = (\<Sum>i<length pol. x ^ i * pol ! i)"
proof (induction pol)
  case (Cons a pol)
  have "(\<Sum>i<length (a # pol). x ^ i * (a # pol) ! i) = a + x * (\<Sum>i<length pol. x ^ i * pol ! i)"
    by (simp add: sum.lessThan_Suc_shift sum_distrib_left mult.assoc del: sum.lessThan_Suc)
  then show ?case using Cons by (simp add: poly_Eval_def algebra_simps)
qed (simp add: poly_Eval_def)

definition lc_value :: "'e::field lc_state \<Rightarrow> int \<Rightarrow> 'e" where
  "lc_value st p = lc_resReg st ! nat p + lc_resCon st"

definition lc_inv :: "int \<Rightarrow> 'e::field lc_state \<Rightarrow> bool" where
  "lc_inv n st \<longleftrightarrow> len (lc_resReg st) = n \<and> len (lc_tmpVec st) = n
    \<and> (\<not> lc_anyCon st \<longrightarrow> lc_resCon st = 0) \<and> (\<not> lc_anyReg st \<longrightarrow> lc_resReg st = replicate (nat n) 0)"

lemma accumulateReg_ok:
  assumes "len acc = n" and "len v = n"
  obtains r where "accumulateReg acc v x = Ret r" and "len r = n"
    and "\<And>p. 0 \<le> p \<Longrightarrow> p < n \<Longrightarrow> r ! nat p = acc ! nat p + v ! nat p * x"
  by (rule that [of "map2 (\<lambda>a y. a + y * x) acc v"])
    (use assms nth_map2_int [of _ acc v "\<lambda>a y. a + y * x"] in \<open>simp_all add: accumulateReg_def for_range_def\<close>)

lemma lc_step_ok:
  assumes v: "sv_ok v" "Len v = n" and inv: "lc_inv n st"
  obtains st' where "lc_step x v st = Ret st'" and "lc_inv n st'"
    and "\<And>p. 0 \<le> p \<Longrightarrow> p < n \<Longrightarrow> lc_value st' p = lc_value st p + lc_xPow st * vals v ! nat p"
    and "lc_xPow st' = x * lc_xPow st" and "lc_anyCon st' = (lc_anyCon st \<or> is_constant v)" and "lc_anyReg st' = (lc_anyReg st \<or> \<not> is_constant v)"
proof -
  have lv: "len (vals v) = n" and lr: "len (lc_resReg st) = n" using v inv len_vals [of v] by (auto simp: lc_inv_def)
  obtain acc where acc: "accumulateReg (lc_resReg st) (vals v) (lc_xPow st) = Ret acc" "len acc = n"
    "\<And>p. 0 \<le> p \<Longrightarrow> p < n \<Longrightarrow> acc ! nat p = lc_resReg st ! nat p + vals v ! nat p * lc_xPow st"
    using accumulateReg_ok [OF lr lv] by blast
  consider (con) a where "v = Constant a n" | (plain) "is_plain v" | (win) "is_window v"
    using v by (cases v) (auto simp: is_plain_def)
  then show ?thesis
  proof cases
    case con
    let ?s = "st\<lparr>lc_anyCon := True, lc_resCon := lc_resCon st + a * lc_xPow st, lc_xPow := x * lc_xPow st\<rparr>"
    have "lc_step x v st = Ret ?s" by (simp add: lc_step_def con)
    moreover have "lc_inv n ?s" using inv by (simp add: lc_inv_def)
    moreover have "lc_value ?s p = lc_value st p + lc_xPow st * vals v ! nat p" if "0 \<le> p" "p < n" for p
      using that by (simp add: lc_value_def con nat_less_iff mult.commute)
    ultimately show ?thesis by (rule that) (simp_all add: con)
  next
    case plain
    let ?s = "st\<lparr>lc_anyReg := True, lc_resReg := acc, lc_xPow := x * lc_xPow st\<rparr>"
    have "lc_step x v st = Ret ?s" unfolding lc_step_def plain_as_regular [OF v(1) plain] by (simp add: acc(1))
    moreover have "lc_inv n ?s" using inv acc(2) by (simp add: lc_inv_def)
    moreover have "lc_value ?s p = lc_value st p + lc_xPow st * vals v ! nat p" if "0 \<le> p" "p < n" for p
      using acc(3) [OF that] by (simp add: lc_value_def mult.commute)
    ultimately show ?thesis by (rule that) (use plain in \<open>simp_all add: is_plain_def\<close>)
  next
    case win
    then obtain w pad off where w: "v = PaddedCircularWindow w pad n off" using v by (cases v) auto
    let ?s = "st\<lparr>lc_anyReg := True, lc_tmpVec := vals v, lc_resReg := acc, lc_xPow := x * lc_xPow st\<rparr>"
    have "PaddedCircularWindow_WriteInSlice w pad n off (lc_tmpVec st) = Ret (vals v)"
      using PaddedCircularWindow_WriteInSlice_ok [of w pad n off] v inv unfolding w lc_inv_def by blast
    then have "lc_step x v st = Ret ?s" using acc(1) unfolding lc_step_def w by (simp del: vals.simps)
    moreover have "lc_inv n ?s" using inv acc(2) lv by (simp add: lc_inv_def)
    moreover have "lc_value ?s p = lc_value st p + lc_xPow st * vals v ! nat p" if "0 \<le> p" "p < n" for p
      using acc(3) [OF that] by (simp add: lc_value_def mult.commute)
    ultimately show ?thesis by (rule that) (simp_all add: w)
  qed
qed

lemma lc_loop_ok:
  assumes "\<forall>v\<in>set vs. sv_ok v \<and> Len v = n" and "lc_inv n st"
  shows "\<exists>st'. lc_loop x vs st = Ret st' \<and> lc_inv n st'
    \<and> (\<forall>p. 0 \<le> p \<and> p < n \<longrightarrow> lc_value st' p = lc_value st p + lc_xPow st * (\<Sum>i<length vs. x ^ i * vals (vs ! i) ! nat p))
    \<and> lc_anyCon st' = (lc_anyCon st \<or> list_ex is_constant vs) \<and> lc_anyReg st' = (lc_anyReg st \<or> \<not> list_all is_constant vs)"
  using assms
proof (induction vs arbitrary: st)
  case (Cons v vs)
  have v: "sv_ok v" "Len v = n" using Cons.prems by auto
  obtain st1 where s1: "lc_step x v st = Ret st1" "lc_inv n st1" "lc_xPow st1 = x * lc_xPow st"
    "\<And>p. 0 \<le> p \<Longrightarrow> p < n \<Longrightarrow> lc_value st1 p = lc_value st p + lc_xPow st * vals v ! nat p"
    "lc_anyCon st1 = (lc_anyCon st \<or> is_constant v)" "lc_anyReg st1 = (lc_anyReg st \<or> \<not> is_constant v)"
    using lc_step_ok [OF v Cons.prems(2), of x] by blast
  have shift: "(\<Sum>i<length (v # vs). x ^ i * vals ((v # vs) ! i) ! nat p) =
      vals v ! nat p + x * (\<Sum>i<length vs. x ^ i * vals (vs ! i) ! nat p)" for p
    by (simp add: sum.lessThan_Suc_shift sum_distrib_left mult.assoc del: sum.lessThan_Suc)
  obtain st2 where s2: "lc_loop x vs st1 = Ret st2" "lc_inv n st2"
    "\<forall>p. 0 \<le> p \<and> p < n \<longrightarrow> lc_value st2 p = lc_value st1 p + lc_xPow st1 * (\<Sum>i<length vs. x ^ i * vals (vs ! i) ! nat p)"
    "lc_anyCon st2 = (lc_anyCon st1 \<or> list_ex is_constant vs)" "lc_anyReg st2 = (lc_anyReg st1 \<or> \<not> list_all is_constant vs)"
    using Cons.IH [OF _ s1(2)] Cons.prems by auto
  have "lc_value st2 p = lc_value st p + lc_xPow st * (\<Sum>i<length (v # vs). x ^ i * vals ((v # vs) ! i) ! nat p)"
    if "0 \<le> p" "p < n" for p
    using s2(3) s1(3) s1(4) [OF that] that unfolding shift by (simp add: algebra_simps)
  moreover have "lc_loop x (v # vs) st = Ret st2" using s1(1) s2(1) by simp
  ultimately show ?case using s2(2,4,5) s1(5,6) by (intro exI [of _ st2]) auto
qed simp

lemma LinearCombination_ok:
  assumes ne: "vecs \<noteq> []" and svs: "\<forall>v\<in>set vecs. sv_ok v \<and> Len v = n"
  shows "represents (LinearCombination vecs x) (tabulate n (\<lambda>p. \<Sum>i<length vecs. x ^ i * vals (vecs ! i) ! nat p))"
proof -
  let ?S = "\<lambda>p. \<Sum>i<length vecs. x ^ i * vals (vecs ! i) ! nat p"
  have n: "Len (vecs ! 0) = n" "0 < n" using ne svs Len_pos by (cases vecs; force)+
  show ?thesis
  proof (cases "list_all is_constant vecs")
    case True
    have at: "vals (vecs ! i) ! nat p = const_value (vecs ! i)" if "i < length vecs" "0 \<le> p" "p < n" for i p
      using True svs that by (cases "vecs ! i") (auto simp: list_all_length nat_less_iff dest!: bspec [OF _ nth_mem])
    have "vals (Constant (poly_Eval (map const_value vecs) x) n) ! nat p = ?S p" if "0 \<le> p" "p < n" for p
      using that at by (simp add: poly_Eval_sum nat_less_iff)
    then show ?thesis using True ne n tabulateI [of "Constant (poly_Eval (map const_value vecs) x) n" n ?S]
      by (simp add: LinearCombination_def constructors_ok)
  next
    case False
    let ?s0 = "\<lparr>lc_xPow = 1, lc_resReg = replicate (nat n) 0, lc_tmpVec = replicate (nat n) 0,
      lc_resCon = 0, lc_anyReg = False, lc_anyCon = False\<rparr>"
    have "lc_inv n ?s0" using n by (simp add: lc_inv_def)
    from lc_loop_ok [OF svs this, of x] obtain st where st: "lc_loop x vecs ?s0 = Ret st" "lc_inv n st" "lc_anyReg st"
      "\<And>p. 0 \<le> p \<Longrightarrow> p < n \<Longrightarrow> lc_value st p = ?S p" using False by (auto simp: lc_value_def nat_less_iff)
    have form: "LinearCombination vecs x = (if lc_anyCon st then NewRegular (map (\<lambda>r. r + lc_resCon st) (lc_resReg st))
        else NewRegular (lc_resReg st))"
      using False ne n st(1,3) by (simp add: LinearCombination_def)
    have l: "len (lc_resReg st) = n" and ne: "lc_resReg st \<noteq> []" using st(2) n by (auto simp: lc_inv_def)
    show ?thesis
    proof (cases "lc_anyCon st")
      case True
      show ?thesis using True ne l st(4) form nat_less_len [of _ "lc_resReg st"]
          tabulate_regular [OF n(2), of "map (\<lambda>r. r + lc_resCon st) (lc_resReg st)" ?S]
        by (simp add: constructors_ok lc_value_def)
    next
      case nc: False
      then have "lc_resCon st = 0" using st(2) by (simp add: lc_inv_def)
      then show ?thesis using nc ne l st(4) form tabulate_regular [OF n(2) l, of ?S]
        by (simp add: constructors_ok lc_value_def)
    qed
  qed
qed

section \<open>Element-wise operations\<close>

lemma rot_map: "rot (map f xs) k = map f (rot xs k)"
proof (rule list_eq_int [of _ "len xs"])
  fix i assume i: "0 \<le> i" "i < len xs"
  then have "xs \<noteq> []" by auto
  then have "nat ((i + k) mod len xs) < length xs" using nat_less_len [of "(i + k) mod len xs" xs] by simp
  moreover have "nat i < length (rot xs k)" using i by (simp add: len_def nat_less_iff)
  ultimately show "rot (map f xs) k ! nat i = map f (rot xs k) ! nat i" using i by (simp add: nth_rot)
qed simp_all

lemma pcw_map: "vals (PaddedCircularWindow (map f w) (f pad) n off) = map f (vals (PaddedCircularWindow w pad n off))"
proof (cases "0 < n")
  case True
  then show ?thesis using nat_less_len [of _ w] by (auto simp: pcw_at_def)
qed simp

lemma BatchInvert_ok:
  assumes "\<forall>a. batch_inv a = map inverse a" and "sv_ok v"
  shows "if rotation_bounded v then represents (BatchInvert batch_inv v) (map inverse (vals v))
    else \<exists>m. BatchInvert batch_inv v = Panic m"
  using assms by (cases v) (auto simp: constructors_ok rot_map pcw_map [symmetric] NewRotated_refused
      simp del: vals.simps(4) intro!: representsI)

lemma IsZero_ok:
  assumes "sv_ok v"
  shows "if rotation_bounded v then represents (IsZero v) (map (\<lambda>x. if x = 0 then 1 else 0) (vals v))
    else \<exists>m. IsZero v = Panic m"
proof -
  have z: "(\<lambda>x. if x = 0 then 1 else 0) = (zero_flag :: 'a \<Rightarrow> 'a)" by (auto simp: zero_flag_def)
  show ?thesis unfolding z using assms
    by (cases v) (auto simp: constructors_ok rot_map pcw_map [symmetric] NewRotated_refused simp del: vals.simps(4)
        intro!: representsI)
qed

lemma sum_elements_ok: "sum_elements v = sum_list v"
proof -
  have "fold (\<lambda>x res. res + x) v a = a + sum_list v" for a by (induction v arbitrary: a) (auto simp: add.assoc)
  then show ?thesis by (simp add: sum_elements_def)
qed

lemma rot_rotate: "rot xs k = rotate (nat (k mod len xs)) xs"
proof (rule list_eq_int [of _ "len xs"])
  fix i assume i: "0 \<le> i" "i < len xs"
  then have "xs \<noteq> []" by auto
  then have m: "0 \<le> k mod len xs" by simp
  have "nat ((i + k) mod len xs) = (nat (k mod len xs) + nat i) mod length xs"
  proof -
    have "int ((nat (k mod len xs) + nat i) mod length xs) = (k mod len xs + i) mod len xs"
      using m i by (simp add: zmod_int len_def)
    also have "\<dots> = (i + k) mod len xs" by (simp add: mod_simps add.commute)
    finally show ?thesis by (metis nat_int)
  qed
  moreover have "nat i < length xs" using i nat_less_len by blast
  ultimately show "rot xs k ! nat i = rotate (nat (k mod len xs)) xs ! nat i"
    using i by (simp add: nth_rot nth_rotate)
qed (simp_all add: len_def)

lemma sum_list_rot: "sum_list (rot xs k) = sum_list (xs :: 'e::comm_monoid_add list)"
proof -
  have "sum_list (rotate m xs) = sum_list xs" for m
  proof -
    have "sum_list (rotate m xs) = sum_list (take (m mod length xs) xs @ drop (m mod length xs) xs)"
      unfolding rotate_drop_take sum_list_append by (rule add.commute)
    then show ?thesis by simp
  qed
  then show ?thesis by (simp add: rot_rotate)
qed

lemma vals_pcw_rot:
  assumes "sv_ok (PaddedCircularWindow w pad n off)"
  shows "vals (PaddedCircularWindow w pad n off) = rot (w @ replicate (nat (n - len w)) pad) (- off)"
proof (rule list_eq_int [of _ n])
  have l: "len (w @ replicate (nat (n - len w)) pad) = n" using assms by simp
  fix i assume i: "0 \<le> i" "i < n"
  have m: "0 \<le> (i - off) mod n" "(i - off) mod n < n" using i by auto
  have "rot (w @ replicate (nat (n - len w)) pad) (- off) ! nat i = (w @ replicate (nat (n - len w)) pad) ! nat ((i - off) mod n)"
    using nth_rot [of i "w @ replicate (nat (n - len w)) pad" "- off"] i l by simp
  also have "\<dots> = pcw_at w pad n off i" using m by (auto simp: nth_append_int pcw_at_def)
  finally show "vals (PaddedCircularWindow w pad n off) ! nat i = rot (w @ replicate (nat (n - len w)) pad) (- off) ! nat i"
    using nth_pcw [OF i, of w pad off] by simp
qed (use assms in \<open>simp_all add: len_def\<close>)

lemma Sum_ok:
  assumes "sv_ok v"
  shows "Sum v = sum_list (vals v)"
proof (cases v)
  case (PaddedCircularWindow w pad n off)
  have "sum_list (vals v) = sum_list w + of_nat (nat (n - len w)) * pad"
    using vals_pcw_rot [of w pad n off] assms PaddedCircularWindow
    by (simp add: sum_list_rot sum_list_replicate del: vals.simps)
  then show ?thesis using assms PaddedCircularWindow by (simp add: sum_elements_ok of_nat_nat del: vals.simps)
qed (use assms in \<open>auto simp: sum_elements_ok sum_list_rot sum_list_replicate of_nat_nat\<close>)

section \<open>Polynomials\<close>

text \<open>The coefficient of a polynomial given by its list of coefficients.\<close>

definition coef :: "'e::zero list \<Rightarrow> int \<Rightarrow> 'e" where
  "coef xs p = (if p < len xs then xs ! nat p else 0)"

lemma poly_add_loop_ok:
  assumes "sv_ok v" and "Len v \<le> len res" and "distinct is" and "\<forall>i\<in>set is. int i < Len v"
  shows "\<exists>res'. poly_add_loop v is res = Ret res' \<and> len res' = len res
    \<and> (\<forall>j < length res. res' ! j = (if j \<in> set is then res ! j + vals v ! j else res ! j))"
  using assms(2-4)
proof (induction "is" arbitrary: res)
  case (Cons i "is")
  have "poly_add_loop v (i # is) res = poly_add_loop v is (res[i := res ! i + vals v ! i])"
    using Cons.prems assms(1) by (simp add: Get_vals go_nth_Ret)
  moreover have "i < length res" using Cons.prems by (simp add: len_def)
  ultimately show ?case using Cons.IH [of "res[i := res ! i + vals v ! i]"] Cons.prems by (auto simp: nth_list_update)
qed simp

lemma poly_sub_loop_ok:
  assumes "sv_ok v" and "Len v \<le> len res" and "distinct is" and "\<forall>i\<in>set is. int i < Len v"
  shows "\<exists>res'. poly_sub_loop v is res = Ret res' \<and> len res' = len res
    \<and> (\<forall>j < length res. res' ! j = (if j \<in> set is then res ! j - vals v ! j else res ! j))"
  using assms(2-4)
proof (induction "is" arbitrary: res)
  case (Cons i "is")
  have "poly_sub_loop v (i # is) res = poly_sub_loop v is (res[i := res ! i - vals v ! i])"
    using Cons.prems assms(1) by (simp add: Get_vals go_nth_Ret)
  moreover have "i < length res" using Cons.prems by (simp add: len_def)
  ultimately show ?case using Cons.IH [of "res[i := res ! i - vals v ! i]"] Cons.prems by (auto simp: nth_list_update)
qed simp

lemma PolyAdd_aux:
  assumes a: "sv_ok a" and b: "sv_ok b" and le: "Len a \<le> Len b"
  shows "represents (go_bind (WriteInSlice b (replicate (nat (Len b)) 0)) (\<lambda>res0.
      go_bind (poly_add_loop a [0..<nat (Len a)] res0) NewRegular))
    (tabulate (Len b) (\<lambda>p. coef (vals a) p + coef (vals b) p))"
proof -
  have la: "len (vals a) = Len a" and lb: "len (vals b) = Len b" and n: "0 < Len b" using a b len_vals Len_pos by auto
  have "WriteInSlice b (replicate (nat (Len b)) 0) = Ret (vals b)" using b n by (intro WriteInSlice_ok) auto
  moreover obtain r where r: "poly_add_loop a [0..<nat (Len a)] (vals b) = Ret r" "len r = Len b"
    "\<And>j. j < length (vals b) \<Longrightarrow> r ! j = (if j < nat (Len a) then vals b ! j + vals a ! j else vals b ! j)"
  proof -
    have "\<forall>i\<in>set [0..<nat (Len a)]. int i < Len a" by auto
    from poly_add_loop_ok [OF a _ distinct_upt this, of "vals b"] le lb show ?thesis by (auto intro: that)
  qed
  moreover have "r \<noteq> []" using r(2) n by auto
  moreover have "r ! nat p = coef (vals a) p + coef (vals b) p" if "0 \<le> p" "p < Len b" for p
    using r(3) [of "nat p"] that la lb nat_less_len [of p "vals b"] by (auto simp: coef_def add.commute nat_less_iff)
  ultimately show ?thesis using tabulate_regular [OF n r(2)] by (simp add: constructors_ok)
qed

lemma PolyAdd_ok:
  assumes "sv_ok a" and "sv_ok b"
  shows "represents (PolyAdd a b) (tabulate (max (Len a) (Len b)) (\<lambda>p. coef (vals a) p + coef (vals b) p))"
  using PolyAdd_aux [OF assms] PolyAdd_aux [OF assms(2,1)]
  by (cases "Len a > Len b") (simp_all add: PolyAdd_def max_def add.commute)

lemma PolySub_ok:
  fixes a b :: "'e::field SmartVector"
  assumes a: "sv_ok a" and b: "sv_ok b"
  shows "represents (PolySub a b) (tabulate (max (Len a) (Len b)) (\<lambda>p. coef (vals a) p - coef (vals b) p))"
proof -
  define n where "n = max (Len a) (Len b)"
  have la: "len (vals a) = Len a" and lb: "len (vals b) = Len b" and n: "0 < n" "Len a \<le> n" "Len b \<le> n" "0 < Len a"
    using len_vals [OF a] len_vals [OF b] Len_pos [OF a] by (auto simp: n_def)
  let ?r0 = "vals a @ replicate (nat (n - Len a)) 0"
  have l0: "len ?r0 = n" using la n by simp
  have "go_slice (replicate (nat n) (0 :: 'e)) 0 (Len a) = Ret (replicate (nat (Len a)) 0)"
    using n by (simp add: go_slice_def sub_def min_def nat_le_iff)
  moreover have "WriteInSlice a (replicate (nat (Len a)) 0) = Ret (vals a)" using a n by (intro WriteInSlice_ok) auto
  moreover have "drop (nat (Len a)) (replicate (nat n) 0) = replicate (nat (n - Len a)) 0" using n by (simp add: nat_diff_distrib)
  ultimately have P: "PolySub a b = go_bind (poly_sub_loop b [0..<nat (Len b)] ?r0) NewRegular"
    by (simp add: PolySub_def Let_def n_def [symmetric])
  obtain r where r: "poly_sub_loop b [0..<nat (Len b)] ?r0 = Ret r" "len r = n"
    "\<And>j. j < length ?r0 \<Longrightarrow> r ! j = (if j < nat (Len b) then ?r0 ! j - vals b ! j else ?r0 ! j)"
  proof -
    have "\<forall>i\<in>set [0..<nat (Len b)]. int i < Len b" by auto
    from poly_sub_loop_ok [OF b _ distinct_upt this, of ?r0] n(3) l0 show ?thesis by (auto intro: that)
  qed
  have "?r0 ! nat p = coef (vals a) p" if "0 \<le> p" "p < n" for p
    using that la by (auto simp: nth_append_int coef_def nat_less_iff)
  then have "r ! nat p = coef (vals a) p - coef (vals b) p" if "0 \<le> p" "p < n" for p
    using r(3) [of "nat p"] that lb nat_less_len [of p ?r0] l0 by (auto simp: coef_def nat_less_iff)
  moreover have "r \<noteq> []" using r(2) n by auto
  ultimately show ?thesis using tabulate_regular [OF n(1) r(2)] P r(1) by (simp add: constructors_ok n_def)
qed

lemma EvalCoeffBivariate_ok:
  assumes v: "sv_ok v" and m: "0 < m" and d: "Len v = k * m" "0 \<le> k"
  shows "EvalCoeffBivariate v x m y = Ret (\<Sum>j<nat k. y ^ j * (\<Sum>i<nat m. x ^ i * vals v ! (j * nat m + i)))"
proof -
  have lv: "length (vals v) = nat k * nat m" using len_vals [OF v] d m unfolding len_def by (simp add: nat_mult_distrib [symmetric])
  have "WriteInSlice v (replicate (nat (Len v)) 0) = Ret (vals v)" using v Len_pos [OF v] by (intro WriteInSlice_ok) auto
  moreover have "go_rem (Len v) m = 0" using d m by (simp add: go_rem_def)
  ultimately have E: "EvalCoeffBivariate v x m y = Ret (poly_Eval (fold_on_x (vals v) (nat m) x) y)"
    using m by (simp add: EvalCoeffBivariate_def)
  have F: "fold_on_x (vals v) (nat m) x = map (\<lambda>j. poly_Eval (take (nat m) (drop (j * nat m) (vals v))) x) [0..<nat k]"
    using lv m by (simp add: fold_on_x_def)
  have "poly_Eval (take (nat m) (drop (j * nat m) (vals v))) x = (\<Sum>i<nat m. x ^ i * vals v ! (j * nat m + i))" if "j < nat k" for j
  proof -
    have le: "j * nat m + nat m \<le> nat k * nat m" using that by (metis add.commute mult_Suc mult_le_mono1 Suc_leI)
    then have "nat m \<le> nat k * nat m - j * nat m" by linarith
    then have "length (take (nat m) (drop (j * nat m) (vals v))) = nat m" using lv by simp
    moreover have "drop (j * nat m) (vals v) ! i = vals v ! (j * nat m + i)" for i
      by (rule nth_drop) (use le lv in linarith)
    ultimately show ?thesis by (simp add: poly_Eval_sum)
  qed
  then show ?thesis unfolding E F by (simp add: poly_Eval_sum)
qed

section \<open>Properties\<close>

text \<open>
  C21: For well-formed smart-vectors of the same length, LinearCombination returns a smart-vector
  that represents the sum of the vectors weighted by the successive powers of the scalar,
  whether it takes the shortcut for constants, accumulates in one buffer, or adds a constant part
  at the end.
\<close>

theorem linear_combination_pointwise:
  assumes "vecs \<noteq> []" and "\<forall>v\<in>set vecs. sv_ok v \<and> Len v = n"
  shows "represents (LinearCombination vecs x) (tabulate n (\<lambda>p. \<Sum>i<length vecs. x ^ i * vals (vecs ! i) ! nat p))"
  by (rule LinearCombination_ok [OF assms])

theorem linear_combination_pointwise_witness:
  "represents (LinearCombination [Constant 1 4, PaddedCircularWindow [1, 2] 0 4 3, Rotated [1, 2, 3, 4] 1] (3::rat))
    (tabulate 4 (\<lambda>p. \<Sum>i<length [Constant (1::rat) 4, PaddedCircularWindow [1, 2] 0 4 3, Rotated [1, 2, 3, 4] 1].
      3 ^ i * vals ([Constant 1 4, PaddedCircularWindow [1, 2] 0 4 3, Rotated [1, 2, 3, 4] 1] ! i) ! nat p))"
  by (rule linear_combination_pointwise) simp_all

text \<open>
  C30: The element-wise operations and the reductions agree with the represented vectors:
  BatchInvert inverts every entry (zero stays zero) when gnark's batch inversion does, and IsZero flags
  the zero entries, except that both panic on a Rotated vector whose offset exceeds its length, which
  RotateRight can produce; Sum adds all the entries, InnerProduct is the sum of the products for equal
  lengths and panics otherwise, and PolyAdd and PolySub add and subtract the coefficients of
  polynomials of any two lengths.
\<close>

theorem elementwise_operations:
  assumes "\<forall>xs. batch_inv xs = map inverse xs" and "sv_ok a" and "sv_ok b"
  shows "(if rotation_bounded a
      then represents (BatchInvert batch_inv a) (map inverse (vals a)) \<and> represents (IsZero a) (map (\<lambda>x. if x = 0 then 1 else 0) (vals a))
      else (\<exists>m. BatchInvert batch_inv a = Panic m) \<and> (\<exists>m. IsZero a = Panic m))
    \<and> Sum a = sum_list (vals a)
    \<and> InnerProduct a b = (if Len a = Len b then Ret (\<Sum>i<nat (Len a). vals a ! i * vals b ! i) else Panic ''length mismatch'')
    \<and> represents (PolyAdd a b) (tabulate (max (Len a) (Len b)) (\<lambda>p. coef (vals a) p + coef (vals b) p))
    \<and> represents (PolySub a b) (tabulate (max (Len a) (Len b)) (\<lambda>p. coef (vals a) p - coef (vals b) p))"
  using BatchInvert_ok [OF assms(1,2)] IsZero_ok [OF assms(2)]
  by (intro conjI Sum_ok InnerProduct_ok PolyAdd_ok PolySub_ok assms) auto

theorem elementwise_operations_witness:
  "represents (BatchInvert (map inverse) (PaddedCircularWindow [1, 2] (3::rat) 5 4)) (map inverse (vals (PaddedCircularWindow [1, 2] (3::rat) 5 4)))
   \<and> Sum (PaddedCircularWindow [1, 2] (3::rat) 5 4) = sum_list (vals (PaddedCircularWindow [1, 2] 3 5 4))
   \<and> RotateRight (Rotated [1 :: rat, 2] 2) 1 = Ret (Rotated [1, 2] 3) \<and> (\<exists>m. IsZero (Rotated [1 :: rat, 2] 3) = Panic m)"
proof -
  have inv: "\<forall>xs :: rat list. map inverse xs = map inverse xs" by simp
  have ok: "sv_ok (PaddedCircularWindow [1, 2] (3::rat) 5 4)" "sv_ok (Rotated [1 :: rat, 2] 3)" "sv_ok (Constant (1::rat) 2)"
    and b: "rotation_bounded (PaddedCircularWindow [1, 2] (3::rat) 5 4)" "\<not> rotation_bounded (Rotated [1 :: rat, 2] 3)" by simp_all
  have "RotateRight (Rotated [1 :: rat, 2] 2) 1 = Ret (Rotated [1, 2] 3)" by (simp add: Rotated_RotateRight_def constructors_ok)
  then show ?thesis using elementwise_operations [OF inv ok(1,3)] elementwise_operations [OF inv ok(2,3)] b by auto
qed

end
