(* ===== verification/Rollup_Base.thy ===== *)
theory Rollup_Base
  imports Go_Prelude "HOL-Library.List_Lexorder"
begin

text \<open>
  Helpers of the rollup specification (\<^verbatim>\<open>rollup_spec/src/rollup_spec\<close>, in Python) that its guest
  programs share: the bridge rolling hash of a range (\<^verbatim>\<open>last_non_zero_pair\<close>), the merged address
  lists (\<^verbatim>\<open>merge_filtered_addresses\<close>) and the messaging offsets (\<^verbatim>\<open>messaging_offsets.py\<close>). The lemmas
  show how each of them composes when a range is cut into consecutive parts, which is what the
  layers of the proof system rely on.

  A raised exception is \<open>Err\<close> with the constant part of its message. Python's \<^verbatim>\<open>int\<close> and the
  \<^verbatim>\<open>U64\<close> values are \<open>int\<close>; \<^verbatim>\<open>Hash32\<close> and \<^verbatim>\<open>Address\<close> are byte strings. \<^verbatim>\<open>keccak256\<close> is an argument of
  every definition that calls it.
\<close>

type_synonym hash32 = bytes
type_synonym address = bytes

definition ZERO_HASH :: hash32 where
  "ZERO_HASH = replicate 32 0"

text \<open>Two different byte strings with the same hash.\<close>

definition collides :: "(bytes \<Rightarrow> hash32) \<Rightarrow> bytes \<Rightarrow> bytes \<Rightarrow> bool" where
  "collides keccak x y \<longleftrightarrow> x \<noteq> y \<and> keccak x = keccak y"

text \<open>\<^verbatim>\<open>for x in xs: body\<close>, with the local variables as the accumulator.\<close>

fun py_for :: "('x \<Rightarrow> 's \<Rightarrow> 's go) \<Rightarrow> 'x list \<Rightarrow> 's \<Rightarrow> 's go" where
  "py_for f [] s = Ret s"
| "py_for f (x # xs) s = go_bind (f x s) (py_for f xs)"

text \<open>A list comprehension whose elements may raise.\<close>

fun py_map :: "('x \<Rightarrow> 'y go) \<Rightarrow> 'x list \<Rightarrow> 'y list go" where
  "py_map f [] = Ret []"
| "py_map f (x # xs) = go_bind (f x) (\<lambda>y. go_bind (py_map f xs) (\<lambda>ys. Ret (y # ys)))"

lemma py_map_Ret_iff: "py_map f xs = Ret ys \<longleftrightarrow> list_all2 (\<lambda>x y. f x = Ret y) xs ys"
  by (induction xs arbitrary: ys) (auto simp: go_simps list_all2_Cons1)

lemma py_for_append: "py_for f (xs @ ys) s = go_bind (py_for f xs s) (py_for f ys)"
proof (induction xs arbitrary: s)
  case (Cons x xs)
  have "py_for f (xs @ ys) = (\<lambda>s. go_bind (py_for f xs s) (py_for f ys))" using Cons.IH by (rule ext)
  then show ?case by (simp add: go_bind_assoc)
qed simp

text \<open>A check over a list: no element raises.\<close>

definition py_all :: "('x \<Rightarrow> unit go) \<Rightarrow> 'x list \<Rightarrow> unit go" where
  "py_all f xs = py_for (\<lambda>x _. f x) xs ()"

lemma py_all_Ret_iff: "py_all f xs = Ret () \<longleftrightarrow> (\<forall>x\<in>set xs. f x = Ret ())"
  unfolding py_all_def by (induction xs) (auto simp: go_simps)

text \<open>The pairs of neighbours, \<^verbatim>\<open>zip(xs, xs[1:])\<close>.\<close>

definition neighbours :: "'x list \<Rightarrow> ('x \<times> 'x) list" where
  "neighbours xs = zip xs (tl xs)"

lemma neighbours_simps [simp]:
  "neighbours [] = []" "neighbours [x] = []" "neighbours (x # y # xs) = (x, y) # neighbours (y # xs)"
  by (simp_all add: neighbours_def)

section \<open>The bridge rolling hash\<close>

definition last_non_zero_pair :: "(hash32 \<times> int) list \<Rightarrow> hash32 \<times> int" where
  "last_non_zero_pair pairs = fold (\<lambda>(rolling_hash, message_number) lst.
    if message_number \<noteq> 0 then (rolling_hash, message_number) else lst) pairs (ZERO_HASH, 0)"

lemma last_non_zero_append:
  "last_non_zero_pair (xs @ ys) = (if snd (last_non_zero_pair ys) \<noteq> 0 then last_non_zero_pair ys else last_non_zero_pair xs)"
proof (induction ys rule: rev_induct)
  case Nil
  then show ?case by (simp add: last_non_zero_pair_def)
next
  case (snoc y ys)
  have "last_non_zero_pair (zs @ [y]) = (if snd y \<noteq> 0 then y else last_non_zero_pair zs)" for zs
    by (simp add: last_non_zero_pair_def case_prod_beta)
  then show ?case using snoc by (simp flip: append_assoc)
qed

lemma last_non_zero_single: "last_non_zero_pair [p] = (if snd p \<noteq> 0 then p else (ZERO_HASH, 0))"
  by (simp add: last_non_zero_pair_def case_prod_beta)

text \<open>The pair of a range is the last pair of its parts.\<close>

lemma last_non_zero_concat: "last_non_zero_pair (map last_non_zero_pair pss) = last_non_zero_pair (concat pss)"
proof (induction pss rule: rev_induct)
  case (snoc ps pss)
  have "last_non_zero_pair ps = (ZERO_HASH, 0)" if "snd (last_non_zero_pair ps) = 0"
    using that by (induction ps rule: rev_induct) (auto simp: last_non_zero_append last_non_zero_single, simp add: last_non_zero_pair_def)
  then show ?case using snoc by (simp add: last_non_zero_append last_non_zero_single)
qed (simp add: last_non_zero_pair_def)

section \<open>Merged address lists\<close>

definition merge_filtered_addresses :: "address list list \<Rightarrow> address list" where
  "merge_filtered_addresses address_lists = sorted_list_of_set (\<Union>addresses\<in>set address_lists. set addresses)"

lemma set_merge_filtered [simp]: "set (merge_filtered_addresses ls) = (\<Union>l\<in>set ls. set l)"
  by (simp add: merge_filtered_addresses_def)

lemma merge_filtered_canonical: "sorted (merge_filtered_addresses ls)" "distinct (merge_filtered_addresses ls)"
  by (simp_all add: merge_filtered_addresses_def)

lemma merge_filtered_concat:
  "merge_filtered_addresses (map merge_filtered_addresses lss) = merge_filtered_addresses (concat lss)"
  unfolding merge_filtered_addresses_def [of "map merge_filtered_addresses lss"] merge_filtered_addresses_def [of "concat lss"]
  by (intro arg_cong [of _ _ sorted_list_of_set]) auto

definition hash_address_list :: "(bytes \<Rightarrow> hash32) \<Rightarrow> address list \<Rightarrow> hash32" where
  "hash_address_list keccak values = keccak (concat values)"

section \<open>Messaging offsets\<close>

text \<open>The arguments \<^verbatim>\<open>proof_kind\<close> and \<^verbatim>\<open>output_kind\<close> of the source occur only in the messages.\<close>

fun rebase_loop :: "int \<Rightarrow> int \<Rightarrow> int \<Rightarrow> int list \<Rightarrow> int list go" where
  "rebase_loop count shift previous [] = Ret []"
| "rebase_loop count shift previous (offset # offsets) =
    (if \<not> (previous < offset \<and> offset \<le> count) \<or> offset > 0xFFFF then Err ''invalid messaging block offset''
     else if shift + offset > 0xFFFF then Err ''messaging block offset exceeds uint16''
     else go_bind (rebase_loop count shift offset offsets) (\<lambda>rebased. Ret ((shift + offset) # rebased)))"

definition rebase_messaging_offsets :: "int \<Rightarrow> int \<Rightarrow> int \<Rightarrow> int list \<Rightarrow> int \<Rightarrow> int list go" where
  "rebase_messaging_offsets start_block_number end_block_number block_count offsets range_start_block_number =
    (let count = end_block_number - start_block_number + 1 in
     if count \<le> 0 \<or> block_count \<noteq> count then Err ''blockCount does not match proven range''
     else rebase_loop count (start_block_number - range_start_block_number) 0 offsets)"

text \<open>Offsets of a range of \<open>n\<close> blocks: strictly increasing, from 1 to \<open>n\<close>, in 16 bits.\<close>

definition offsets_ok :: "int \<Rightarrow> int list \<Rightarrow> bool" where
  "offsets_ok n os \<longleftrightarrow> sorted_wrt (<) os \<and> (\<forall>x\<in>set os. 0 < x \<and> x \<le> n \<and> x \<le> 0xFFFF)"

lemma rebase_loop_Ret_iff:
  "rebase_loop count shift prev os = Ret rs \<longleftrightarrow> sorted_wrt (<) os \<and> (\<forall>x\<in>set os. prev < x \<and> x \<le> count \<and> x \<le> 0xFFFF)
    \<and> (\<forall>r\<in>set rs. r \<le> 0xFFFF) \<and> rs = map (\<lambda>x. shift + x) os"
proof (induction os arbitrary: prev rs)
  case (Cons x xs)
  show ?case by (cases rs) (auto simp: Cons.IH go_simps)
qed auto

lemma rebase_Ret_iff:
  "rebase_messaging_offsets s e bc os rs0 = Ret rs \<longleftrightarrow> s \<le> e \<and> bc = e - s + 1 \<and> offsets_ok bc os
    \<and> (\<forall>r\<in>set rs. r \<le> 0xFFFF) \<and> rs = map (\<lambda>x. s - rs0 + x) os"
  by (auto simp: rebase_messaging_offsets_def rebase_loop_Ret_iff offsets_ok_def Let_def)

text \<open>
  Consecutive ranges: the rebased offsets of the parts are the offsets of the whole. A part is its
  start, its end, its block count and its offsets.
\<close>

definition rebase_parts :: "int \<Rightarrow> (int \<times> int \<times> int \<times> int list) list \<Rightarrow> int list go" where
  "rebase_parts start parts = py_for (\<lambda>(s, e, bc, os) acc.
    go_bind (rebase_messaging_offsets s e bc os start) (\<lambda>rs. Ret (acc @ rs))) parts []"

fun tiled :: "int \<Rightarrow> (int \<times> int \<times> 'a) list \<Rightarrow> int \<Rightarrow> bool" where
  "tiled start [] next = (start = next)"
| "tiled start ((s, e, _) # parts) next = (s = start \<and> tiled (e + 1) parts next)"

lemma rebase_parts_acc:
  "py_for (\<lambda>(s, e, bc, os) acc. go_bind (rebase_messaging_offsets s e bc os start) (\<lambda>rs. Ret (acc @ rs))) parts acc = Ret r
    \<Longrightarrow> tiled from parts next \<Longrightarrow> offsets_ok (from - start) acc \<Longrightarrow> start \<le> from \<Longrightarrow>
    offsets_ok (next - start) r \<and> from \<le> next
    \<and> r = acc @ concat (map (\<lambda>(s, e, bc, os). map (\<lambda>x. s - start + x) os) parts)
    \<and> (\<forall>(s, e, bc, os)\<in>set parts. bc = e - s + 1 \<and> 0 < bc)"
proof (induction parts arbitrary: acc "from")
  case (Cons p parts)
  obtain s e bc os where p: "p = (s, e, bc, os)" by (cases p)
  from Cons.prems(1) p obtain rs where rs: "rebase_messaging_offsets s e bc os start = Ret rs"
    and rest: "py_for (\<lambda>(s, e, bc, os) acc. go_bind (rebase_messaging_offsets s e bc os start) (\<lambda>rs. Ret (acc @ rs))) parts (acc @ rs) = Ret r"
    by (auto simp: go_simps)
  have s: "s = from" and t: "tiled (e + 1) parts next" using Cons.prems(2) p by auto
  from rs have b: "s \<le> e" "bc = e - s + 1" "offsets_ok bc os" "\<forall>r\<in>set rs. r \<le> 0xFFFF" "rs = map (\<lambda>x. s - start + x) os"
    unfolding rebase_Ret_iff by blast+
  have "sorted_wrt (<) (acc @ rs)"
    using Cons.prems(3) b(3) unfolding b(5) sorted_wrt_append offsets_ok_def s
    by (auto simp: sorted_wrt_map) (smt (verit))
  moreover have "\<forall>x\<in>set (acc @ rs). 0 < x \<and> x \<le> e + 1 - start \<and> x \<le> 0xFFFF"
    using Cons.prems(3,4) b s by (auto simp: offsets_ok_def)
  ultimately have "offsets_ok (e + 1 - start) (acc @ rs)" by (simp add: offsets_ok_def)
  from Cons.IH [OF rest t this] show ?case using Cons.prems(4) b s p by auto
qed (auto simp: offsets_ok_def)

lemma rebase_parts_ok:
  assumes "rebase_parts start parts = Ret r" and "tiled start parts next"
  shows "offsets_ok (next - start) r" and "r = concat (map (\<lambda>(s, e, bc, os). map (\<lambda>x. s - start + x) os) parts)"
    and "\<forall>(s, e, bc, os)\<in>set parts. bc = e - s + 1 \<and> 0 < bc"
  using rebase_parts_acc [of start parts "[]" r start "next"] assms by (auto simp: rebase_parts_def offsets_ok_def)

end
