(* ===== verification/Rollup_Data.thy ===== *)
theory Rollup_Data
  imports Rollup_Base
begin

text \<open>
  The blob encoding of the rollup guest (\<^verbatim>\<open>rollup_spec/src/rollup_spec/rollup.py\<close>): the packing of a
  payload and its terminal byte into the 254-bit field elements of a blob, and the decoder, which
  accepts canonical blobs only. The two are inverse to each other.
\<close>

section \<open>Blobs\<close>

definition FIELD_ELEMENTS_PER_BLOB :: nat where
  "FIELD_ELEMENTS_PER_BLOB = 4096"

definition PACKING_BITS_PER_ELEMENT :: nat where
  "PACKING_BITS_PER_ELEMENT = 254"

definition BLOB_BYTES_LENGTH :: nat where
  "BLOB_BYTES_LENGTH = FIELD_ELEMENTS_PER_BLOB * 32"

definition BLOB_PAYLOAD_CAPACITY :: nat where
  "BLOB_PAYLOAD_CAPACITY = (FIELD_ELEMENTS_PER_BLOB * PACKING_BITS_PER_ELEMENT) div 8 - 1"

definition pack_blob_payload :: "bytes \<Rightarrow> bytes go" where
  "pack_blob_payload payload =
    (if length payload > BLOB_PAYLOAD_CAPACITY then Err ''blob payload exceeds 254-bit packing capacity''
     else let width = (length payload + 1) * 8;
              bits = be_nat (payload @ [0xff]) * 2 ^ (FIELD_ELEMENTS_PER_BLOB * PACKING_BITS_PER_ELEMENT - width) in
       Ret (concat (map (\<lambda>i. be_bytes 32 (bits div 2 ^ ((FIELD_ELEMENTS_PER_BLOB - 1 - i) * PACKING_BITS_PER_ELEMENT)
              mod 2 ^ PACKING_BITS_PER_ELEMENT)) [0..<FIELD_ELEMENTS_PER_BLOB])))"

text \<open>\<^verbatim>\<open>(bits << 254) | element\<close> is a sum, because the element has at most 254 bits.\<close>

definition element_step :: "bytes \<Rightarrow> nat \<Rightarrow> nat \<Rightarrow> nat go" where
  "element_step blob i bits =
    (let element = be_nat (segment 32 i blob) in
     if element \<ge> 2 ^ PACKING_BITS_PER_ELEMENT then Err ''blob field element exceeds 254 bits''
     else Ret (bits * 2 ^ PACKING_BITS_PER_ELEMENT + element))"

definition rstrip_zeros :: "bytes \<Rightarrow> bytes" where
  "rstrip_zeros bs = rev (dropWhile (\<lambda>b. b = 0) (rev bs))"

definition unpack_blob_payload :: "bytes \<Rightarrow> bytes go" where
  "unpack_blob_payload blob =
    (if length blob \<noteq> BLOB_BYTES_LENGTH then Err ''physical blob must contain 4096 field elements''
     else go_bind (py_for (element_step blob) [0..<FIELD_ELEMENTS_PER_BLOB] 0) (\<lambda>bits.
       let unpacked = be_bytes (BLOB_PAYLOAD_CAPACITY + 1) bits;
           stripped = rstrip_zeros unpacked in
       if stripped = [] \<or> last stripped \<noteq> 0xff then Err ''invalid blob terminal symbol''
       else let payload = butlast stripped in
         go_bind (pack_blob_payload payload) (\<lambda>packed.
           if packed \<noteq> blob then Err ''noncanonical blob padding'' else Ret payload)))"

text \<open>The digits of a number in base \<open>2 ^ w\<close>, most significant first.\<close>

definition digits :: "nat \<Rightarrow> nat \<Rightarrow> nat \<Rightarrow> nat list" where
  "digits n w v = map (\<lambda>i. v div 2 ^ ((n - 1 - i) * w) mod 2 ^ w) [0..<n]"

lemma digits_Suc: "digits (Suc n) w v = digits n w (v div 2 ^ w) @ [v mod 2 ^ w]"
proof -
  have "v div 2 ^ ((n - i) * w) = v div 2 ^ w div 2 ^ ((n - 1 - i) * w)" if "i < n" for i
  proof -
    have "(n - i) * w = w + (n - 1 - i) * w" using that by (simp add: Suc_diff_Suc flip: mult_Suc)
    then show ?thesis by (simp only: power_add div_mult2_eq)
  qed
  then show ?thesis by (simp add: digits_def)
qed

lemma digits_value: "v < 2 ^ (n * w) \<Longrightarrow> foldl (\<lambda>b e. b * 2 ^ w + e) 0 (digits n w v) = v"
proof (induction n arbitrary: v)
  case (Suc n)
  have "v div 2 ^ w < 2 ^ (n * w)" using Suc.prems by (simp add: power_add less_mult_imp_div_less mult.commute)
  from Suc.IH [OF this] show ?case by (simp add: digits_Suc div_mult_mod_eq)
qed (simp add: digits_def)

lemma element_steps:
  assumes "\<forall>e\<in>set es. e < 2 ^ PACKING_BITS_PER_ELEMENT" and "blob = concat (map (be_bytes 32) es)"
  shows "py_for (element_step blob) [0..<length es] b = Ret (foldl (\<lambda>b e. b * 2 ^ PACKING_BITS_PER_ELEMENT + e) b es)"
proof -
  have seg: "be_nat (segment 32 i blob) = es ! i" if "i < length es" for i
  proof -
    have "es ! i < 2 ^ PACKING_BITS_PER_ELEMENT" using assms(1) that by simp
    also have "\<dots> < 256 ^ 32" unfolding PACKING_BITS_PER_ELEMENT_def by simp
    finally show ?thesis using that segment_concat [of "map (be_bytes 32) es" 32 i] by (simp add: assms(2))
  qed
  have "py_for (element_step blob) [k..<length es] b = Ret (foldl (\<lambda>b e. b * 2 ^ PACKING_BITS_PER_ELEMENT + e) b (drop k es))"
    if "k \<le> length es" for k
    using that
  proof (induction "length es - k" arbitrary: k b)
    case (Suc n)
    then have k: "k < length es" by simp
    then have "\<not> es ! k \<ge> 2 ^ PACKING_BITS_PER_ELEMENT" using assms(1) by (simp add: not_le)
    moreover have "drop k es = es ! k # drop (Suc k) es" using k by (rule Cons_nth_drop_Suc [symmetric])
    moreover have "[k..<length es] = k # [Suc k..<length es]" using k by (rule upt_conv_Cons)
    ultimately show ?case using Suc.hyps(1) [of "Suc k"] Suc.hyps(2) k by (simp add: element_step_def seg Let_def)
  qed simp
  from this [of 0] show ?thesis by simp
qed

lemma capacity_bits: "FIELD_ELEMENTS_PER_BLOB * PACKING_BITS_PER_ELEMENT = 8 * (BLOB_PAYLOAD_CAPACITY + 1)"
  by (simp add: FIELD_ELEMENTS_PER_BLOB_def PACKING_BITS_PER_ELEMENT_def BLOB_PAYLOAD_CAPACITY_def)

lemma rstrip_terminal: "rstrip_zeros (p @ [0xff] @ replicate n 0) = p @ [0xff]"
  by (simp add: rstrip_zeros_def dropWhile_append)

lemma unpack_pack:
  assumes "length payload \<le> BLOB_PAYLOAD_CAPACITY"
  shows "\<exists>blob. pack_blob_payload payload = Ret blob \<and> length blob = BLOB_BYTES_LENGTH \<and> unpack_blob_payload blob = Ret payload"
proof -
  let ?n = FIELD_ELEMENTS_PER_BLOB and ?w = PACKING_BITS_PER_ELEMENT
  let ?z = "BLOB_PAYLOAD_CAPACITY - length payload"
  define bits where "bits = be_nat (payload @ [0xff]) * 2 ^ (?n * ?w - (length payload + 1) * 8)"
  have e: "?n * ?w - (length payload + 1) * 8 = 8 * ?z" unfolding capacity_bits using assms by simp
  have bits: "bits = be_nat (payload @ [0xff] @ replicate ?z 0)"
    unfolding bits_def e power_mult append_assoc [symmetric] be_nat_append [of "payload @ [0xff]" "replicate ?z 0"] by simp
  have len: "length (payload @ [0xff] @ replicate ?z 0) = BLOB_PAYLOAD_CAPACITY + 1" using assms by simp
  have "bits < 256 ^ (BLOB_PAYLOAD_CAPACITY + 1)"
    using be_nat_less [of "payload @ [0xff] @ replicate ?z 0"] unfolding bits len .
  also have "256 ^ (BLOB_PAYLOAD_CAPACITY + 1) = (2 :: nat) ^ (?n * ?w)" unfolding capacity_bits power_mult by simp
  finally have small: "bits < 2 ^ (?n * ?w)" .
  let ?blob = "concat (map (be_bytes 32) (digits ?n ?w bits))"
  have pack: "pack_blob_payload payload = Ret ?blob"
    using assms by (simp add: pack_blob_payload_def bits_def digits_def Let_def comp_def)
  have lb: "length ?blob = BLOB_BYTES_LENGTH"
    by (simp add: length_concat comp_def digits_def BLOB_BYTES_LENGTH_def sum_list_triv)
  have "length (digits ?n ?w bits) = ?n" by (simp add: digits_def)
  then have "py_for (element_step ?blob) [0..<?n] 0 = Ret bits"
    using element_steps [of "digits ?n ?w bits" ?blob 0] digits_value [OF small] by (simp add: digits_def)
  moreover have "be_bytes (BLOB_PAYLOAD_CAPACITY + 1) bits = payload @ [0xff] @ replicate ?z 0"
    using be_bytes_be_nat [of "payload @ [0xff] @ replicate ?z 0"] unfolding bits len .
  ultimately have "unpack_blob_payload ?blob = Ret payload"
    unfolding unpack_blob_payload_def Let_def using lb pack by (simp add: rstrip_terminal [simplified])
  then show ?thesis using pack lb by blast
qed

lemma unpack_canonical: "unpack_blob_payload blob = Ret payload \<Longrightarrow> pack_blob_payload payload = Ret blob"
  by (auto simp: unpack_blob_payload_def Let_def go_simps split: if_splits)

lemma unpack_length: "unpack_blob_payload blob = Ret payload \<Longrightarrow> length payload \<le> BLOB_PAYLOAD_CAPACITY"
  using unpack_canonical by (fastforce simp: pack_blob_payload_def split: if_splits)

lemma unpack_iff: "unpack_blob_payload blob = Ret payload \<longleftrightarrow> pack_blob_payload payload = Ret blob"
proof
  assume p: "pack_blob_payload payload = Ret blob"
  then have "length payload \<le> BLOB_PAYLOAD_CAPACITY" unfolding pack_blob_payload_def by (cases "length payload \<le> BLOB_PAYLOAD_CAPACITY") auto
  from unpack_pack [OF this] obtain b where b: "pack_blob_payload payload = Ret b" "unpack_blob_payload b = Ret payload" by blast
  have "blob = b" using p unfolding b(1) by (rule go.inject(1) [THEN iffD1, symmetric])
  then show "unpack_blob_payload blob = Ret payload" using b(2) by (rule ssubst)
qed (rule unpack_canonical)

text \<open>
  C23: Blob packing. \<^verbatim>\<open>unpack_blob_payload\<close> returns a payload exactly when \<^verbatim>\<open>pack_blob_payload\<close> of that payload
  is the blob, so every payload is read back as packed and every blob has at most one reading. A
  payload is packed exactly when it fits the capacity, into a blob of 4096 elements of 32 bytes; a
  longer one is refused.
\<close>

theorem blob_packing_round_trip:
  "(unpack_blob_payload blob = Ret payload) = (pack_blob_payload payload = Ret blob)
    \<and> (if length payload \<le> BLOB_PAYLOAD_CAPACITY
       then \<exists>b. pack_blob_payload payload = Ret b \<and> length b = BLOB_BYTES_LENGTH
       else pack_blob_payload payload = Err ''blob payload exceeds 254-bit packing capacity'')"
proof (cases "length payload \<le> BLOB_PAYLOAD_CAPACITY")
  case True
  then show ?thesis using unpack_pack [OF True] unpack_iff unfolding if_P [OF True] by blast
next
  case False
  then have p: "pack_blob_payload payload = Err ''blob payload exceeds 254-bit packing capacity''"
    unfolding pack_blob_payload_def by (intro if_P) (simp only: not_le)
  have "\<not> unpack_blob_payload blob = Ret payload" using False unpack_length by blast
  then show ?thesis unfolding if_not_P [OF False] p by simp
qed

end
