(* ===== verification/Rollup_Chunks.thy ===== *)
theory Rollup_Chunks
  imports Rollup_Data
begin

text \<open>
  The data-availability check of the rollup guest (\<^verbatim>\<open>rollup_spec/src/rollup_spec/rollup.py\<close>): the
  binding of the published chunks to their anchored hashes, the segments of the byte stream they
  carry, and the rolling hash over the chunks. \<open>accepts\<close> says declaratively which chunks and
  payloads a proof may claim, and \<open>verify_da_chunks\<close> is shown to decide it. A sequence of proofs, each starting where
  the one before ended, cuts the published stream without a gap and without an overlap, also when
  neighbours share a blob.

  The libraries the source calls (\<^verbatim>\<open>keccak256\<close>, the KZG functions of \<^verbatim>\<open>ckzg\<close> and \<^verbatim>\<open>ethereum.crypto.kzg\<close>
  with the loaded trusted setup, and zstd with the loaded dictionary) are the fields of \<open>da_lib\<close>; a
  library exception is \<open>None\<close>. The index of a chunk occurs only in messages and is left out.
\<close>

section \<open>Libraries and chunks\<close>

record frame_parameters =
  content_size :: nat
  dict_id :: nat
  has_checksum :: bool
  window_size :: nat

record da_lib =
  keccak256 :: "bytes \<Rightarrow> hash32"
  BYTES_PER_COMMITMENT :: nat
  BYTES_PER_PROOF :: nat
  kzg_commitment_to_versioned_hash :: "bytes \<Rightarrow> hash32"
  verify_blob_kzg_proof_batch :: "bytes \<Rightarrow> bytes \<Rightarrow> bytes \<Rightarrow> bool option"
  get_frame_parameters :: "bytes \<Rightarrow> frame_parameters option"
  zstd_dictionary_id :: nat
  decompress :: "bytes \<Rightarrow> nat \<Rightarrow> bytes option"

record ChunkWitness =
  chunk_hash :: hash32
  is_calldata :: bool
  blob_bytes :: bytes
  calldata_bytes :: bytes
  kzg_commitment :: bytes
  kzg_proof :: bytes

definition is_blob :: "ChunkWitness \<Rightarrow> bool" where
  "is_blob c \<longleftrightarrow> \<not> is_calldata c"

definition ZSTD_MAX_WINDOW_SIZE :: nat where
  "ZSTD_MAX_WINDOW_SIZE = 2 ^ 27 + 1"

text \<open>\<^verbatim>\<open>DataRollingHashWitness(parent, chunk).hash()\<close>\<close>

definition data_rolling_hash :: "da_lib \<Rightarrow> hash32 \<Rightarrow> hash32 \<Rightarrow> hash32" where
  "data_rolling_hash L parent_data_rolling_hash chunk = keccak256 L (parent_data_rolling_hash @ chunk)"

section \<open>The checks\<close>

definition validate_zstd_frame :: "da_lib \<Rightarrow> bytes \<Rightarrow> bytes \<Rightarrow> unit go" where
  "validate_zstd_frame L zstd_frame canonical_payload =
    (case get_frame_parameters L zstd_frame of
      None \<Rightarrow> Err ''invalid zstd frame''
    | Some parameters \<Rightarrow>
        if content_size parameters \<noteq> length canonical_payload \<or> dict_id parameters \<noteq> zstd_dictionary_id L
          \<or> has_checksum parameters \<or> window_size parameters > ZSTD_MAX_WINDOW_SIZE
        then Err ''invalid zstd frame''
        else (case decompress L zstd_frame (length canonical_payload) of
            None \<Rightarrow> Err ''invalid zstd frame''
          | Some decompressed \<Rightarrow>
              if decompressed \<noteq> canonical_payload
              then Err ''decompressed zstd frame does not match canonical truncated-block RLP'' else Ret ()))"

definition verified_chunk_payload :: "da_lib \<Rightarrow> ChunkWitness \<Rightarrow> bytes go" where
  "verified_chunk_payload L chunk =
    (if is_calldata chunk then
       (if blob_bytes chunk \<noteq> [] then Err ''calldata chunk must have empty blobBytes''
        else if kzg_commitment chunk \<noteq> [] \<or> kzg_proof chunk \<noteq> []
          then Err ''calldata chunk must have empty kzgCommitment and kzgProof''
        else if keccak256 L (calldata_bytes chunk) \<noteq> chunk_hash chunk
          then Err ''calldata chunk computed hash does not match chunkHash''
        else Ret (calldata_bytes chunk))
     else if calldata_bytes chunk \<noteq> [] then Err ''blob chunk must have empty calldataBytes''
     else if length (kzg_commitment chunk) \<noteq> BYTES_PER_COMMITMENT L \<or> length (kzg_proof chunk) \<noteq> BYTES_PER_PROOF L
       then Err ''blob chunk kzgCommitment and kzgProof must be bytes''
     else go_bind (unpack_blob_payload (blob_bytes chunk)) (\<lambda>payload.
       if kzg_commitment_to_versioned_hash L (kzg_commitment chunk) \<noteq> chunk_hash chunk
       then Err ''blob chunk kzgCommitment versioned hash does not match chunkHash'' else Ret payload))"

definition verify_blob_kzg_proofs :: "da_lib \<Rightarrow> ChunkWitness list \<Rightarrow> unit go" where
  "verify_blob_kzg_proofs L blob_chunks =
    (if blob_chunks = [] then Ret ()
     else (case verify_blob_kzg_proof_batch L (concat (map blob_bytes blob_chunks))
             (concat (map kzg_commitment blob_chunks)) (concat (map kzg_proof blob_chunks)) of
        None \<Rightarrow> Err ''blob KZG proof batch is malformed''
      | Some valid \<Rightarrow> if \<not> valid then Err ''blob KZG proof batch verification failed'' else Ret ()))"

text \<open>The body of the loop of \<^verbatim>\<open>_parse_segment_ends\<close>; the accumulator is \<^verbatim>\<open>cursor\<close> and \<^verbatim>\<open>segment_ends\<close>.\<close>

definition segment_step :: "da_lib \<Rightarrow> bytes \<Rightarrow> bytes \<Rightarrow> nat \<times> nat list \<Rightarrow> (nat \<times> nat list) go" where
  "segment_step L stream canonical_payload = (\<lambda>(cursor, segment_ends).
    if length stream - cursor < 4 then Err ''DA segment is missing its length prefix''
    else let len = be_nat (take 4 (drop cursor stream)) in
      if len = 0 \<or> len > length stream - cursor - 4 then Err ''DA segment length exceeds available chunk bytes''
      else let segment_end = cursor + 4 + len in
        go_bind (validate_zstd_frame L (take len (drop (cursor + 4) stream)) canonical_payload)
          (\<lambda>_. Ret (segment_end, segment_ends @ [segment_end])))"

definition parse_segment_ends :: "da_lib \<Rightarrow> bytes \<Rightarrow> bytes list \<Rightarrow> nat list go" where
  "parse_segment_ends L stream canonical_payloads =
    go_bind (py_for (segment_step L stream) canonical_payloads (0, [])) (\<lambda>(_, segment_ends). Ret segment_ends)"

definition fold_data_rolling_hash :: "da_lib \<Rightarrow> ChunkWitness list \<Rightarrow> int \<Rightarrow> hash32 \<Rightarrow> hash32 option \<Rightarrow> hash32 go" where
  "fold_data_rolling_hash L chunks parent_data_tail_take_bytes parent_data_rolling_hash boundary_prev_data_rolling_hash =
    go_bind
      (if parent_data_tail_take_bytes > 0 then
         (case boundary_prev_data_rolling_hash of
            None \<Rightarrow> Err ''boundaryPrevDataRollingHash does not open parentDataRollingHash''
          | Some boundary \<Rightarrow> (case chunks of
              [] \<Rightarrow> Err ''list index out of range''
            | chunk # rest \<Rightarrow>
                if data_rolling_hash L boundary (chunk_hash chunk) \<noteq> parent_data_rolling_hash
                then Err ''boundaryPrevDataRollingHash does not open parentDataRollingHash'' else Ret rest))
       else Ret chunks)
      (\<lambda>unfolded_chunks.
        Ret (foldl (\<lambda>h chunk. data_rolling_hash L h (chunk_hash chunk)) parent_data_rolling_hash unfolded_chunks))"

definition full_before_blob :: "(ChunkWitness \<times> bytes) \<times> (ChunkWitness \<times> bytes) \<Rightarrow> unit go" where
  "full_before_blob = (\<lambda>((chunk, payload), (next_chunk, _)).
    if is_blob chunk \<and> is_blob next_chunk \<and> length payload \<noteq> BLOB_PAYLOAD_CAPACITY
    then Err ''blob chunk must hold a full payload before another blob'' else Ret ())"

text \<open>The payloads after the cut of the first one to its last \<^verbatim>\<open>take\<close> bytes.\<close>

definition cut_first :: "ChunkWitness list \<Rightarrow> int \<Rightarrow> bytes list \<Rightarrow> bytes list go" where
  "cut_first chunks take_bytes payloads =
    (if take_bytes > 0 then
       (if is_calldata (hd chunks) \<or> take_bytes \<ge> int (length (hd payloads))
        then Err ''positive parentDataTailTakeBytes requires a first blob with a longer payload''
        else Ret (drop (length (hd payloads) - nat take_bytes) (hd payloads) # tl payloads))
     else Ret payloads)"

text \<open>The loop over the chunks that checks that each of them owns bytes.\<close>

definition owned_step :: "nat list \<Rightarrow> ChunkWitness \<times> bytes \<Rightarrow> nat \<Rightarrow> nat go" where
  "owned_step segment_ends = (\<lambda>(chunk, payload) chunk_start.
    let chunk_end = chunk_start + length payload in
    if chunk_start \<ge> min chunk_end (last segment_ends) then Err ''chunk must contain owned bytes''
    else if is_calldata chunk \<and> chunk_end \<notin> set segment_ends then Err ''calldata chunk must end at a segment boundary''
    else Ret chunk_end)"

definition verify_da_chunks ::
  "da_lib \<Rightarrow> ChunkWitness list \<Rightarrow> bytes list \<Rightarrow> hash32 \<Rightarrow> int \<Rightarrow> hash32 option \<Rightarrow> (hash32 \<times> int) go" where
  "verify_da_chunks L chunks canonical_payloads parent_data_rolling_hash parent_data_tail_take_bytes boundary_prev =
    (if chunks = [] then Err ''rollup proof must touch at least one chunk''
     else go_bind (py_map (verified_chunk_payload L) chunks) (\<lambda>payloads.
       go_bind (verify_blob_kzg_proofs L (filter is_blob chunks)) (\<lambda>_.
       go_bind (py_all full_before_blob (neighbours (zip chunks payloads))) (\<lambda>_.
       go_bind (cut_first chunks parent_data_tail_take_bytes payloads) (\<lambda>payloads.
       let stream = concat payloads in
       go_bind (parse_segment_ends L stream canonical_payloads) (\<lambda>segment_ends.
       if segment_ends = [] then Err ''list index out of range''
       else let consumed = last segment_ends in
         go_bind (py_for (owned_step segment_ends) (zip chunks payloads) 0) (\<lambda>_.
         go_bind (fold_data_rolling_hash L chunks parent_data_tail_take_bytes parent_data_rolling_hash boundary_prev)
           (\<lambda>end_data_rolling_hash. Ret (end_data_rolling_hash, int (length stream) - int consumed)))))))))"

section \<open>The contract\<close>

text \<open>A segment is a frame behind its length on four bytes.\<close>

definition seg :: "bytes \<Rightarrow> bytes" where
  "seg frame = be_bytes 4 (length frame) @ frame"

text \<open>A frame declares the payload's size, the agreed dictionary, no checksum and a bounded window, and decompresses to the payload.\<close>

definition frame_of :: "da_lib \<Rightarrow> bytes \<Rightarrow> bytes \<Rightarrow> bool" where
  "frame_of L f p \<longleftrightarrow> (\<exists>prm. get_frame_parameters L f = Some prm \<and> content_size prm = length p
     \<and> dict_id prm = zstd_dictionary_id L \<and> \<not> has_checksum prm \<and> window_size prm \<le> 2 ^ 27 + 1)
   \<and> decompress L f (length p) = Some p"

definition segmented :: "da_lib \<Rightarrow> bytes list \<Rightarrow> bytes list \<Rightarrow> bool" where
  "segmented L frames payloads \<longleftrightarrow> list_all2 (\<lambda>f p. f \<noteq> [] \<and> length f < 2 ^ 32 \<and> frame_of L f p) frames payloads"

fun seg_ends :: "nat \<Rightarrow> bytes list \<Rightarrow> nat list" where
  "seg_ends n [] = []"
| "seg_ends n (f # fs) = (n + (4 + length f)) # seg_ends (n + (4 + length f)) fs"

fun spans :: "nat \<Rightarrow> bytes list \<Rightarrow> (nat \<times> nat) list" where
  "spans n [] = []"
| "spans n (p # ps) = (n, n + length p) # spans (n + length p) ps"

definition tail_cut :: "int \<Rightarrow> bytes list \<Rightarrow> bytes list" where
  "tail_cut t ps = (if t > 0 then drop (length (hd ps) - nat t) (hd ps) # tl ps else ps)"

text \<open>
  A chunk carries a payload: a calldata chunk is the payload and its hash is anchored; a blob chunk is
  the packing of the payload, and the versioned hash of its commitment is anchored. The fields of the
  other kind are empty.
\<close>

definition carries :: "da_lib \<Rightarrow> ChunkWitness \<Rightarrow> bytes \<Rightarrow> bool" where
  "carries L c p \<longleftrightarrow>
    (if is_calldata c
     then calldata_bytes c = p \<and> keccak256 L p = chunk_hash c \<and> blob_bytes c = [] \<and> kzg_commitment c = [] \<and> kzg_proof c = []
     else pack_blob_payload p = Ret (blob_bytes c) \<and> kzg_commitment_to_versioned_hash L (kzg_commitment c) = chunk_hash c
       \<and> calldata_bytes c = [] \<and> length (kzg_commitment c) = BYTES_PER_COMMITMENT L \<and> length (kzg_proof c) = BYTES_PER_PROOF L)"

text \<open>The blobs, if any, open their commitments in one KZG batch.\<close>

definition batch_opens :: "da_lib \<Rightarrow> ChunkWitness list \<Rightarrow> bool" where
  "batch_opens L bs \<longleftrightarrow> bs = [] \<or> verify_blob_kzg_proof_batch L (concat (map blob_bytes bs))
     (concat (map kzg_commitment bs)) (concat (map kzg_proof bs)) = Some True"

definition chunks_bound :: "da_lib \<Rightarrow> ChunkWitness list \<Rightarrow> bytes list \<Rightarrow> bool" where
  "chunks_bound L cs pls \<longleftrightarrow> list_all2 (carries L) cs pls \<and> batch_opens L (filter is_blob cs)"

definition blobs_full :: "ChunkWitness list \<Rightarrow> bytes list \<Rightarrow> bool" where
  "blobs_full cs pls \<longleftrightarrow> (\<forall>((c, p), (c', _))\<in>set (neighbours (zip cs pls)).
    is_blob c \<and> is_blob c' \<longrightarrow> length p = BLOB_PAYLOAD_CAPACITY)"

text \<open>The rolling hash before the first chunk: opened when the proof starts inside a blob.\<close>

definition starts_at :: "da_lib \<Rightarrow> ChunkWitness list \<Rightarrow> bytes list \<Rightarrow> hash32 \<Rightarrow> int \<Rightarrow> hash32 option \<Rightarrow> hash32 \<Rightarrow> bool" where
  "starts_at L cs pls h t b start \<longleftrightarrow>
    (if t > 0 then is_blob (hd cs) \<and> t < int (length (hd pls)) \<and> b = Some start
       \<and> data_rolling_hash L start (chunk_hash (hd cs)) = h
     else start = h)"

definition chain :: "da_lib \<Rightarrow> hash32 \<Rightarrow> ChunkWitness list \<Rightarrow> hash32" where
  "chain L = foldl (\<lambda>h c. data_rolling_hash L h (chunk_hash c))"

definition chunks_owned :: "ChunkWitness list \<Rightarrow> bytes list \<Rightarrow> nat list \<Rightarrow> bool" where
  "chunks_owned cs pls ends \<longleftrightarrow> (\<forall>(c, s, e)\<in>set (zip cs (spans 0 pls)).
    s < e \<and> s < last ends \<and> (is_calldata c \<longrightarrow> e \<in> set ends))"

definition accepts :: "da_lib \<Rightarrow> ChunkWitness list \<Rightarrow> bytes list \<Rightarrow> hash32 \<Rightarrow> int \<Rightarrow> hash32 option \<Rightarrow> hash32 \<Rightarrow> int
    \<Rightarrow> bytes list \<Rightarrow> hash32 \<Rightarrow> bytes list \<Rightarrow> bytes \<Rightarrow> bool" where
  "accepts L cs ps h t b h' d pls start frames tail \<longleftrightarrow>
    cs \<noteq> [] \<and> ps \<noteq> [] \<and> chunks_bound L cs pls \<and> blobs_full cs pls \<and> starts_at L cs pls h t b start
    \<and> segmented L frames ps \<and> concat (tail_cut t pls) = concat (map seg frames) @ tail \<and> d = int (length tail)
    \<and> chunks_owned cs (tail_cut t pls) (seg_ends 0 frames) \<and> h' = chain L start cs"

section \<open>The check decides the contract\<close>

lemma validate_iff: "validate_zstd_frame L f p = Ret () \<longleftrightarrow> frame_of L f p"
  by (auto simp: validate_zstd_frame_def frame_of_def ZSTD_MAX_WINDOW_SIZE_def split: option.splits)

lemma payload_iff: "verified_chunk_payload L c = Ret p \<longleftrightarrow> carries L c p"
proof (cases "is_calldata c")
  case True
  then show ?thesis by (auto simp: verified_chunk_payload_def carries_def)
next
  case False
  then show ?thesis unfolding carries_def unpack_iff [symmetric]
    by (auto simp: verified_chunk_payload_def go_simps)
qed

lemma batch_iff: "verify_blob_kzg_proofs L bs = Ret () \<longleftrightarrow> batch_opens L bs"
  by (auto simp: verify_blob_kzg_proofs_def batch_opens_def split: option.splits)

lemmas contract_iffs = validate_iff payload_iff batch_iff

lemma length_seg [simp]: "length (seg f) = 4 + length f"
  by (simp add: seg_def)

lemma seg_prefix: "length f < 2 ^ 32 \<Longrightarrow> be_nat (take 4 (seg f @ r)) = length f"
  by (simp add: seg_def)

lemma seg_ends_Nil [simp]: "seg_ends n fs = [] \<longleftrightarrow> fs = []"
  by (cases fs) auto

lemma seg_ends_last: "fs \<noteq> [] \<Longrightarrow> last (seg_ends n fs) = n + length (concat (map seg fs))"
  by (induction fs arbitrary: n rule: list_nonempty_induct) auto

lemma segmented_simps [simp]:
  "segmented L [] ps \<longleftrightarrow> ps = []" "segmented L fs [] \<longleftrightarrow> fs = []"
  "segmented L (f # fs) (p # ps) \<longleftrightarrow> f \<noteq> [] \<and> length f < 2 ^ 32 \<and> frame_of L f p \<and> segmented L fs ps"
  by (auto simp: segmented_def)

lemma segment_step_iff:
  "segment_step L (pre @ s) p (length pre, acc) = Ret (n, acc') \<longleftrightarrow>
    (\<exists>f r. s = seg f @ r \<and> f \<noteq> [] \<and> length f < 2 ^ 32 \<and> frame_of L f p
      \<and> n = length pre + (4 + length f) \<and> acc' = acc @ [n])" (is "?l \<longleftrightarrow> ?r")
proof
  assume l: ?l
  define len where "len = be_nat (take 4 s)"
  from l have s4: "4 \<le> length s" "len \<noteq> 0" "len \<le> length s - 4"
    and v: "frame_of L (take len (drop 4 s)) p"
    and n: "n = length pre + (4 + len)" "acc' = acc @ [n]"
    by (auto simp: segment_step_def Let_def go_simps len_def validate_iff split: if_splits)
  define f where "f = take len (drop 4 s)"
  have lf: "length f = len" using s4 by (simp add: f_def)
  have "be_bytes 4 len = take 4 s" using be_bytes_be_nat [of "take 4 s"] s4 by (simp add: len_def)
  then have "s = seg f @ drop (4 + len) s" unfolding seg_def lf
    by (simp add: f_def flip: drop_drop) (metis append_take_drop_id add.commute drop_drop)
  moreover have "len < 2 ^ 32" using be_nat_less [of "take 4 s"] s4 by (simp add: len_def)
  ultimately show ?r using s4 v n lf by (intro exI [of _ f] exI [of _ "drop (4 + len) s"]) (auto simp: f_def)
next
  assume ?r
  then show ?l using seg_prefix by (auto simp: segment_step_def Let_def go_simps seg_def validate_iff)
qed

lemma segment_loop_iff:
  "py_for (segment_step L (pre @ s)) ps (length pre, acc) = Ret (n, acc') \<longleftrightarrow>
    (\<exists>fs r. s = concat (map seg fs) @ r \<and> segmented L fs ps \<and> n = length pre + length (concat (map seg fs))
      \<and> acc' = acc @ seg_ends (length pre) fs)"
proof (induction ps arbitrary: pre s acc)
  case (Cons p ps)
  show ?case (is "?l \<longleftrightarrow> ?r")
  proof
    assume ?l
    then obtain m acc1 where 1: "segment_step L (pre @ s) p (length pre, acc) = Ret (m, acc1)"
      and 2: "py_for (segment_step L (pre @ s)) ps (m, acc1) = Ret (n, acc')" by (auto simp: go_simps)
    from 1 obtain f r where f: "s = seg f @ r" "f \<noteq> []" "length f < 2 ^ 32" "frame_of L f p"
      "m = length (pre @ seg f)" "acc1 = acc @ [m]" unfolding segment_step_iff by auto
    have "py_for (segment_step L ((pre @ seg f) @ r)) ps (length (pre @ seg f), acc1) = Ret (n, acc')"
      using 2 unfolding f(1,5) append_assoc .
    then obtain fs r' where "r = concat (map seg fs) @ r'" "segmented L fs ps"
      "n = length (pre @ seg f) + length (concat (map seg fs))" "acc' = acc1 @ seg_ends (length (pre @ seg f)) fs"
      unfolding Cons.IH by blast
    then show ?r using f by (intro exI [of _ "f # fs"] exI [of _ r']) auto
  next
    assume ?r
    then obtain fs r where fs: "s = concat (map seg fs) @ r" "segmented L fs (p # ps)"
      "n = length pre + length (concat (map seg fs))" "acc' = acc @ seg_ends (length pre) fs" by blast
    then obtain f fs' where f: "fs = f # fs'" by (cases fs) auto
    let ?m = "length (pre @ seg f)"
    have 1: "segment_step L (pre @ s) p (length pre, acc) = Ret (?m, acc @ [?m])"
      unfolding segment_step_iff using fs f by (intro exI [of _ f] exI [of _ "concat (map seg fs') @ r"]) auto
    have "py_for (segment_step L ((pre @ seg f) @ concat (map seg fs') @ r)) ps (?m, acc @ [?m]) = Ret (n, acc')"
      unfolding Cons.IH using fs f by (intro exI [of _ fs'] exI [of _ r]) auto
    then show ?l using 1 fs(1) f by simp
  qed
qed auto

lemma parse_segment_ends_iff:
  "parse_segment_ends L s ps = Ret ends \<longleftrightarrow>
    (\<exists>fs r. s = concat (map seg fs) @ r \<and> segmented L fs ps \<and> ends = seg_ends 0 fs)"
  using segment_loop_iff [of L "[]" s ps "[]"] by (auto simp: parse_segment_ends_def go_simps)

lemma owned_step_iff:
  "owned_step ends (c, p) n = Ret m \<longleftrightarrow>
    m = n + length p \<and> n < n + length p \<and> n < last ends \<and> (is_calldata c \<longrightarrow> n + length p \<in> set ends)"
  by (auto simp: owned_step_def Let_def min_le_iff_disj)

lemma owned_loop_iff:
  "length cs = length ps \<Longrightarrow> (\<exists>m. py_for (owned_step ends) (zip cs ps) n = Ret m) \<longleftrightarrow>
    (\<forall>(c, s, e)\<in>set (zip cs (spans n ps)). s < e \<and> s < last ends \<and> (is_calldata c \<longrightarrow> e \<in> set ends))"
proof (induction cs ps arbitrary: n rule: list_induct2)
  case (Cons c cs p ps)
  show ?case using Cons.IH [of "n + length p"] by (auto simp: owned_step_iff go_simps)
qed simp

lemma full_iff: "py_all full_before_blob (neighbours (zip cs pls)) = Ret () \<longleftrightarrow> blobs_full cs pls"
  unfolding py_all_Ret_iff full_before_blob_def blobs_full_def by (intro ball_cong) (auto split: prod.splits)

lemma fold_iff:
  "cs \<noteq> [] \<Longrightarrow> fold_data_rolling_hash L cs t h b = Ret h' \<longleftrightarrow>
    (if t > 0 then \<exists>start. b = Some start \<and> data_rolling_hash L start (chunk_hash (hd cs)) = h \<and> h' = chain L start cs
     else h' = chain L h cs)"
  by (cases cs) (auto simp: fold_data_rolling_hash_def chain_def go_simps split: option.splits)

lemma cut_iff:
  "cut_first cs t pls = Ret qs \<longleftrightarrow> qs = tail_cut t pls \<and> (t > 0 \<longrightarrow> is_blob (hd cs) \<and> t < int (length (hd pls)))"
  by (auto simp: cut_first_def tail_cut_def is_blob_def)

lemma tail_cut_length: "pls \<noteq> [] \<Longrightarrow> length (tail_cut t pls) = length pls"
  by (cases pls) (auto simp: tail_cut_def)

lemma bound_length:
  assumes "list_all2 P cs pls" and "cs \<noteq> []"
  shows "length cs = length (tail_cut t pls)"
proof -
  have "length cs = length pls" using assms(1) by (rule list_all2_lengthD)
  moreover from this have "pls \<noteq> []" using assms(2) by auto
  ultimately show ?thesis by (simp add: tail_cut_length)
qed

lemma verify_da_chunks_iff:
  "verify_da_chunks L cs ps h t b = Ret (h', d) \<longleftrightarrow> (\<exists>pls start frames tail. accepts L cs ps h t b h' d pls start frames tail)"
  (is "?l \<longleftrightarrow> ?r")
proof
  assume ?l
  then obtain pls ends m where cs: "cs \<noteq> []" and
    o: "list_all2 (carries L) cs pls" "batch_opens L (filter is_blob cs)"
    "blobs_full cs pls" "t > 0 \<longrightarrow> is_blob (hd cs) \<and> t < int (length (hd pls))"
    and ends: "parse_segment_ends L (concat (tail_cut t pls)) ps = Ret ends" "ends \<noteq> []"
    and own: "py_for (owned_step ends) (zip cs (tail_cut t pls)) 0 = Ret m"
    and f: "fold_data_rolling_hash L cs t h b = Ret h'"
    and d: "d = int (length (concat (tail_cut t pls))) - int (last ends)"
    by (auto simp: verify_da_chunks_def go_simps py_map_Ret_iff full_iff cut_iff contract_iffs Let_def split: if_splits)
  from ends obtain fs tail where fs: "concat (tail_cut t pls) = concat (map seg fs) @ tail" "segmented L fs ps" "ends = seg_ends 0 fs"
    unfolding parse_segment_ends_iff by blast
  have "length cs = length (tail_cut t pls)" using o(1) cs by (rule bound_length)
  then have "chunks_owned cs (tail_cut t pls) ends" using own owned_loop_iff unfolding chunks_owned_def by blast
  moreover obtain start where "starts_at L cs pls h t b start" "h' = chain L start cs"
    using f o(4) unfolding fold_iff [OF cs] starts_at_def by (cases "t > 0") auto
  moreover have "d = int (length tail)" using d ends(2) fs by (simp add: seg_ends_last)
  moreover have "ps \<noteq> []" using ends(2) fs by auto
  ultimately show ?r unfolding accepts_def chunks_bound_def using cs o fs by blast
next
  assume ?r
  then obtain pls start fs tail where a: "accepts L cs ps h t b h' d pls start fs tail" by blast
  then have cs: "cs \<noteq> []" and all: "list_all2 (carries L) cs pls" and fs: "fs \<noteq> []"
    unfolding accepts_def chunks_bound_def by auto
  have "length cs = length (tail_cut t pls)" using all cs by (rule bound_length)
  then obtain m where own: "py_for (owned_step (seg_ends 0 fs)) (zip cs (tail_cut t pls)) 0 = Ret m"
    using a owned_loop_iff unfolding accepts_def chunks_owned_def by blast
  have parse: "parse_segment_ends L (concat (tail_cut t pls)) ps = Ret (seg_ends 0 fs)"
    unfolding parse_segment_ends_iff using a unfolding accepts_def by blast
  have f: "fold_data_rolling_hash L cs t h b = Ret h'"
    unfolding fold_iff [OF cs] using a by (auto simp: accepts_def starts_at_def)
  have cut: "cut_first cs t pls = Ret (tail_cut t pls)" unfolding cut_iff using a by (simp add: accepts_def starts_at_def)
  have "py_map (verified_chunk_payload L) cs = Ret pls" unfolding py_map_Ret_iff payload_iff by (rule all)
  moreover have "py_all full_before_blob (neighbours (zip cs pls)) = Ret ()" "verify_blob_kzg_proofs L (filter is_blob cs) = Ret ()"
    using a by (simp_all add: full_iff batch_iff accepts_def chunks_bound_def)
  ultimately show ?l using cs fs own parse f cut a
    by (simp add: verify_da_chunks_def seg_ends_last accepts_def)
qed

section \<open>Neighbouring proofs\<close>

definition payload_of :: "da_lib \<Rightarrow> ChunkWitness \<Rightarrow> bytes" where
  "payload_of L c = (case verified_chunk_payload L c of Ret p \<Rightarrow> p | _ \<Rightarrow> [])"

text \<open>The published stream of the chunks, from the last \<open>t\<close> bytes of the first one when \<open>t\<close> is positive.\<close>

definition chunk_stream :: "da_lib \<Rightarrow> int \<Rightarrow> ChunkWitness list \<Rightarrow> bytes" where
  "chunk_stream L t cs = concat (tail_cut t (map (payload_of L) cs))"

text \<open>
  The frames are all of the stream except its last \<open>d\<close> bytes, which are a proper suffix of the last
  chunk; the rolling hash over the chunks is \<open>h\<close>.
\<close>

definition covers :: "da_lib \<Rightarrow> hash32 \<Rightarrow> int \<Rightarrow> ChunkWitness list \<Rightarrow> hash32 \<Rightarrow> int \<Rightarrow> bytes list \<Rightarrow> bool" where
  "covers L start t cs h d frames \<longleftrightarrow> cs \<noteq> [] \<and> h = chain L start cs
    \<and> (\<exists>tail u. chunk_stream L t cs = concat (map seg frames) @ tail \<and> d = int (length tail)
        \<and> payload_of L (last cs) = u @ tail \<and> u \<noteq> [])"

lemma bound_payloads: "chunks_bound L cs pls \<Longrightarrow> pls = map (payload_of L) cs"
  unfolding chunks_bound_def payload_iff [symmetric] by (auto simp: list_all2_conv_all_nth payload_of_def intro!: nth_equalityI)

lemma chunk_stream_append: "cs \<noteq> [] \<Longrightarrow> chunk_stream L t (cs @ ds) = chunk_stream L t cs @ concat (map (payload_of L) ds)"
  by (cases cs) (auto simp: chunk_stream_def tail_cut_def)

lemma chain_append [simp]: "chain L h (cs @ ds) = chain L (chain L h cs) ds"
  by (simp add: chain_def)

lemma chain_simps [simp]: "chain L h [] = h" "chain L h (c # cs) = chain L (data_rolling_hash L h (chunk_hash c)) cs"
  by (simp_all add: chain_def)

lemma spans_last: "ps \<noteq> [] \<Longrightarrow> last (spans n ps) = (n + length (concat (butlast ps)), n + length (concat ps))"
proof (induction ps arbitrary: n rule: list_nonempty_induct)
  case (cons p ps)
  have "spans (n + length p) ps \<noteq> []" using cons.hyps by (cases ps) auto
  then show ?case using cons.IH [of "n + length p"] cons.hyps by simp
qed simp

lemma length_spans [simp]: "length (spans n ps) = length ps"
  by (induction ps arbitrary: n) auto

lemma suffix_split:
  assumes "xs @ q = s @ tail" and "length xs < length s"
  shows "\<exists>u. q = u @ tail \<and> u \<noteq> []"
proof -
  have "q = drop (length xs) (s @ tail)" unfolding assms(1) [symmetric] by simp
  also have "\<dots> = drop (length xs) s @ tail" using assms(2) by simp
  finally show ?thesis using assms(2) by (intro exI [of _ "drop (length xs) s"]) simp
qed

lemma last_owned:
  assumes "chunks_owned cs qs ends" and "cs \<noteq> []" and "length cs = length qs"
  shows "length (concat (butlast qs)) < last ends" and "is_calldata (last cs) \<Longrightarrow> length (concat qs) \<in> set ends"
proof -
  have qs: "qs \<noteq> []" using assms(2,3) by auto
  then have sp: "spans 0 qs \<noteq> []" by (cases qs) auto
  then have "(last cs, last (spans 0 qs)) = last (zip cs (spans 0 qs))"
    using assms(2,3) by (simp add: last_zip)
  also have "\<dots> \<in> set (zip cs (spans 0 qs))" using assms(2) sp by (intro last_in_set) (simp add: zip_eq_Nil_iff)
  finally show "length (concat (butlast qs)) < last ends" "is_calldata (last cs) \<Longrightarrow> length (concat qs) \<in> set ends"
    using assms(1) qs by (auto simp: chunks_owned_def spans_last)
qed

lemma last_tail_cut: "pls \<noteq> [] \<Longrightarrow> \<exists>v. last pls = v @ last (tail_cut t pls)"
proof (cases "t > 0 \<and> tl pls = []")
  case True
  assume "pls \<noteq> []"
  then have "last pls = hd pls" using True by (cases pls) auto
  then show ?thesis using True
    by (intro exI [of _ "take (length (hd pls) - nat t) (hd pls)"]) (simp add: tail_cut_def)
next
  case False
  assume "pls \<noteq> []"
  then have "last pls = last (tail_cut t pls)" using False by (cases pls) (auto simp: tail_cut_def)
  then show ?thesis by (intro exI [of _ "[]"]) simp
qed

lemma accepts_covers:
  assumes "accepts L cs ps h t b h' d pls start frames tail"
  shows "covers L start t cs h' d frames"
proof -
  note a = assms [unfolded accepts_def]
  have cs: "cs \<noteq> []" and pls: "pls = map (payload_of L) cs" using a bound_payloads by auto
  let ?qs = "tail_cut t pls"
  have len: "length cs = length ?qs" using bound_length a unfolding chunks_bound_def by blast
  have "frames \<noteq> []" using a by auto
  then have "length (concat (butlast ?qs)) < length (concat (map seg frames))"
    using last_owned(1) [OF _ cs len] a by (metis add_0 seg_ends_last)
  moreover have "concat (butlast ?qs) @ last ?qs = concat (map seg frames) @ tail"
    using a len cs by (metis append_butlast_last_id concat.simps concat_append length_0_conv self_append_conv)
  ultimately obtain u where "last ?qs = u @ tail" "u \<noteq> []" using suffix_split by metis
  moreover have "pls \<noteq> []" using cs pls by simp
  ultimately obtain u' where "last pls = u' @ tail" "u' \<noteq> []" using last_tail_cut [of pls t] by auto
  then show ?thesis using a cs unfolding covers_def chunk_stream_def pls by (auto simp: last_map)
qed

lemma seg_ends_le: "e \<in> set (seg_ends n fs) \<Longrightarrow> e \<le> n + length (concat (map seg fs))"
  by (induction fs arbitrary: n) fastforce+

text \<open>A calldata chunk is never shared.\<close>

lemma shared_is_blob:
  assumes "accepts L cs ps h t b h' d pls start frames tail" and "d > 0"
  shows "is_blob (last cs)"
proof (rule ccontr)
  assume "\<not> is_blob (last cs)"
  note a = assms(1) [unfolded accepts_def]
  have "length cs = length (tail_cut t pls)" using bound_length a unfolding chunks_bound_def by blast
  then have "length (concat (tail_cut t pls)) \<in> set (seg_ends 0 frames)"
    using last_owned(2) \<open>\<not> is_blob (last cs)\<close> a unfolding is_blob_def by blast
  from seg_ends_le [OF this] show False using a assms(2) by simp
qed

text \<open>
  A seam between two proofs that share a blob breaks only with two preimages of the rolling hash,
  two commitments with one versioned hash, or two blobs opened under one KZG commitment.
\<close>

definition seam_broken :: "da_lib \<Rightarrow> hash32 \<Rightarrow> ChunkWitness \<Rightarrow> hash32 \<Rightarrow> ChunkWitness \<Rightarrow> bool" where
  "seam_broken L prev c prev' c' \<longleftrightarrow> collides (keccak256 L) (prev @ chunk_hash c) (prev' @ chunk_hash c')
    \<or> collides (kzg_commitment_to_versioned_hash L) (kzg_commitment c) (kzg_commitment c')
    \<or> kzg_commitment c = kzg_commitment c' \<and> blob_bytes c \<noteq> blob_bytes c'"

lemma blob_payload:
  assumes "verified_chunk_payload L c = Ret p" and "is_blob c"
  shows "unpack_blob_payload (blob_bytes c) = Ret p" and "kzg_commitment_to_versioned_hash L (kzg_commitment c) = chunk_hash c"
  using assms by (auto simp: verified_chunk_payload_def is_blob_def go_simps split: if_splits)

lemma bound_verified: "chunks_bound L cs pls \<Longrightarrow> c \<in> set cs \<Longrightarrow> verified_chunk_payload L c = Ret (payload_of L c)"
  unfolding chunks_bound_def payload_iff [symmetric] by (auto simp: list_all2_conv_all_nth in_set_conv_nth payload_of_def)

lemma same_blob:
  assumes "\<not> seam_broken L prev c prev' c'" and "data_rolling_hash L prev (chunk_hash c) = data_rolling_hash L prev' (chunk_hash c')"
    and "length (chunk_hash c) = length (chunk_hash c')" and "is_blob c" "is_blob c'"
    and v: "verified_chunk_payload L c = Ret p" "verified_chunk_payload L c' = Ret p'"
  shows "p = p'"
proof -
  have "prev @ chunk_hash c = prev' @ chunk_hash c'"
    using assms(1,2) by (auto simp: seam_broken_def collides_def data_rolling_hash_def)
  then have "chunk_hash c = chunk_hash c'" using assms(3) by simp
  then have "kzg_commitment_to_versioned_hash L (kzg_commitment c) = kzg_commitment_to_versioned_hash L (kzg_commitment c')"
    using blob_payload(2) [OF v(1) assms(4)] blob_payload(2) [OF v(2) assms(5)] by simp
  then have "blob_bytes c = blob_bytes c'" using assms(1) by (auto simp: seam_broken_def collides_def)
  then show ?thesis using blob_payload(1) [OF v(1) assms(4)] blob_payload(1) [OF v(2) assms(5)] by simp
qed

lemma covers_join:
  assumes A: "covers L start t cs h d fs" and B: "covers L start' d ds h' d' fs'"
    and seam: "d > 0 \<Longrightarrow> h = data_rolling_hash L start' (chunk_hash (hd ds))"
      "d > 0 \<Longrightarrow> payload_of L (hd ds) = payload_of L (last cs)" "\<not> d > 0 \<Longrightarrow> start' = h"
  shows "covers L start t (cs @ (if d > 0 then tl ds else ds)) h' d' (fs @ fs')"
proof -
  from A obtain tail u where a: "cs \<noteq> []" "h = chain L start cs" "chunk_stream L t cs = concat (map seg fs) @ tail"
    "d = int (length tail)" "payload_of L (last cs) = u @ tail" by (auto simp: covers_def)
  from B obtain tail' u' where b: "ds \<noteq> []" "h' = chain L start' ds" "chunk_stream L d ds = concat (map seg fs') @ tail'"
    "d' = int (length tail')" "payload_of L (last ds) = u' @ tail'" "u' \<noteq> []" by (auto simp: covers_def)
  from b(1) obtain x xs where ds: "ds = x # xs" by (cases ds) auto
  show ?thesis
  proof (cases "d > 0")
    case True
    have "tail @ concat (map (payload_of L) xs) = concat (map seg fs') @ tail'"
      using b(3) seam(2) [OF True] True a(4,5) by (simp add: ds chunk_stream_def tail_cut_def)
    then have "chunk_stream L t (cs @ xs) = concat (map seg (fs @ fs')) @ tail'"
      using a(1,3) by (simp add: chunk_stream_append)
    moreover have "payload_of L (last (cs @ xs)) = u' @ tail'"
      using b(5) seam(2) [OF True] by (cases "xs = []") (simp_all add: ds)
    ultimately show ?thesis using True a b seam(1) unfolding covers_def by (auto simp: ds)
  next
    case False
    then have "tail = []" "d = 0" using a(4) by auto
    then have "chunk_stream L t (cs @ ds) = concat (map seg (fs @ fs')) @ tail'"
      using a(1,3) b(3) by (simp add: chunk_stream_append) (simp add: chunk_stream_def tail_cut_def)
    then show ?thesis using False a b seam(3) unfolding covers_def by auto
  qed
qed

text \<open>
  A sequence of proofs, each starting at the rolling hash and tail count where the one before ended:
  its end, the chunks it touches with the shared ones once, and whether a seam is broken.
\<close>

type_synonym da_run = "ChunkWitness list \<times> bytes list \<times> hash32 option"

fun da_session :: "da_lib \<Rightarrow> hash32 \<Rightarrow> int \<Rightarrow> da_run list \<Rightarrow> (hash32 \<times> int) go" where
  "da_session L h t [] = Ret (h, t)"
| "da_session L h t ((cs, ps, b) # rs) = go_bind (verify_da_chunks L cs ps h t b) (\<lambda>(h1, d1). da_session L h1 d1 rs)"

fun merged_chunks :: "da_lib \<Rightarrow> hash32 \<Rightarrow> int \<Rightarrow> da_run list \<Rightarrow> ChunkWitness list" where
  "merged_chunks L h t [] = []"
| "merged_chunks L h t ((cs, ps, b) # rs) = (case verify_da_chunks L cs ps h t b of
      Ret (h1, d1) \<Rightarrow> cs @ (if d1 > 0 then tl (merged_chunks L h1 d1 rs) else merged_chunks L h1 d1 rs)
    | _ \<Rightarrow> [])"

fun session_broken :: "da_lib \<Rightarrow> hash32 \<Rightarrow> int \<Rightarrow> da_run list \<Rightarrow> bool" where
  "session_broken L h t ((cs, ps, b) # (cs', ps', b') # rs) = (case verify_da_chunks L cs ps h t b of
      Ret (h1, d1) \<Rightarrow>
        d1 > 0 \<and> seam_broken L (chain L (if t > 0 then the b else h) (butlast cs)) (last cs) (the b') (hd cs')
        \<or> session_broken L h1 d1 ((cs', ps', b') # rs)
    | _ \<Rightarrow> False)"
| "session_broken L h t _ = False"

definition published :: "da_lib \<Rightarrow> hash32 \<Rightarrow> int \<Rightarrow> ChunkWitness list \<Rightarrow> bytes list \<Rightarrow> hash32 \<Rightarrow> int \<Rightarrow> bool" where
  "published L h t cs ps h' d \<longleftrightarrow> (\<exists>start frames. segmented L frames ps \<and> covers L start t cs h' d frames
    \<and> (if t > 0 then data_rolling_hash L start (chunk_hash (hd cs)) = h else start = h))"

lemma segmented_append: "segmented L fs ps \<Longrightarrow> segmented L fs' ps' \<Longrightarrow> segmented L (fs @ fs') (ps @ ps')"
  unfolding segmented_def by (rule list_all2_appendI)

lemma merged_hd:
  assumes "da_session L h t ((cs, ps, b) # rs) = Ret e"
  shows "hd (merged_chunks L h t ((cs, ps, b) # rs)) = hd cs" and "cs \<noteq> []"
  using assms by (auto simp: go_simps verify_da_chunks_def)

lemma accepts_published:
  assumes "accepts L cs ps h t b h' d pls start frames tail"
  shows "published L h t cs ps h' d"
proof -
  have "segmented L frames ps" "starts_at L cs pls h t b start" using assms by (simp_all add: accepts_def)
  moreover from this(2) have "if t > 0 then data_rolling_hash L start (chunk_hash (hd cs)) = h else start = h"
    unfolding starts_at_def by (simp split: if_splits)
  ultimately show ?thesis using accepts_covers [OF assms] unfolding published_def by blast
qed

lemma seam_payload:
  assumes A: "accepts L cs ps h t b h1 d1 pls start fs tail" and B: "accepts L cs' ps' h1 d1 b' h2 d2 pls' start' fs' tail'"
    and "d1 > 0" and "\<forall>c\<in>set cs \<union> set cs'. length (chunk_hash c) = 32"
    and "\<not> seam_broken L (chain L start (butlast cs)) (last cs) start' (hd cs')"
  shows "payload_of L (hd cs') = payload_of L (last cs)"
proof -
  have cs: "last cs \<in> set cs" "hd cs' \<in> set cs'" and v: "chunks_bound L cs pls" "chunks_bound L cs' pls'"
    and s: "starts_at L cs' pls' h1 d1 b' start'" and h: "h1 = chain L start cs" and ne: "cs \<noteq> []"
    using A B by (auto simp: accepts_def)
  have "h1 = chain L start (butlast cs @ [last cs])" using h ne by simp
  then have "data_rolling_hash L (chain L start (butlast cs)) (chunk_hash (last cs)) = data_rolling_hash L start' (chunk_hash (hd cs'))"
    using s assms(3) unfolding starts_at_def chain_append by simp
  then show ?thesis
    using same_blob [OF assms(5) _ _ _ _ bound_verified [OF v(1) cs(1)] bound_verified [OF v(2) cs(2)]]
      shared_is_blob [OF A assms(3)] s assms(3,4) cs unfolding starts_at_def by auto
qed

lemma published_join:
  assumes A: "accepts L cs ps h t b h1 d1 pls start fs tail" and B: "published L h1 d1 ds ps' h' d'"
    and seam: "d1 > 0 \<Longrightarrow> payload_of L (hd ds) = payload_of L (last cs)"
  shows "published L h t (cs @ (if d1 > 0 then tl ds else ds)) (ps @ ps') h' d'"
proof -
  from B obtain start' fs' where b: "segmented L fs' ps'" "covers L start' d1 ds h' d' fs'"
    "if d1 > 0 then data_rolling_hash L start' (chunk_hash (hd ds)) = h1 else start' = h1" by (auto simp: published_def)
  have a: "covers L start t cs h1 d1 fs" "segmented L fs ps" "starts_at L cs pls h t b start" "cs \<noteq> []"
    using A accepts_covers [OF A] by (auto simp: accepts_def)
  have "covers L start t (cs @ (if d1 > 0 then tl ds else ds)) h' d' (fs @ fs')"
    by (rule covers_join [OF a(1) b(2)]) (use b(3) seam in auto)
  moreover have "if t > 0 then data_rolling_hash L start (chunk_hash (hd (cs @ xs))) = h else start = h" for xs
    using a(3,4) unfolding starts_at_def by (simp split: if_splits)
  ultimately show ?thesis using segmented_append [OF a(2) b(1)] unfolding published_def by blast
qed

lemma session_published:
  assumes "da_session L h t rs = Ret (h', d)" and "rs \<noteq> []" and "\<forall>(cs, _)\<in>set rs. \<forall>c\<in>set cs. length (chunk_hash c) = 32"
    and "\<not> session_broken L h t rs"
  shows "published L h t (merged_chunks L h t rs) (concat (map (\<lambda>r. fst (snd r)) rs)) h' d"
  using assms
proof (induction rs arbitrary: h t)
  case (Cons r rs)
  obtain cs ps b where r: "r = (cs, ps, b)" by (cases r)
  from Cons.prems(1) obtain h1 d1 where v: "verify_da_chunks L cs ps h t b = Ret (h1, d1)" "da_session L h1 d1 rs = Ret (h', d)"
    by (auto simp: r go_simps)
  then obtain pls start fs tail where A: "accepts L cs ps h t b h1 d1 pls start fs tail" unfolding verify_da_chunks_iff by blast
  show ?case
  proof (cases rs)
    case Nil
    then show ?thesis using v accepts_published [OF A] by (simp add: r)
  next
    case (Cons r' rs')
    obtain cs' ps' b' where r': "r' = (cs', ps', b')" by (cases r')
    from v(2) obtain h2 d2 where v': "verify_da_chunks L cs' ps' h1 d1 b' = Ret (h2, d2)" by (auto simp: r' Cons go_simps)
    then obtain pls' start' fs' tail' where B: "accepts L cs' ps' h1 d1 b' h2 d2 pls' start' fs' tail'" unfolding verify_da_chunks_iff by blast
    have nb: "\<not> session_broken L h1 d1 rs" "d1 > 0 \<Longrightarrow> \<not> seam_broken L (chain L start (butlast cs)) (last cs) start' (hd cs')"
      using Cons.prems(4) v(1) A B by (auto simp: r r' Cons accepts_def starts_at_def split: if_splits)
    have len: "\<forall>c\<in>set cs \<union> set cs'. length (chunk_hash c) = 32" using Cons.prems(3) by (auto simp: r r' Cons)
    have hd: "hd (merged_chunks L h1 d1 rs) = hd cs'" using v(2) unfolding Cons r' by (rule merged_hd(1))
    have "published L h1 d1 (merged_chunks L h1 d1 rs) (concat (map (\<lambda>r. fst (snd r)) rs)) h' d"
      using Cons.IH [OF v(2) _ _ nb(1)] Cons.prems(3) by (simp add: Cons)
    moreover have "payload_of L (hd (merged_chunks L h1 d1 rs)) = payload_of L (last cs)" if "d1 > 0"
      unfolding hd using seam_payload [OF A B that len nb(2) [OF that]] .
    ultimately show ?thesis using published_join [OF A] v by (simp add: r)
  qed
qed simp

lemma segmented_frames:
  "segmented L fs ps \<Longrightarrow> list_all2 (\<lambda>f p. length f < 2 ^ 32 \<and> decompress L f (length p) = Some p) fs ps"
  unfolding segmented_def by (erule list_all2_mono) (simp add: frame_of_def)

section \<open>Properties\<close>

text \<open>
  C12: \<^verbatim>\<open>verify_da_chunks\<close> decides the contract of a proof's data. It returns an end position exactly
  when every chunk carries a payload under its anchored hash (calldata directly, by its keccak hash; a
  blob as the packing of the payload, by the versioned hash of its commitment) and the blobs open their
  commitments in one KZG batch, a blob before another blob is full, the proof starts at a chunk boundary or at the opened position inside a blob, the
  stream from there is one segment per conflation (a four-byte length and a zstd frame with the size of
  the canonical payload, the agreed dictionary, no checksum and a bounded window, that decompresses to
  it) followed by the discarded bytes, every chunk owns bytes, and a calldata chunk ends with a segment; the end
  hash is the rolling hash over the touched chunks.
\<close>

theorem da_chunks_decided:
  "(verify_da_chunks L cs ps h t b = Ret (h', d)) = (\<exists>pls start frames tail. accepts L cs ps h t b h' d pls start frames tail)"
  by (rule verify_da_chunks_iff)

text \<open>
  C11: Proofs that follow each other tile the published stream. When each proof of a sequence starts at the rolling hash and
  tail count at which the one before ended, the chunks they touch, shared blobs counted once, carry exactly
  one frame per conflation of all the proofs, in order, with no byte between or twice, and the last \<open>d\<close>
  bytes of the last chunk are left over; the end hash is the rolling hash over these chunks. Otherwise a
  seam exhibits a keccak collision, a versioned-hash collision or two blobs under one commitment.
\<close>

theorem published_stream_tiled:
  assumes "da_session L h t rs = Ret (h', d)" and "rs \<noteq> []" and "\<forall>(cs, _)\<in>set rs. \<forall>c\<in>set cs. length (chunk_hash c) = 32"
  shows "session_broken L h t rs
    \<or> (\<exists>start frames. list_all2 (\<lambda>f p. length f < 2 ^ 32 \<and> decompress L f (length p) = Some p) frames (concat (map (\<lambda>r. fst (snd r)) rs))
        \<and> covers L start t (merged_chunks L h t rs) h' d frames
        \<and> (if t > 0 then data_rolling_hash L start (chunk_hash (hd (merged_chunks L h t rs))) = h else start = h))"
  using session_published [OF assms] segmented_frames unfolding published_def by blast

text \<open>Two proofs that share one blob, with a constant hash and stored frames.\<close>

definition wit_lib :: da_lib where
  "wit_lib = \<lparr>keccak256 = \<lambda>_. ZERO_HASH, BYTES_PER_COMMITMENT = 1, BYTES_PER_PROOF = 1,
    kzg_commitment_to_versioned_hash = \<lambda>_. ZERO_HASH, verify_blob_kzg_proof_batch = \<lambda>_ _ _. Some True,
    get_frame_parameters = \<lambda>f. Some \<lparr>content_size = length f, dict_id = 0, has_checksum = False, window_size = 0\<rparr>,
    zstd_dictionary_id = 0, decompress = \<lambda>f _. Some f\<rparr>"

definition wit_chunk :: "bytes \<Rightarrow> ChunkWitness" where
  "wit_chunk blob = \<lparr>chunk_hash = ZERO_HASH, is_calldata = False, blob_bytes = blob, calldata_bytes = [],
    kzg_commitment = [0], kzg_proof = [0]\<rparr>"

lemma wit_verify:
  assumes "unpack_blob_payload blob = Ret [0, 0, 0, 1, 7, 0, 0, 0, 1, 9]"
  shows "verify_da_chunks wit_lib [wit_chunk blob] [[7]] ZERO_HASH 0 None = Ret (ZERO_HASH, 5)"
    "verify_da_chunks wit_lib [wit_chunk blob] [[9]] ZERO_HASH 5 (Some ZERO_HASH) = Ret (ZERO_HASH, 0)"
  using assms
  by (simp_all add: verify_da_chunks_def verified_chunk_payload_def wit_chunk_def wit_lib_def verify_blob_kzg_proofs_def
      is_blob_def py_all_def cut_first_def parse_segment_ends_def segment_step_def validate_zstd_frame_def be_nat_def
      owned_step_def fold_data_rolling_hash_def data_rolling_hash_def Let_def)

theorem published_stream_tiled_witness:
  "\<exists>blob rs. unpack_blob_payload blob = Ret [0, 0, 0, 1, 7, 0, 0, 0, 1, 9]
    \<and> rs = [([wit_chunk blob], [[7]], None), ([wit_chunk blob], [[9]], Some ZERO_HASH)]
    \<and> merged_chunks wit_lib ZERO_HASH 0 rs = [wit_chunk blob]
    \<and> (\<exists>start frames. list_all2 (\<lambda>f p. length f < 2 ^ 32 \<and> decompress wit_lib f (length p) = Some p) frames [[7], [9]]
      \<and> covers wit_lib start 0 [wit_chunk blob] ZERO_HASH 0 frames)"
proof -
  obtain blob where b: "unpack_blob_payload blob = Ret [0, 0, 0, 1, 7, 0, 0, 0, 1, 9]"
    using unpack_pack [of "[0, 0, 0, 1, 7, 0, 0, 0, 1, 9]"]
    by (auto simp: BLOB_PAYLOAD_CAPACITY_def FIELD_ELEMENTS_PER_BLOB_def PACKING_BITS_PER_ELEMENT_def)
  note v = wit_verify [OF b]
  let ?rs = "[([wit_chunk blob], [[7]], None), ([wit_chunk blob], [[9]], Some ZERO_HASH)]"
  have s: "da_session wit_lib ZERO_HASH 0 ?rs = Ret (ZERO_HASH, 0)" using v by simp
  have m: "merged_chunks wit_lib ZERO_HASH 0 ?rs = [wit_chunk blob]" using v by simp
  have "\<not> session_broken wit_lib ZERO_HASH 0 ?rs" using v by (simp add: seam_broken_def collides_def)
  moreover have "\<forall>(cs, _)\<in>set ?rs. \<forall>c\<in>set cs. length (chunk_hash c) = 32" by (simp add: wit_chunk_def ZERO_HASH_def)
  ultimately show ?thesis using published_stream_tiled [OF s] b m by fastforce
qed

end
