(* ===== verification/Spec2Isabelle.thy ===== *)
theory Spec2Isabelle
  imports State_Sound Riscv_Pack Smart_Compact Smart_Basic Rollup_Chunks
begin

text \<open>
  Verification of parts of the Linea prover, of its R5 arithmetization and of the rollup specification. The
  sources are Go and Python; each component is a theory, each type a record or datatype and each
  function one definition with the same name and the same branches.

  \<^bold>\<open>Conventions.\<close> A Go call returns a value of \<open>go\<close> (\<open>Go_Prelude\<close>): \<open>Ret\<close>, \<open>Err\<close> for a
  non-nil error, or \<open>Panic\<close>, also for the runtime checks (index out of range, nil dereference,
  division by zero). A method that mutates its receiver returns the new receiver. Go's \<^verbatim>\<open>int\<close> is
  \<open>int\<close> wherever the value is a length or a position; \<^verbatim>\<open>int64\<close> counters wrap by \<open>i64\<close>, and
  \<^verbatim>\<open>uint32\<close> and \<^verbatim>\<open>uint64\<close> are words. A Go map is an association list; an operation that ranges over
  it takes the order as an argument. Code outside the sources is an argument: gnark's field and
  Poseidon2 compression are the record \<open>G\<close> with the laws \<open>felt\<close> (\<open>Koala\<close>), the field of the
  smart-vectors is a type of class \<open>field\<close>, the ELF and JSON parsers are functions.

  \<^bold>\<open>The state of a block.\<close> The state manager (\<^verbatim>\<open>prover/backend/execution/statemanager\<close>) checks the
  traces of a block. It relies on the accumulator (\<^verbatim>\<open>prover/crypto/state-management/accumulator\<close>),
  a sorted linked list of leaves in a sparse Merkle tree (\<^verbatim>\<open>smt_koalabear\<close>), hashed with Poseidon2
  (\<^verbatim>\<open>prover/crypto/poseidon2_koalabear\<close>) over the encodings of \<^verbatim>\<open>prover/utils/types\<close>.
  \<^item> \<open>Koala\<close>, \<open>Poseidon_MD\<close>, \<open>Go_Types\<close>, \<open>Collections\<close>: octuplets, hasher, encodings, maps.
    Round trips, orders, the hasher as a stream, its binding up to a named collision, and where an encoding loses data.
  \<^item> \<open>Smt\<close>: the tree refines an array of leaves; an accepted proof opens the stored leaf or
    exhibits a collision; a proof made before an update audits the root after it.
  \<^item> \<open>Acc_Leaf\<close>, \<open>Acc_Prover\<close>, \<open>Acc_Verifier\<close>: both sides of the five operations.
    \<open>Acc_Links\<close> is the abstract sorted list and \<open>Acc_Run\<close> the step relation of a session, whose steps are the
    calls of the prover that return; \<open>Acc_Complete\<close> shows that honest traces are accepted, \<open>Acc_Sound\<close> and
    \<open>Acc_Trail\<close> what an accepted trace, or a sequence of them, implies. Hash functions collide, so soundness has
    an alternative: a collision between inputs computed from the trace and from the accumulator that the
    verifier tracks (\<open>track_run\<close>). \<open>Acc_Witness\<close> instantiates the parameters.
  \<^item> \<open>State_Traces\<close>, \<open>State_Patterns\<close>, \<open>State_Checks\<close>, \<open>State_Sound\<close>: decoding, inspection and
    verification of the traces of a block, and what a block that passes guarantees.

  \<^bold>\<open>The R5 inputs.\<close> \<^verbatim>\<open>arithmetization/gopkg\<close> turns an ELF program into the inputs of the R5
  interpreter.
  \<^item> \<open>Bit_Stream\<close>, \<open>Elf_Map\<close>: the memory map of \<^verbatim>\<open>elfmapping\<close>; the packed tables decode to the blobs.
  \<^item> \<open>Riscv_Decode\<close>, \<open>Riscv_Isa\<close>, \<open>Riscv_Pack\<close>: the predecoder agrees with a table of the instruction
    set on every 32-bit word, and its packed table holds the decoded record of every address.

  \<^bold>\<open>Smart-vectors.\<close> The columns of the prover (\<^verbatim>\<open>prover/maths/common/smartvectors\<close>) are vectors in
  compressed form: constant, regular, rotated, or a window on a padded circle.
  \<^item> \<open>Go_Slice\<close>, \<open>Circular\<close>: slices with their spare capacity, and intervals on a circle as sets of points,
    with the smallest cover.
  \<^item> \<open>Smart_Vectors\<close>, \<open>Smart_Compact\<close>: the abstraction \<open>vals\<close>, the well-formedness \<open>sv_ok\<close> and, for every
    method, that it computes on the compressed form what it should on the list; the compact forms.
  \<^item> \<open>Smart_Ops\<close>, \<open>Smart_Arith\<close>, \<open>Smart_Merge\<close>, \<open>Smart_Basic\<close>: the locale \<open>smart_operator\<close> is the contract
    of the two operators, and the n-ary arithmetic is proved once for it; the named operations follow.

  \<^bold>\<open>Rollup specification.\<close> \<^verbatim>\<open>rollup_spec\<close> is a Python reference of the guest programs. An exception is
  \<open>Err\<close>; \<^verbatim>\<open>keccak256\<close> is an argument.
  \<^item> \<open>Rollup_Base\<close>: bridge rolling hash, merged addresses, messaging offsets; each composes over parts of a range.
  \<^item> \<open>Rollup_Data\<close>: the packing of payloads into blobs and its canonical decoder.
  \<^item> \<open>Rollup_Chunks\<close>: the data check of a proof decides a contract that does not mention the code (\<open>accepts\<close>), and
    consecutive proofs tile the published stream. KZG and zstd are the record \<open>da_lib\<close>.

  \<^bold>\<open>Loops.\<close> Loops over slices and maps are structural recursion. The merge loop of
  \<^verbatim>\<open>SmallestCoverInterval\<close> has no bound and is a partial function, proved to return on every input.
  No definition uses fuel.

  \<^bold>\<open>Bounds.\<close> The trees have the depth 40 of the source. The verifier never compares the
  length of a proof with it, so the soundness properties assume it; they also assume that no update or
  read opens the head or tail leaf, which the verifier would accept for any key. Keys that hash to the head or
  the tail key are excluded from sessions. Positions of smart-vectors and circles do not wrap.

  \<^bold>\<open>Not modelled.\<close> In the packages above: JSON marshalling, printing, random and test helpers, and
  the parallel construction \<^verbatim>\<open>NewTree\<close>. Smart-vectors over the extension field repeat the base-field code
  with arithmetic that is gnark's. Of the rest of the repository, the proof system and the zkEVM modules
  (\<^verbatim>\<open>prover/protocol\<close>, \<^verbatim>\<open>prover/zkevm\<close>, \<^verbatim>\<open>prover-ray\<close>) and the circuits build symbolic objects whose meaning is
  in gnark; the tracer constraints and the ZkC programs are read by tools that are not in the sources;
  compression and FFT are libraries; the Kotlin, Java and TypeScript services and the command line are
  asynchronous I/O; the Solidity contracts depend on the EVM.
\<close>

section \<open>The accumulator: prover and verifier\<close>

text \<open>
  C1: A session starts from the initial accumulator and runs any sequence \<open>xs\<close> of insertions, deletions,
  updates and reads for which the calls of the prover return; its only restriction is that no key
  hashes to the reserved keys of the head and the tail. In every reachable state the prover satisfies
  the invariant of the accumulator (tree, data and sorted linked list agree), the verifier that starts
  from the snapshot of the initial state accepts all traces \<open>ts\<close> of the session and ends in the snapshot of
  the present state, and all operations are allowed by the abstract map, which ends with the contents
  of the accumulator. In particular an operation that the map does not allow never returns.
\<close>

theorem session_refines_map:
  assumes "felt G" and "session G wk wv p0 xs ts p"
  shows "acc_inv G wk wv p \<and> verifier_run G wk wv (VerifierState_of p0) ts = Ret (VerifierState_of p)
    \<and> spec_run G wk wv {} xs = Some (bindings (links_of p))"
  using felt.session_inv [OF assms] .

theorem session_refines_map_witness:
  "\<exists>p0 ts p. session wit_G wit_w wit_w p0 [OInsert wit_key wit_key, OReadNonZero wit_key, ODelete wit_key] ts p
    \<and> acc_inv wit_G wit_w wit_w p \<and> verifier_run wit_G wit_w wit_w (VerifierState_of p0) ts = Ret (VerifierState_of p)
    \<and> bindings (links_of p) = {}"
proof -
  obtain p0 p :: wit_state and ts where
    s: "session wit_G wit_w wit_w p0 [OInsert wit_key wit_key, OReadNonZero wit_key, ODelete wit_key] ts p"
    using wit_session by blast
  have "spec_run wit_G wit_w wit_w {} [OInsert wit_key wit_key, OReadNonZero wit_key, ODelete wit_key] = Some {}"
    by (auto simp: spec_step_def Let_def has_key_def wit_key_hash)
  then show ?thesis using s session_refines_map [OF wit_felt s] by auto
qed

text \<open>
  C2: Completeness. From a state that satisfies the invariant, with room for one more leaf and a key
  that does not hash to the head or tail key, every operation that the abstract map allows
  returns (or panics on an inner node that hashes to zero), keeps the invariant, changes the
  contents as the abstract map does, and gives a trace that the verifier accepts, moving to the
  snapshot of the new prover state.
\<close>

theorem honest_step_accepted:
  assumes "felt G" and "acc_inv G wk wv p" and "ps_NextFreeNode p < 2 ^ DefaultDepth"
    and "hash G (wk (op_key x)) \<noteq> oct_zero G" and "hash G (wk (op_key x)) \<noteq> MaxKoalaOctuplet G"
    and "go_order o1" and "go_order o2"
    and "spec_step G wk wv (bindings (links_of p)) x = Some B'"
  shows "ret_or (\<lambda>(p', t). acc_inv G wk wv p' \<and> bindings (links_of p') = B'
      \<and> trace_wf t \<and> verifier_step G wk wv (VerifierState_of p) t = Ret (VerifierState_of p')) (zero_panics G)
    (prover_step G wk wv o1 o2 p x)"
  using felt.step_complete [OF assms(1,2) _ assms(4-8)] assms(3) by blast

theorem honest_step_accepted_witness:
  "\<exists>p p' t. prover_step wit_G wit_w wit_w (\<lambda>l. l) rev p (OInsert wit_key wit_key) = Ret (p', t)
    \<and> acc_inv wit_G wit_w wit_w p' \<and> bindings (links_of p') = {(wit_key, wit_key)}
    \<and> verifier_step wit_G wit_w wit_w (VerifierState_of p) t = Ret (VerifierState_of p')"
proof -
  obtain p :: wit_state where p: "acc_inv wit_G wit_w wit_w p" "bindings (links_of p) = {}" "ps_NextFreeNode p = 2"
    using wit_init by blast
  have "spec_step wit_G wit_w wit_w (bindings (links_of p)) (OInsert wit_key wit_key) = Some {(wit_key, wit_key)}"
    by (simp add: spec_step_def Let_def has_key_def p(2) wit_key_hash)
  from wit_ret [OF honest_step_accepted [OF wit_felt p(1) _ _ _ _ _ this, of "\<lambda>l. l" rev]] show ?thesis
    using p(3) wit_key_hash wit_key_inner by (auto simp: DefaultDepth_def simp del: prover_step.simps verifier_step.simps)
qed

text \<open>
  C4: Soundness of insertion. If a verifier that tracks the accumulator \<open>op\<close> accepts an insertion
  trace, then the key was absent and the new verifier state tracks an accumulator with exactly
  the new binding added, or the trace exhibits a hash collision. The Merkle proofs of the trace are
  assumed to have 40 siblings and its positions to fit in \<^verbatim>\<open>int64\<close>: the verifier does not check it.
\<close>

theorem insertion_verified:
  assumes "felt G" and "vrep G v op" and "VerifyInsertion G wk wv v trace = Ret (v', None)"
    and "trace_wf (TInsert trace)"
  shows "(\<exists>op'. vrep G v' op' \<and> (\<forall>i l. op i = Some l \<longrightarrow> HKey l \<noteq> hash G (wk (it_Key trace)))
        \<and> vs_NextFreeNode v' = vs_NextFreeNode v + 1
        \<and> bindings op' = insert (hash G (wk (it_Key trace)), hash G (wv (it_Val trace))) (bindings op))
    \<or> insertion_break G wk wv op trace"
  using felt.insertion_sound [OF assms(1-3)] assms(4) unfolding trace_wf.simps Let_def by blast

theorem insertion_verified_witness:
  "\<exists>v op trace v'. vrep wit_G v op \<and> VerifyInsertion wit_G wit_w wit_w v trace = Ret (v', None)
    \<and> trace_wf (TInsert trace)
    \<and> ((\<exists>op'. vrep wit_G v' op' \<and> (\<forall>i l. op i = Some l \<longrightarrow> HKey l \<noteq> hash wit_G (wit_w (it_Key trace)))
          \<and> vs_NextFreeNode v' = vs_NextFreeNode v + 1
          \<and> bindings op' = insert (hash wit_G (wit_w (it_Key trace)), hash wit_G (wit_w (it_Val trace))) (bindings op))
       \<or> insertion_break wit_G wit_w wit_w op trace)"
proof -
  obtain p p' :: wit_state and t where p: "acc_inv wit_G wit_w wit_w p" and t: "trace_wf (TInsert t)"
    and v: "VerifyInsertion wit_G wit_w wit_w (VerifierState_of p) t = Ret (VerifierState_of p', None)"
    using wit_inserted by blast
  note r = acc_inv_vrep [OF p]
  show ?thesis using insertion_verified [OF wit_felt r v t] r v t by blast
qed

text \<open>
  C5: Soundness of deletion. An accepted deletion trace removes exactly the binding of its key,
  which was present with the deleted value, or exhibits a hash collision. The head and the tail
  cannot be deleted. The Merkle proofs are assumed to have 40 siblings and the positions to fit in
  \<^verbatim>\<open>int64\<close>.
\<close>

theorem deletion_verified:
  assumes "felt G" and "vrep G v op" and "VerifyDeletion G wk wv v trace = Ret v'" and "trace_wf (TDelete trace)"
  shows "(\<exists>op'. vrep G v' op' \<and> vs_NextFreeNode v' = vs_NextFreeNode v
        \<and> (hash G (wk (dt_Key trace)), hash G (wv (dt_DeletedValue trace))) \<in> bindings op
        \<and> bindings op' = bindings op - {(hash G (wk (dt_Key trace)), hash G (wv (dt_DeletedValue trace)))})
    \<or> deletion_break G op trace"
  using felt.deletion_sound [OF assms(1-3)] assms(4) unfolding trace_wf.simps Let_def by blast

theorem deletion_verified_witness:
  "\<exists>v op trace v'. vrep wit_G v op \<and> VerifyDeletion wit_G wit_w wit_w v trace = Ret v' \<and> trace_wf (TDelete trace)
    \<and> ((\<exists>op'. vrep wit_G v' op' \<and> vs_NextFreeNode v' = vs_NextFreeNode v
          \<and> (hash wit_G (wit_w (dt_Key trace)), hash wit_G (wit_w (dt_DeletedValue trace))) \<in> bindings op
          \<and> bindings op' = bindings op - {(hash wit_G (wit_w (dt_Key trace)), hash wit_G (wit_w (dt_DeletedValue trace)))})
       \<or> deletion_break wit_G op trace)"
proof -
  have "spec_step wit_G wit_w wit_w {(wit_key, wit_key)} (ODelete wit_key) = Some {}"
    by (simp add: spec_step_def Let_def has_key_def wit_key_hash)
  from wit_next [OF _ this] obtain p p' :: wit_state and t where p: "acc_inv wit_G wit_w wit_w p"
    and s: "prover_step wit_G wit_w wit_w (\<lambda>l. l) (\<lambda>l. l) p (ODelete wit_key) = Ret (p', t)" and t: "trace_wf t"
    and v: "verifier_step wit_G wit_w wit_w (VerifierState_of p) t = Ret (VerifierState_of p')"
    by auto
  from s obtain d where d: "t = TDelete d" by (auto simp: go_simps)
  note r = acc_inv_vrep [OF p]
  have v': "VerifyDeletion wit_G wit_w wit_w (VerifierState_of p) d = Ret (VerifierState_of p')" using v by (simp add: d)
  show ?thesis using deletion_verified [OF wit_felt r v' t [unfolded d]] r v' t [unfolded d] by blast
qed

text \<open>
  C6: Soundness of update. An accepted update trace whose opening is not that of the head or the
  tail replaces exactly the value of its key, which was present with the old value, or exhibits
  a hash collision. The Merkle proof is assumed to have 40 siblings and the positions to fit in \<^verbatim>\<open>int64\<close>.
\<close>

theorem update_verified:
  assumes "felt G" and "vrep G v op" and "UpdateVerify G wk wv v trace = Ret v'" and "trace_wf (TUpdate trace)"
    and "\<not> HeadOrTail G (ut_OldOpening trace)"
  shows "(\<exists>op'. vrep G v' op' \<and> vs_NextFreeNode v' = vs_NextFreeNode v
        \<and> (hash G (wk (ut_Key trace)), hash G (wv (ut_OldValue trace))) \<in> bindings op
        \<and> bindings op' = insert (hash G (wk (ut_Key trace)), hash G (wv (ut_NewValue trace)))
            (bindings op - {(hash G (wk (ut_Key trace)), hash G (wv (ut_OldValue trace)))}))
    \<or> open_break G op (ut_Proof trace) (ut_OldOpening trace)"
  using felt.update_sound [OF assms(1-3) _ _ assms(5)] assms(4) unfolding trace_wf.simps Let_def by blast

theorem update_verified_witness:
  "\<exists>v op trace v'. vrep wit_G v op \<and> UpdateVerify wit_G wit_w wit_w v trace = Ret v'
    \<and> \<not> HeadOrTail wit_G (ut_OldOpening trace)
    \<and> ((\<exists>op'. vrep wit_G v' op' \<and> vs_NextFreeNode v' = vs_NextFreeNode v
          \<and> (hash wit_G (wit_w (ut_Key trace)), hash wit_G (wit_w (ut_OldValue trace))) \<in> bindings op
          \<and> bindings op' = insert (hash wit_G (wit_w (ut_Key trace)), hash wit_G (wit_w (ut_NewValue trace)))
              (bindings op - {(hash wit_G (wit_w (ut_Key trace)), hash wit_G (wit_w (ut_OldValue trace)))}))
       \<or> open_break wit_G op (ut_Proof trace) (ut_OldOpening trace))"
proof -
  have sp: "spec_step wit_G wit_w wit_w {(wit_key, wit_key)} (OUpdate wit_key wit_key) = Some {(wit_key, wit_key)}"
    by (auto simp: spec_step_def Let_def has_key_def wit_key_hash)
  have "op_key (OUpdate wit_key wit_key) = wit_key" by simp
  from wit_next [OF this sp] obtain p p' :: wit_state and t where p: "acc_inv wit_G wit_w wit_w p"
    and s: "prover_step wit_G wit_w wit_w (\<lambda>l. l) (\<lambda>l. l) p (OUpdate wit_key wit_key) = Ret (p', t)"
    and t: "trace_wf t" and v: "verifier_step wit_G wit_w wit_w (VerifierState_of p) t = Ret (VerifierState_of p')"
    by blast
  from s obtain u where u: "t = TUpdate u" "UpdateAndProve wit_G wit_w wit_w (\<lambda>l. l) p wit_key wit_key = Ret (p', u)"
    by (auto simp: go_simps)
  have "HKey (ut_OldOpening u) = wit_key"
    using UpdateAndProve_key [OF u(2)] wit_key_hash by simp
  then have h: "\<not> HeadOrTail wit_G (ut_OldOpening u)" using wit_key_inner by (simp add: HeadOrTail_iff)
  note r = acc_inv_vrep [OF p]
  have v': "UpdateVerify wit_G wit_w wit_w (VerifierState_of p) u = Ret (VerifierState_of p')" using v by (simp add: u)
  show ?thesis using update_verified [OF wit_felt r v' t [unfolded u(1)] h] r v' h by blast
qed

text \<open>
  C7: Soundness of a read of an absent key. If the verifier accepts a read-zero trace, no leaf of the
  accumulator has the hashed key, or the trace exhibits a hash collision. The Merkle proofs are
  assumed to have 40 siblings and the positions to fit in \<^verbatim>\<open>int64\<close>.
\<close>

theorem read_zero_verified:
  assumes "felt G" and "vrep G v op" and "ReadZeroVerify G wk v trace = Ret ()"
    and "trace_wf (TReadZero trace :: ('e, 'k, 'v) Trace)"
  shows "(\<forall>i l. op i = Some l \<longrightarrow> HKey l \<noteq> hash G (wk (rz_Key trace)))
    \<or> open_break G op (rz_ProofMinus trace) (rz_OpeningMinus trace)
    \<or> open_break G op (rz_ProofPlus trace) (rz_OpeningPlus trace)"
  using assms by (intro felt.read_zero_sound) simp_all

theorem read_zero_verified_witness:
  "\<exists>v op trace. vrep wit_G v op \<and> ReadZeroVerify wit_G wit_w v trace = Ret ()
    \<and> trace_wf (TReadZero trace :: (koala, koala octuplet, koala octuplet) Trace)
    \<and> ((\<forall>i l. op i = Some l \<longrightarrow> HKey l \<noteq> hash wit_G (wit_w (rz_Key trace)))
       \<or> open_break wit_G op (rz_ProofMinus trace) (rz_OpeningMinus trace)
       \<or> open_break wit_G op (rz_ProofPlus trace) (rz_OpeningPlus trace))"
proof -
  obtain p :: wit_state where p: "acc_inv wit_G wit_w wit_w p" "bindings (links_of p) = {}" "ps_NextFreeNode p = 2"
    using wit_init by blast
  have sp: "spec_step wit_G wit_w wit_w (bindings (links_of p)) (OReadZero wit_key) = Some {}"
    by (simp add: spec_step_def Let_def has_key_def p(2))
  from wit_step [OF p(1) _ _ sp] p(3) obtain p' t where
    s: "prover_step wit_G wit_w wit_w (\<lambda>l. l) (\<lambda>l. l) p (OReadZero wit_key) = Ret (p', t)" and t: "trace_wf t"
    and v: "verifier_step wit_G wit_w wit_w (VerifierState_of p) t = Ret (VerifierState_of p')"
    by (auto simp: DefaultDepth_def simp del: prover_step.simps)
  from s obtain z where z: "t = TReadZero z" by (auto simp: go_simps)
  note r = acc_inv_vrep [OF p(1)]
  have v': "ReadZeroVerify wit_G wit_w (VerifierState_of p) z = Ret ()" using v by (auto simp: z go_simps)
  show ?thesis using read_zero_verified [OF wit_felt r v' t [unfolded z]] r v' t [unfolded z] by blast
qed

text \<open>
  C8: Soundness of a read of a present key. If the verifier accepts a read trace whose opening is not
  that of the head or the tail, the accumulator binds the key to the value of the trace, or the
  trace exhibits a hash collision. The Merkle proof is assumed to have 40 siblings and the positions to
  fit in \<^verbatim>\<open>int64\<close>.
\<close>

theorem read_nonzero_verified:
  assumes "felt G" and "vrep G v op" and "ReadNonZeroVerify G wk wv v trace = Ret ()"
    and "trace_wf (TReadNonZero trace)" and "\<not> HeadOrTail G (rn_LeafOpening trace)"
  shows "(hash G (wk (rn_Key trace)), hash G (wv (rn_Value trace))) \<in> bindings op
    \<or> open_break G op (rn_Proof trace) (rn_LeafOpening trace)"
  using assms by (intro felt.read_nonzero_sound) simp_all

theorem read_nonzero_verified_witness:
  "\<exists>v op trace. vrep wit_G v op \<and> ReadNonZeroVerify wit_G wit_w wit_w v trace = Ret ()
    \<and> \<not> HeadOrTail wit_G (rn_LeafOpening trace)
    \<and> ((hash wit_G (wit_w (rn_Key trace)), hash wit_G (wit_w (rn_Value trace))) \<in> bindings op
       \<or> open_break wit_G op (rn_Proof trace) (rn_LeafOpening trace))"
proof -
  have sp: "spec_step wit_G wit_w wit_w {(wit_key, wit_key)} (OReadNonZero wit_key) = Some {(wit_key, wit_key)}"
    by (simp add: spec_step_def Let_def has_key_def wit_key_hash)
  have "op_key (OReadNonZero wit_key) = wit_key" by simp
  from wit_next [OF this sp] obtain p p' :: wit_state and t where p: "acc_inv wit_G wit_w wit_w p"
    and s: "prover_step wit_G wit_w wit_w (\<lambda>l. l) (\<lambda>l. l) p (OReadNonZero wit_key) = Ret (p', t)"
    and t: "trace_wf t" and v: "verifier_step wit_G wit_w wit_w (VerifierState_of p) t = Ret (VerifierState_of p')"
    by blast
  from s obtain u where u: "t = TReadNonZero u" "ReadNonZeroAndProve wit_G wit_w (\<lambda>l. l) p wit_key = Ret u"
    by (auto simp: go_simps)
  have "HKey (rn_LeafOpening u) = wit_key"
    using ReadNonZeroAndProve_key [OF u(2)] wit_key_hash by simp
  then have h: "\<not> HeadOrTail wit_G (rn_LeafOpening u)" using wit_key_inner by (simp add: HeadOrTail_iff)
  note r = acc_inv_vrep [OF p]
  have v': "ReadNonZeroVerify wit_G wit_w wit_w (VerifierState_of p) u = Ret ()" using v by (auto simp: u go_simps)
  show ?thesis using read_nonzero_verified [OF wit_felt r v' t [unfolded u(1)] h] r v' h by blast
qed

text \<open>
  C37: The verifier accepts a read of any key with any value when the trace opens the head leaf:
  \<^verbatim>\<open>CheckAndLeaf\<close> does not compare the key and the value with the opening of the head or the
  tail.
\<close>

theorem read_of_head_accepts_any_value:
  assumes "felt G" and "acc_inv G wk wv p" and "links_of p 0 = Some l"
  shows "ret_or (\<lambda>pf. ReadNonZeroVerify G wk wv (VerifierState_of p)
      \<lparr>rn_Type = 0, rn_Location = ps_Location p, rn_NextFreeNode = ps_NextFreeNode p, rn_Key = key,
       rn_Value = val, rn_SubRoot = SubTreeRoot p, rn_LeafOpening = l, rn_Proof = pf\<rparr> = Ret ())
    (zero_panics G) (MustProve G (ps_Tree p) 0)"
  using felt.head_read_accepted [OF assms] .

theorem read_of_head_accepts_any_value_witness:
  "\<exists>v trace. ReadNonZeroVerify wit_G wit_w wit_w v trace = Ret () \<and> (\<exists>p. v = VerifierState_of p
      \<and> acc_inv wit_G wit_w wit_w p \<and> bindings (links_of p) = {}) \<and> rn_Key trace = wit_key \<and> rn_Value trace = wit_key"
proof -
  obtain p :: wit_state where p: "acc_inv wit_G wit_w wit_w p" "bindings (links_of p) = {}" using wit_init by blast
  have "0 \<in> dom (links_of p)" using acc_invD(2) [OF p(1)] by (simp add: well_linked_def)
  then obtain l where l: "links_of p 0 = Some l" by blast
  from wit_ret [OF read_of_head_accepts_any_value [OF wit_felt p(1) l, of wit_key wit_key]]
  show ?thesis using p by fastforce
qed

text \<open>
  C24: Deferring the Merkle checks loses nothing and adds nothing: the verifier accepts a trace of any
  kind if and only if its other checks pass (location, old root, positions, order of the hashed keys,
  key and value of the opening unless it is that of the head or the tail, next free node), \<^verbatim>\<open>DeferMerkleChecks\<close> returns, every claim that it
  appends verifies, and, for a trace that writes, the root of the last claim is the root that the
  trace announces. The caller has to make that last comparison: \<^verbatim>\<open>DeferMerkleChecks\<close> does not.
\<close>

theorem deferred_claims_verify:
  "verify_trace G wk wv v t \<longleftrightarrow> plain_checks G wk wv v t
    \<and> (\<exists>cs. DeferMerkleChecks G wk wv t as = Ret (as @ cs) \<and> claims_ok G cs \<and> ends_at (announced_root t) cs)"
  by (rule defer_exact)

text \<open>
  The initial accumulator is well formed and empty, with the head and the tail as its only leaves
  and position 2 as its next free one.
\<close>

theorem initial_accumulator:
  assumes "felt G"
  shows "ret_or (\<lambda>p. acc_inv G wk wv p \<and> bindings (links_of p) = {} \<and> ps_Location p = location \<and> ps_NextFreeNode p = 2)
    (zero_panics G) (InitializeProverState G zk zv location)"
  using felt.init_complete [OF assms] .

end
